(* ===== verification/Go_Base.thy ===== *)
theory Go_Base
  imports Main "HOL-Library.Word" "HOL-Library.Signed_Division"
begin

text \<open>
  The prelude of the development: Go's fixed-width integers, its run-time panics, its
  clock values, and the general lemmas on words, lists and maps that the component
  theories share.

  Integers keep their width: \<open>int\<close>, \<open>int64\<close>, \<open>uint64\<close> and \<open>time.Duration\<close> are 64-bit
  words (the code is built for 64-bit platforms), read with \<open>sint\<close> where Go's type is signed
  and with \<open>unat\<close> where it is unsigned. A conversion between the signed and the unsigned
  type of one width is the identity on words, as in Go. Lengths of slices are \<open>nat\<close>.

  A computation that can panic returns \<open>Inl\<close> of a \<open>panic\<close>.
\<close>

section \<open>Automation\<close>

named_theorems go_arith \<open>the integer meaning of word operations on in-range operands\<close>

section \<open>Integers\<close>

type_synonym u64 = "64 word"
type_synonym i64 = "64 word"
type_synonym u16 = "16 word"
type_synonym duration = i64

datatype panic =
    DivideByZero
  | IndexOutOfRange
  | NilDereference
  | BadTypeAssertion
  | NegativeRepeat
  | MakeSliceRange
  | NilMapWrite

type_synonym 'a go = "panic + 'a"

text \<open>Sequencing: the rest of a computation runs unless a panic or an error came before.\<close>

definition go_bind :: "'e + 'a \<Rightarrow> ('a \<Rightarrow> 'e + 'b) \<Rightarrow> 'e + 'b" where
  "go_bind m f = (case m of Inl e \<Rightarrow> Inl e | Inr x \<Rightarrow> f x)"

lemma go_bind_simps [simp]:
  "go_bind (Inl e) f = Inl e"
  "go_bind (Inr x) f = f x"
  by (simp_all add: go_bind_def)

lemma go_bind_Inr_iff: "go_bind m f = Inr y \<longleftrightarrow> (\<exists>x. m = Inr x \<and> f x = Inr y)"
  by (cases m) simp_all

lemma go_bind_Inl_iff: "go_bind m f = Inl e \<longleftrightarrow> m = Inl e \<or> (\<exists>x. m = Inr x \<and> f x = Inl e)"
  by (cases m) simp_all

text \<open>\<open>math.MaxInt64\<close>, and the signed quotient of Go, truncated towards zero. Go panics
  on a zero divisor; the quotient of the most negative value by \<open>-1\<close> wraps.\<close>

definition max_int64 :: i64 where
  "max_int64 = 0x7FFFFFFFFFFFFFFF"

definition i64_div :: "i64 \<Rightarrow> i64 \<Rightarrow> i64 go" where
  "i64_div a b = (if b = 0 then Inl DivideByZero else Inr (word_of_int (sint a sdiv sint b)))"

definition i64_mod :: "i64 \<Rightarrow> i64 \<Rightarrow> i64 go" where
  "i64_mod a b = (if b = 0 then Inl DivideByZero else Inr (word_of_int (sint a smod sint b)))"

definition u64_div :: "u64 \<Rightarrow> u64 \<Rightarrow> u64 go" where
  "u64_div a b = (if b = 0 then Inl DivideByZero else Inr (a div b))"

definition u64_mod :: "u64 \<Rightarrow> u64 \<Rightarrow> u64 go" where
  "u64_mod a b = (if b = 0 then Inl DivideByZero else Inr (a mod b))"

lemma i64_sint_lower [simp, intro]: "- (2 ^ 63) \<le> sint (w :: i64)"
  using sint_greater_eq [of w] by simp

lemma i64_sint_upper [simp, intro]: "sint (w :: i64) < 2 ^ 63"
  using sint_lt [of w] by simp

lemma i64_sint_bounds:
  "- 9223372036854775808 \<le> sint (w :: i64)" "sint (w :: i64) \<le> 9223372036854775807"
  using i64_sint_lower [of w] i64_sint_upper [of w] by simp_all

lemma i64_sint_eq_0 [simp]: "sint (w :: i64) = 0 \<longleftrightarrow> w = 0"
  by (metis signed_0 signed_word_eqI)

lemma u64_unat_upper [simp, intro]: "unat (w :: u64) < 2 ^ 64"
  using unsigned_less [of w] by simp

lemma sint_word_of_int_i64 [go_arith]:
  "- (2 ^ 63) \<le> k \<Longrightarrow> k < 2 ^ 63 \<Longrightarrow> sint (word_of_int k :: i64) = k"
  by (simp add: sint_sbintrunc' signed_take_bit_int_eq_self_iff)

lemma sint_add_i64 [go_arith]:
  assumes "- (2 ^ 63) \<le> sint a + sint (b :: i64)" and "sint a + sint b < 2 ^ 63"
  shows "sint (a + b) = sint a + sint b"
proof -
  have "sint (a + b) = sint (word_of_int (sint a + sint b) :: i64)" by simp
  also have "\<dots> = sint a + sint b" using assms by (rule sint_word_of_int_i64)
  finally show ?thesis .
qed

lemma sint_diff_i64 [go_arith]:
  assumes "- (2 ^ 63) \<le> sint a - sint (b :: i64)" and "sint a - sint b < 2 ^ 63"
  shows "sint (a - b) = sint a - sint b"
proof -
  have "sint (a - b) = sint (word_of_int (sint a - sint b) :: i64)" by simp
  also have "\<dots> = sint a - sint b" using assms by (rule sint_word_of_int_i64)
  finally show ?thesis .
qed

lemma sint_eq_uint_i64: "uint (w :: i64) < 2 ^ 63 \<Longrightarrow> sint w = uint w"
proof -
  assume a: "uint w < 2 ^ 63"
  have "sint w = sint (word_of_int (uint w) :: i64)" by simp
  also have "\<dots> = uint w"
    by (rule sint_word_of_int_i64) (use a uint_ge_0 [of w] in linarith)+
  finally show ?thesis .
qed

lemma sint_eq_unat_i64: "unat (w :: i64) < 2 ^ 63 \<Longrightarrow> sint w = int (unat w)"
proof -
  assume "unat w < 2 ^ 63"
  then have "int (unat w) < int (2 ^ 63)" by (simp only: of_nat_less_iff)
  then have "uint w < 2 ^ 63" by (simp only: uint_nat of_nat_power of_nat_numeral)
  then show ?thesis by (simp only: sint_eq_uint_i64 uint_nat)
qed

lemma uint_eq_sint_i64: "0 \<le> sint (w :: i64) \<Longrightarrow> uint w = sint w"
proof -
  assume a: "0 \<le> sint w"
  have "uint w = uint (word_of_int (sint w) :: i64)" by simp
  also have "\<dots> = sint w mod 2 ^ 64" by (simp only: uint_word_of_int) simp
  also have "\<dots> = sint w" using a i64_sint_upper [of w] by simp
  finally show ?thesis .
qed

lemma unat_eq_sint_i64: "0 \<le> sint (w :: i64) \<Longrightarrow> int (unat w) = sint w"
  by (simp add: uint_eq_sint_i64 flip: uint_nat)

lemma sdiv_nonneg: "0 \<le> a \<Longrightarrow> 0 < b \<Longrightarrow> (a :: int) sdiv b = a div b"
  by (simp add: signed_divide_int_def sgn_if)

lemma int_le_div_iff: "0 < (b :: int) \<Longrightarrow> a \<le> t div b \<longleftrightarrow> a * b \<le> t"
proof
  assume b: "0 < b"
  show "a \<le> t div b \<Longrightarrow> a * b \<le> t"
    using b mult_right_mono [of a "t div b" b] minus_mod_eq_div_mult [of t b] pos_mod_sign [of b t]
    by linarith
  show "a * b \<le> t \<Longrightarrow> a \<le> t div b"
    using b zdiv_mono1 [of "a * b" t b] by simp
qed

lemma sint_i64_div:
  assumes "0 \<le> sint a" and "0 < sint (b :: i64)"
  shows "i64_div a b = Inr (word_of_int (sint a div sint b))"
    and "sint (word_of_int (sint a div sint b) :: i64) = sint a div sint b"
proof -
  have "sint a div sint b \<le> sint a" using assms zdiv_mono2 [of "sint a" 1 "sint b"] by simp
  moreover have "0 \<le> sint a div sint b" using assms by (simp add: pos_imp_zdiv_nonneg_iff)
  ultimately show "sint (word_of_int (sint a div sint b) :: i64) = sint a div sint b"
    by (intro sint_word_of_int_i64) (use i64_sint_upper [of a] in simp_all)
  show "i64_div a b = Inr (word_of_int (sint a div sint b))"
    using assms by (auto simp: i64_div_def sdiv_nonneg)
qed

lemma sint_max_int64: "sint max_int64 = 2 ^ 63 - 1"
  by (simp add: max_int64_def)

lemma unat_max_int64: "unat max_int64 = 2 ^ 63 - 1"
  by (simp add: max_int64_def)

section \<open>Time\<close>

text \<open>
  A \<open>time.Time\<close> is its distance from the zero \<open>Time\<close> (January 1 of year 1, UTC) in
  nanoseconds, an unbounded integer: Go keeps seconds in 64 bits and nanoseconds apart, so
  no instant the program handles is out of range. The monotonic reading that \<open>time.Now\<close>
  adds is not kept apart: both readings of one clock are taken to advance together.
  \<open>Sub\<close> saturates at the ends of \<open>time.Duration\<close>.
\<close>

type_synonym time = int

definition unix_epoch :: time where
  "unix_epoch = 62135596800 * 1000000000"

definition time_is_zero :: "time \<Rightarrow> bool" where
  "time_is_zero t \<longleftrightarrow> t = 0"

definition time_before :: "time \<Rightarrow> time \<Rightarrow> bool" where
  "time_before t u \<longleftrightarrow> t < u"

definition time_after :: "time \<Rightarrow> time \<Rightarrow> bool" where
  "time_after t u \<longleftrightarrow> u < t"

definition time_add :: "time \<Rightarrow> duration \<Rightarrow> time" where
  "time_add t d = t + sint d"

definition time_sub :: "time \<Rightarrow> time \<Rightarrow> duration" where
  "time_sub t u = word_of_int (max (- (2 ^ 63)) (min (2 ^ 63 - 1) (t - u)))"

definition unix_nano :: "time \<Rightarrow> i64" where
  "unix_nano t = word_of_int (t - unix_epoch)"

definition time_unix :: "i64 \<Rightarrow> time" where
  "time_unix ns = unix_epoch + sint ns"

lemma sint_time_sub: "sint (time_sub t u) = max (- (2 ^ 63)) (min (2 ^ 63 - 1) (t - u))"
  unfolding time_sub_def by (rule sint_word_of_int_i64) simp_all

lemma sint_time_sub_in_range:
  "- (2 ^ 63) \<le> t - u \<Longrightarrow> t - u < 2 ^ 63 \<Longrightarrow> sint (time_sub t u) = t - u"
  by (simp add: sint_time_sub)

lemma time_unix_unix_nano:
  "- (2 ^ 63) \<le> t - unix_epoch \<Longrightarrow> t - unix_epoch < 2 ^ 63 \<Longrightarrow> time_unix (unix_nano t) = t"
  unfolding time_unix_def unix_nano_def by (simp only: sint_word_of_int_i64)

lemma unix_nano_time_unix [simp]: "unix_nano (time_unix n) = n"
  by (simp add: time_unix_def unix_nano_def)

end
