(* ===== verification/Go_Strings.thy ===== *)
theory Go_Strings
  imports Go_Base
begin

text \<open>
  What the program uses of Go's \<open>strings\<close> and \<open>strconv\<close> packages. A Go string is a list of
  bytes, here \<open>string\<close> (HOL's \<open>char\<close> is a byte). Decimal printing and parsing are total on
  64-bit integers and invert each other.
\<close>

section \<open>strings\<close>

definition has_prefix :: "string \<Rightarrow> string \<Rightarrow> bool" where
  "has_prefix s p \<longleftrightarrow> take (length p) s = p"

text \<open>The UTF-8 encodings of the runes \<open>unicode.IsSpace\<close> accepts.\<close>

definition space_runes :: "string list" where
  "space_runes =
    [[CHR 0x20], [CHR 0x09], [CHR 0x0A], [CHR 0x0B], [CHR 0x0C], [CHR 0x0D],
     [CHR 0xC2, CHR 0x85], [CHR 0xC2, CHR 0xA0],
     [CHR 0xE1, CHR 0x9A, CHR 0x80],
     [CHR 0xE2, CHR 0x80, CHR 0x80], [CHR 0xE2, CHR 0x80, CHR 0x81], [CHR 0xE2, CHR 0x80, CHR 0x82],
     [CHR 0xE2, CHR 0x80, CHR 0x83], [CHR 0xE2, CHR 0x80, CHR 0x84], [CHR 0xE2, CHR 0x80, CHR 0x85],
     [CHR 0xE2, CHR 0x80, CHR 0x86], [CHR 0xE2, CHR 0x80, CHR 0x87], [CHR 0xE2, CHR 0x80, CHR 0x88],
     [CHR 0xE2, CHR 0x80, CHR 0x89], [CHR 0xE2, CHR 0x80, CHR 0x8A],
     [CHR 0xE2, CHR 0x80, CHR 0xA8], [CHR 0xE2, CHR 0x80, CHR 0xA9], [CHR 0xE2, CHR 0x80, CHR 0xAF],
     [CHR 0xE2, CHR 0x81, CHR 0x9F], [CHR 0xE3, CHR 0x80, CHR 0x80]]"

text \<open>Strip encodings of the list from the front, for as long as one is there.\<close>

function trim_left :: "string list \<Rightarrow> string \<Rightarrow> string" where
  "trim_left runes s =
    (case find (\<lambda>r. r \<noteq> [] \<and> has_prefix s r) runes of
       None \<Rightarrow> s
     | Some r \<Rightarrow> trim_left runes (drop (length r) s))"
  by pat_completeness auto
termination
proof (relation "measure (\<lambda>(runes, s). length s)")
  fix runes s r
  assume "find (\<lambda>r. r \<noteq> [] \<and> has_prefix s r) runes = Some r"
  then have "r \<noteq> []" and "take (length r) s = r"
    by (auto simp: find_Some_iff has_prefix_def)
  then have "s \<noteq> []" by (cases s) auto
  with \<open>r \<noteq> []\<close> show "((runes, drop (length r) s), runes, s) \<in> measure (\<lambda>(runes, s). length s)"
    by simp
qed simp

declare trim_left.simps [simp del]

definition trim_space :: "string \<Rightarrow> string" where
  "trim_space s = rev (trim_left (map rev space_runes) (rev (trim_left space_runes s)))"

text \<open>Strings that start and end with a graphic ASCII character have no space to trim.\<close>

definition ascii_graphic :: "char \<Rightarrow> bool" where
  "ascii_graphic c \<longleftrightarrow> (let k = of_char c :: nat in 33 \<le> k \<and> k \<le> 126)"

definition clean :: "string \<Rightarrow> bool" where
  "clean s \<longleftrightarrow> s \<noteq> [] \<and> ascii_graphic (hd s) \<and> ascii_graphic (last s)"

lemma has_prefix_hd: "has_prefix (c # cs) r \<Longrightarrow> r \<noteq> [] \<Longrightarrow> hd r = c"
  by (cases r) (auto simp: has_prefix_def)

lemma trim_left_stop: "c \<notin> hd ` set runes \<Longrightarrow> trim_left runes (c # cs) = c # cs"
proof -
  assume "c \<notin> hd ` set runes"
  then have "find (\<lambda>r. r \<noteq> [] \<and> has_prefix (c # cs) r) runes = None"
    by (auto simp: find_None_iff dest: has_prefix_hd)
  then show ?thesis by (subst trim_left.simps) simp
qed

lemma trim_left_graphic [simp]:
  "ascii_graphic c \<Longrightarrow> trim_left space_runes (c # cs) = c # cs"
  "ascii_graphic c \<Longrightarrow> trim_left (map rev space_runes) (c # cs) = c # cs"
  by (rule trim_left_stop; auto simp: space_runes_def ascii_graphic_def)+

lemma trim_left_Nil [simp]: "trim_left runes [] = []"
proof -
  have "find (\<lambda>r. r \<noteq> [] \<and> has_prefix [] r) runes = None"
    by (auto simp: find_None_iff has_prefix_def)
  then show ?thesis by (subst trim_left.simps) simp
qed

lemma trim_space_Nil [simp]: "trim_space [] = []"
  by (simp add: trim_space_def)

lemma trim_space_clean [simp]: "clean s \<Longrightarrow> trim_space s = s"
proof -
  assume c: "clean s"
  then have "trim_left space_runes s = s" by (cases s) (simp_all add: clean_def)
  moreover from c have "trim_left (map rev space_runes) (rev s) = rev s"
    by (cases "rev s") (auto simp: clean_def last_rev hd_rev[symmetric] rev_swap)
  ultimately show ?thesis by (simp add: trim_space_def)
qed

lemma trim_space_leading [simp]: "clean s \<Longrightarrow> trim_space (CHR '' '' # s) = s"
proof -
  assume c: "clean s"
  have "find (\<lambda>r. r \<noteq> [] \<and> has_prefix (CHR '' '' # s) r) space_runes = Some [CHR '' '']"
    by (simp add: space_runes_def has_prefix_def)
  then have "trim_left space_runes (CHR '' '' # s) = trim_left space_runes s"
    by (subst trim_left.simps) simp
  then have "trim_space (CHR '' '' # s) = trim_space s" by (simp add: trim_space_def)
  then show ?thesis using c by simp
qed

lemma clean_append: "clean p \<Longrightarrow> clean q \<Longrightarrow> clean (p @ r @ q)"
  by (auto simp: clean_def)

text \<open>\<open>strings.SplitN(s, c, 2)\<close> and \<open>strings.Split(s, c)\<close> for a one-byte separator, and
  \<open>strings.Join\<close>.\<close>

definition split_n2 :: "char \<Rightarrow> string \<Rightarrow> string list" where
  "split_n2 c s =
    (case dropWhile (\<lambda>x. x \<noteq> c) s of
       [] \<Rightarrow> [s]
     | _ # rest \<Rightarrow> [takeWhile (\<lambda>x. x \<noteq> c) s, rest])"

fun split :: "char \<Rightarrow> string \<Rightarrow> string list" where
  "split c [] = [[]]"
| "split c (x # xs) =
    (if x = c then [] # split c xs
     else (case split c xs of [] \<Rightarrow> [[x]] | p # ps \<Rightarrow> (x # p) # ps))"

fun join :: "string \<Rightarrow> string list \<Rightarrow> string" where
  "join sep [] = []"
| "join sep [x] = x"
| "join sep (x # y # ys) = x @ sep @ join sep (y # ys)"

lemma split_not_Nil [simp]: "split c s \<noteq> []"
  by (induction s) (auto split: list.splits)

lemma join_split: "join [c] (split c s) = s"
proof (induction s)
  case (Cons x xs)
  then show ?case by (cases "split c xs"; cases "tl (split c xs)") auto
qed simp

lemma split_no_sep: "c \<notin> set p \<Longrightarrow> split c p = [p]"
  by (induction p) auto

lemma split_append_sep:
  "c \<notin> set p \<Longrightarrow> split c (p @ c # rest) = p # split c rest"
  by (induction p) auto

lemma split_join:
  "ps \<noteq> [] \<Longrightarrow> \<forall>p \<in> set ps. c \<notin> set p \<Longrightarrow> split c (join [c] ps) = ps"
  by (induction "[c]" ps rule: join.induct) (auto simp: split_no_sep split_append_sep)

lemma takeWhile_to_sep: "c \<notin> set p \<Longrightarrow> takeWhile (\<lambda>x. x \<noteq> c) (p @ c # rest) = p"
  by (induction p) auto

lemma dropWhile_to_sep: "c \<notin> set p \<Longrightarrow> dropWhile (\<lambda>x. x \<noteq> c) (p @ c # rest) = c # rest"
  by (induction p) auto

lemma dropWhile_no_sep: "c \<notin> set p \<Longrightarrow> dropWhile (\<lambda>x. x \<noteq> c) p = []"
  by (induction p) auto

lemma split_n2_no_sep: "c \<notin> set s \<Longrightarrow> split_n2 c s = [s]"
  by (simp add: split_n2_def dropWhile_no_sep)

lemma split_n2_sep: "c \<notin> set p \<Longrightarrow> split_n2 c (p @ c # rest) = [p, rest]"
  by (simp add: split_n2_def takeWhile_to_sep dropWhile_to_sep)

section \<open>strconv\<close>

definition digit_char :: "nat \<Rightarrow> char" where
  "digit_char d = char_of (48 + d)"

definition digit_val :: "char \<Rightarrow> nat option" where
  "digit_val c = (let k = of_char c :: nat in if 48 \<le> k \<and> k \<le> 57 then Some (k - 48) else None)"

text \<open>The decimal digits of a natural number, most significant first.\<close>

fun format_nat :: "nat \<Rightarrow> string" where
  "format_nat n = (if n < 10 then [digit_char n] else format_nat (n div 10) @ [digit_char (n mod 10)])"

declare format_nat.simps [simp del]

definition format_uint :: "'a::len word \<Rightarrow> string" where
  "format_uint w = format_nat (unat w)"

definition format_int :: "i64 \<Rightarrow> string" where
  "format_int w =
    (if sint w < 0 then CHR ''-'' # format_nat (nat (- sint w)) else format_nat (nat (sint w)))"

text \<open>\<open>strconv.ParseUint(s, 10, bits)\<close> stops at the first byte that is no digit and as soon
  as the value read leaves the range; \<open>ParseInt\<close> reads a sign first.\<close>

datatype num_error = ErrSyntax | ErrRange

fun parse_digits :: "nat \<Rightarrow> nat \<Rightarrow> string \<Rightarrow> num_error + nat" where
  "parse_digits max_val n [] = Inr n"
| "parse_digits max_val n (c # cs) =
    (case digit_val c of
       None \<Rightarrow> Inl ErrSyntax
     | Some d \<Rightarrow>
         if max_val < 10 * n + d then Inl ErrRange else parse_digits max_val (10 * n + d) cs)"

definition parse_uint :: "nat \<Rightarrow> string \<Rightarrow> num_error + nat" where
  "parse_uint bits s = (if s = [] then Inl ErrSyntax else parse_digits (2 ^ bits - 1) 0 s)"

definition parse_int64 :: "string \<Rightarrow> num_error + i64" where
  "parse_int64 s =
    (case s of
       [] \<Rightarrow> Inl ErrSyntax
     | c # cs \<Rightarrow>
         let neg = (c = CHR ''-''); ds = (if c = CHR ''+'' \<or> c = CHR ''-'' then cs else s) in
         go_bind (parse_uint 64 ds) (\<lambda>un.
           if \<not> neg \<and> 2 ^ 63 \<le> un then Inl ErrRange
           else if neg \<and> 2 ^ 63 < un then Inl ErrRange
           else Inr (if neg then - word_of_nat un else word_of_nat un)))"

lemma digit_val_char [simp]: "d < 10 \<Longrightarrow> digit_val (digit_char d) = Some d"
  by (simp add: digit_val_def digit_char_def of_char_of Let_def)

lemma digit_val_bound: "digit_val c = Some d \<Longrightarrow> d < 10"
  by (auto simp: digit_val_def Let_def split: if_splits)

lemma format_nat_not_Nil [simp]: "format_nat n \<noteq> []"
  by (subst format_nat.simps) simp

lemma format_nat_digits: "c \<in> set (format_nat n) \<Longrightarrow> \<exists>d < 10. c = digit_char d"
proof (induction n rule: format_nat.induct)
  case (1 n)
  show ?case
  proof (cases "n < 10")
    case True
    with 1 show ?thesis by (auto simp: format_nat.simps [of n])
  next
    case False
    with 1 show ?thesis by (auto simp: format_nat.simps [of n] intro: exI [of _ "n mod 10"])
  qed
qed

lemma digit_val_sign [simp]: "digit_val CHR ''-'' = None" "digit_val CHR ''+'' = None"
  by (simp_all add: digit_val_def)

lemma digit_char_neq [simp]:
  "d < 10 \<Longrightarrow> digit_char d \<noteq> CHR ''-''" "d < 10 \<Longrightarrow> digit_char d \<noteq> CHR ''+''"
  by (metis digit_val_char digit_val_sign option.distinct(1))+

lemma parse_digits_append:
  "parse_digits m n (xs @ ys) = go_bind (parse_digits m n xs) (\<lambda>k. parse_digits m k ys)"
  by (induction xs arbitrary: n) (auto split: option.splits)

lemma parse_digits_format: "n \<le> m \<Longrightarrow> parse_digits m 0 (format_nat n) = Inr n"
proof (induction n rule: format_nat.induct)
  case (1 n)
  show ?case
  proof (cases "n < 10")
    case True
    with 1 show ?thesis by (simp add: format_nat.simps [of n])
  next
    case False
    then have "parse_digits m 0 (format_nat (n div 10)) = Inr (n div 10)" using 1 by simp
    with False 1 show ?thesis by (simp add: format_nat.simps [of n] parse_digits_append)
  qed
qed

lemma parse_uint_format: "n < 2 ^ bits \<Longrightarrow> parse_uint bits (format_nat n) = Inr n"
  by (simp add: parse_uint_def parse_digits_format)

lemma parse_format_uint: "parse_uint LENGTH('a) (format_uint (w :: 'a::len word)) = Inr (unat w)"
  by (simp add: format_uint_def parse_uint_format)

lemma parse_format_int: "parse_int64 (format_int w) = Inr w"
proof (cases "sint w < 0")
  case True
  then have "nat (- sint w) \<le> 2 ^ 63" using i64_sint_lower [of w] by simp
  moreover from this have "parse_uint 64 (format_nat (nat (- sint w))) = Inr (nat (- sint w))"
    by (intro parse_uint_format) simp
  moreover have "- (word_of_nat (nat (- sint w)) :: i64) = w"
    using True by (simp add: word_of_nat_eq_iff)
  ultimately show ?thesis using True by (simp add: format_int_def parse_int64_def)
next
  case False
  obtain c cs where f: "format_nat (nat (sint w)) = c # cs"
    by (cases "format_nat (nat (sint w))") simp_all
  then have "c \<noteq> CHR ''-'' \<and> c \<noteq> CHR ''+''"
    using format_nat_digits [of c "nat (sint w)"] by auto
  moreover have "nat (sint w) < 2 ^ 63" using i64_sint_upper [of w] by (simp add: nat_less_iff)
  moreover from this have "parse_uint 64 (c # cs) = Inr (nat (sint w))"
    unfolding f [symmetric] by (intro parse_uint_format) simp
  moreover have "word_of_nat (nat (sint w)) = w" using False by simp
  ultimately show ?thesis using False f by (simp add: format_int_def parse_int64_def)
qed

end
