(* ===== verification/Http_Types.thy ===== *)
theory Http_Types
  imports Go_Strings "HOL-Library.AList"
begin

text \<open>
  The types the attacker, the targets and the results share: \<open>http.Header\<close>, \<open>Target\<close>
  (\<open>lib/targets.go\<close>), \<open>Result\<close> (\<open>lib/results.go\<close>) and their equality methods.

  A Go map with iteration is an association list with distinct keys; the list's order is
  the order in which this run iterates the map, so a statement about every list covers
  every iteration order. \<open>None\<close> is the nil map where the code tells it from an empty one.
  A byte slice is a \<open>string\<close>; the code never tells a nil slice from an empty one.
\<close>

section \<open>Headers\<close>

type_synonym header = "(string \<times> string list) list"

definition wf_header :: "header \<Rightarrow> bool" where
  "wf_header h \<longleftrightarrow> distinct (map fst h)"

text \<open>\<open>h[k]\<close>, which is nil for a missing key; \<open>h[k] = append(h[k], vs...)\<close>; \<open>Header.Set\<close>
  for a key that is canonical.\<close>

definition header_get :: "header \<Rightarrow> string \<Rightarrow> string list" where
  "header_get h k = (case map_of h k of None \<Rightarrow> [] | Some vs \<Rightarrow> vs)"

definition header_append :: "string \<Rightarrow> string list \<Rightarrow> header \<Rightarrow> header" where
  "header_append k vs h = AList.update k (header_get h k @ vs) h"

definition header_set :: "string \<Rightarrow> string \<Rightarrow> header \<Rightarrow> header" where
  "header_set k v h = AList.update k [v] h"

text \<open>\<open>for k, vs := range src { dst[k] = append(dst[k], vs...) }\<close>\<close>

fun header_merge :: "header \<Rightarrow> header \<Rightarrow> header" where
  "header_merge dst [] = dst"
| "header_merge dst ((k, vs) # src) = header_merge (header_append k vs dst) src"

lemma wf_header_Nil [simp]: "wf_header []"
  by (simp add: wf_header_def)

lemma wf_header_append [simp]: "wf_header h \<Longrightarrow> wf_header (header_append k vs h)"
  by (simp add: wf_header_def header_append_def distinct_update)

lemma wf_header_set [simp]: "wf_header h \<Longrightarrow> wf_header (header_set k v h)"
  by (simp add: wf_header_def header_set_def distinct_update)

lemma wf_header_merge [simp]: "wf_header dst \<Longrightarrow> wf_header (header_merge dst src)"
  by (induction dst src rule: header_merge.induct) simp_all

lemma header_get_append [simp]:
  "header_get (header_append k vs h) k' = (if k' = k then header_get h k @ vs else header_get h k')"
  by (simp add: header_get_def header_append_def update_conv)

lemma header_get_set [simp]:
  "header_get (header_set k v h) k' = (if k' = k then [v] else header_get h k')"
  by (simp add: header_get_def header_set_def update_conv)

lemma header_get_notin: "k \<notin> set (map fst h) \<Longrightarrow> header_get h k = []"
  by (force simp: header_get_def dest: map_of_SomeD split: option.split)

lemma header_get_Cons:
  "header_get ((k, vs) # h) k' = (if k' = k then vs else header_get h k')"
  by (simp add: header_get_def)

lemma header_get_merge:
  "wf_header src \<Longrightarrow> header_get (header_merge dst src) k = header_get dst k @ header_get src k"
proof (induction dst src rule: header_merge.induct)
  case (1 dst)
  then show ?case by (simp add: header_get_def)
next
  case (2 dst k' vs src)
  then have "k' \<notin> set (map fst src)" and "wf_header src" by (simp_all add: wf_header_def)
  with 2 show ?case by (auto simp: header_get_Cons header_get_notin)
qed

section \<open>Targets\<close>

record target =
  t_Method :: string
  t_URL :: string
  t_Body :: string
  t_Header :: "header option"

definition zero_target :: target where
  "zero_target = \<lparr>t_Method = [], t_URL = [], t_Body = [], t_Header = None\<rparr>"

definition target_header :: "target \<Rightarrow> header" where
  "target_header t = (case t_Header t of None \<Rightarrow> [] | Some h \<Rightarrow> h)"

lemma target_header_Some [simp]:
  "target_header \<lparr>t_Method = m, t_URL = u, t_Body = b, t_Header = Some h\<rparr> = h"
  by (simp add: target_header_def)

text \<open>\<open>Target.Equal\<close> on pointers (\<open>None\<close> is nil). The Go code returns true at once for
  identical pointers, which the comparison of the fields then confirms.\<close>

definition header_vals_equal :: "header \<Rightarrow> header \<Rightarrow> bool" where
  "header_vals_equal h1 h2 \<longleftrightarrow> list_all (\<lambda>k. header_get h1 k = header_get h2 k) (map fst h1)"

definition target_equal :: "target option \<Rightarrow> target option \<Rightarrow> bool" where
  "target_equal a b =
    (case a of
       None \<Rightarrow> b = None
     | Some t \<Rightarrow>
        (case b of
           None \<Rightarrow> False
         | Some u \<Rightarrow>
             t_Method t = t_Method u \<and> t_URL t = t_URL u \<and> t_Body t = t_Body u \<and>
             length (target_header t) = length (target_header u) \<and>
             header_vals_equal (target_header t) (target_header u)))"

section \<open>Results\<close>

record result =
  Attack :: string
  Seq :: u64
  Code :: u16
  Timestamp :: time
  Latency :: duration
  BytesOut :: u64
  BytesIn :: u64
  Error :: string
  Body :: string
  Method :: string
  URL :: string
  Headers :: "header option"

definition zero_result :: result where
  "zero_result = \<lparr>Attack = [], Seq = 0, Code = 0, Timestamp = 0, Latency = 0, BytesOut = 0,
    BytesIn = 0, Error = [], Body = [], Method = [], URL = [], Headers = None\<rparr>"

definition result_end :: "result \<Rightarrow> time" where
  "result_end r = time_add (Timestamp r) (Latency r)"

definition header_len :: "header option \<Rightarrow> nat" where
  "header_len h = (case h of None \<Rightarrow> 0 | Some m \<Rightarrow> length m)"

definition header_equal :: "header option \<Rightarrow> header option \<Rightarrow> bool" where
  "header_equal h1 h2 =
    (if header_len h1 \<noteq> header_len h2 then False
     else (case h1 of
             None \<Rightarrow> h2 = None
           | Some m1 \<Rightarrow> (case h2 of None \<Rightarrow> False | Some m2 \<Rightarrow> header_vals_equal m1 m2)))"

definition result_equal :: "result \<Rightarrow> result \<Rightarrow> bool" where
  "result_equal r other \<longleftrightarrow>
    Attack r = Attack other \<and> Seq r = Seq other \<and> Code r = Code other \<and>
    Timestamp r = Timestamp other \<and> Latency r = Latency other \<and>
    BytesIn r = BytesIn other \<and> BytesOut r = BytesOut other \<and> Error r = Error other \<and>
    Body r = Body other \<and> Method r = Method other \<and> URL r = URL other \<and>
    header_equal (Headers r) (Headers other)"

text \<open>
  What the header comparison decides. It compares the lengths of the maps and the values
  under the keys of the first. A missing key reads as the empty list, so it identifies
  two maps exactly when they have as many keys and agree wherever the first has one.
\<close>

lemma header_vals_equal_iff:
  "header_vals_equal h1 h2 \<longleftrightarrow> (\<forall>k \<in> set (map fst h1). header_get h1 k = header_get h2 k)"
  by (auto simp: header_vals_equal_def list_all_iff)

lemma header_vals_equal_refl [simp]: "header_vals_equal h h"
  by (simp add: header_vals_equal_iff)

lemma header_vals_equal_keys:
  assumes "wf_header h1" "wf_header h2" "length h1 = length h2" "header_vals_equal h1 h2"
    and "\<forall>k \<in> set (map fst h1). header_get h1 k \<noteq> []"
  shows "set (map fst h1) = set (map fst h2)"
proof (rule card_subset_eq)
  show "set (map fst h1) \<subseteq> set (map fst h2)"
    using assms(4,5) header_get_notin [of _ h2] by (auto simp: header_vals_equal_iff)
  show "card (set (map fst h1)) = card (set (map fst h2))"
    using assms(1-3) by (metis distinct_card length_map wf_header_def)
qed simp

lemma header_vals_equal_get:
  assumes "wf_header h1" "wf_header h2" "length h1 = length h2" "header_vals_equal h1 h2"
    and "\<forall>k \<in> set (map fst h1). header_get h1 k \<noteq> []"
  shows "header_get h1 k = header_get h2 k"
  using header_vals_equal_keys [OF assms] assms(4) header_get_notin [of k h1] header_get_notin [of k h2]
  by (cases "k \<in> set (map fst h1)") (auto simp: header_vals_equal_iff)


text \<open>Maps with the same keys and values under all of them are equal to the code, and, when no
  key holds an empty list, only those are.\<close>

definition same_header :: "header \<Rightarrow> header \<Rightarrow> bool" where
  "same_header h1 h2 \<longleftrightarrow> set (map fst h1) = set (map fst h2) \<and> header_get h1 = header_get h2"

definition nonempty_values :: "header \<Rightarrow> bool" where
  "nonempty_values h \<longleftrightarrow> (\<forall>k \<in> set (map fst h). header_get h k \<noteq> [])"

lemma same_header_equivalence:
  "same_header h h"
  "same_header h h' \<Longrightarrow> same_header h' h"
  "same_header h h' \<Longrightarrow> same_header h' h'' \<Longrightarrow> same_header h h''"
  by (simp_all add: same_header_def)

lemma same_header_length: "wf_header h1 \<Longrightarrow> wf_header h2 \<Longrightarrow> same_header h1 h2 \<Longrightarrow> length h1 = length h2"
  by (metis distinct_card length_map same_header_def wf_header_def)

lemma header_compare_iff:
  assumes "wf_header h1" "wf_header h2" "nonempty_values h1"
  shows "length h1 = length h2 \<and> header_vals_equal h1 h2 \<longleftrightarrow> same_header h1 h2"
proof
  assume e: "length h1 = length h2 \<and> header_vals_equal h1 h2"
  have ne: "\<forall>k \<in> set (map fst h1). header_get h1 k \<noteq> []"
    using assms(3) by (simp add: nonempty_values_def)
  have "set (map fst h1) = set (map fst h2)"
    using e by (intro header_vals_equal_keys assms(1,2) ne) simp_all
  moreover have "header_get h1 k = header_get h2 k" for k
    using e by (intro header_vals_equal_get assms(1,2) ne) simp_all
  ultimately show "same_header h1 h2" by (simp add: same_header_def fun_eq_iff)
next
  assume "same_header h1 h2"
  then show "length h1 = length h2 \<and> header_vals_equal h1 h2"
    using same_header_length [OF assms(1,2)] by (simp add: same_header_def header_vals_equal_iff)
qed

section \<open>Properties\<close>

text \<open>
  C34. \<open>Result.Equal\<close> on results whose headers hold no empty value list (as every header read
  off the wire does): it is true exactly when all fields agree and the headers are both nil
  or the same map, in whatever order either map is iterated. Without that condition it is
  not even symmetric: a key with an empty list counts as a match for a key the other map
  lacks, so \<open>{A: []}\<close> equals \<open>{B: [x]}\<close> but not the other way round.
\<close>

theorem result_equal_iff:
  "(pred_option wf_header (Headers r) \<and> pred_option nonempty_values (Headers r) \<and>
    pred_option wf_header (Headers s) \<longrightarrow>
      (result_equal r s \<longleftrightarrow>
        r\<lparr>Headers := None\<rparr> = s\<lparr>Headers := None\<rparr> \<and> rel_option same_header (Headers r) (Headers s))) \<and>
   (\<exists>r s. result_equal r s \<and> \<not> result_equal s r)"
proof (intro conjI impI)
  assume a: "pred_option wf_header (Headers r) \<and> pred_option nonempty_values (Headers r) \<and>
    pred_option wf_header (Headers s)"
  have "header_equal (Headers r) (Headers s) \<longleftrightarrow> rel_option same_header (Headers r) (Headers s)"
    using a header_compare_iff [of "the (Headers r)" "the (Headers s)"]
    by (auto simp: header_equal_def header_len_def split: option.splits)
  then show "result_equal r s \<longleftrightarrow>
      r\<lparr>Headers := None\<rparr> = s\<lparr>Headers := None\<rparr> \<and> rel_option same_header (Headers r) (Headers s)"
    by (cases r; cases s) (auto simp: result_equal_def)
next
  let ?r = "zero_result\<lparr>Headers := Some [(''A'', [])]\<rparr>"
  let ?s = "zero_result\<lparr>Headers := Some [(''B'', [''x''])]\<rparr>"
  have "result_equal ?r ?s" and "\<not> result_equal ?s ?r"
    by (simp_all add: result_equal_def header_equal_def header_len_def header_vals_equal_def
        header_get_def)
  then show "\<exists>r s. result_equal r s \<and> \<not> result_equal s r" by blast
qed

theorem result_equal_iff_witness:
  "result_equal (zero_result\<lparr>Headers := Some [(''A'', [''1'']), (''B'', [''2''])]\<rparr>)
     (zero_result\<lparr>Headers := Some [(''B'', [''2'']), (''A'', [''1''])]\<rparr>)"
proof -
  let ?r = "zero_result\<lparr>Headers := Some [(''A'', [''1'']), (''B'', [''2''])]\<rparr>"
  let ?s = "zero_result\<lparr>Headers := Some [(''B'', [''2'']), (''A'', [''1''])]\<rparr>"
  have "pred_option wf_header (Headers ?r)" "pred_option nonempty_values (Headers ?r)"
    "pred_option wf_header (Headers ?s)" "rel_option same_header (Headers ?r) (Headers ?s)"
    by (auto simp: wf_header_def nonempty_values_def header_get_def same_header_def)
  then show ?thesis using result_equal_iff [of ?r ?s] by (simp add: zero_result_def)
qed

end
