(* ===== verification/Go_Encoding.thy ===== *)
theory Go_Encoding
  imports Go_Strings
begin

text \<open>
  What \<open>lib/results.go\<close> uses of Go's \<open>encoding/base64\<close> (\<open>StdEncoding\<close>) and \<open>encoding/csv\<close>
  packages, with the options the program sets (\<open>TrimLeadingSpace\<close>, the comma separator,
  no comments, no lazy quotes), and that their readers invert their writers.
\<close>

section \<open>base64\<close>

definition b64_alphabet :: string where
  "b64_alphabet = ''ABCDEFGHIJKLMNOPQRSTUVWXYZabcdefghijklmnopqrstuvwxyz0123456789+/''"

definition b64_char :: "nat \<Rightarrow> char" where
  "b64_char n = b64_alphabet ! n"

definition b64_val :: "char \<Rightarrow> nat option" where
  "b64_val c = map_of (zip b64_alphabet [0..<64]) c"

fun b64_encode :: "string \<Rightarrow> string" where
  "b64_encode [] = []"
| "b64_encode [a] =
    (let x = of_char a :: nat in
     [b64_char (x div 4), b64_char (x mod 4 * 16), CHR ''='', CHR ''=''])"
| "b64_encode [a, b] =
    (let x = of_char a :: nat; y = of_char b in
     [b64_char (x div 4), b64_char (x mod 4 * 16 + y div 16), b64_char (y mod 16 * 4), CHR ''=''])"
| "b64_encode (a # b # c # r) =
    (let x = of_char a :: nat; y = of_char b; z = of_char c in
     b64_char (x div 4) # b64_char (x mod 4 * 16 + y div 16) #
     b64_char (y mod 16 * 4 + z div 64) # b64_char (z mod 64) # b64_encode r)"

text \<open>The bytes decoded before the first corrupt quantum, and whether there was none.\<close>

definition byte :: "nat \<Rightarrow> char" where
  "byte n = char_of n"

fun b64_quanta :: "string \<Rightarrow> string \<times> bool" where
  "b64_quanta [] = ([], True)"
| "b64_quanta (a # b # c # d # r) =
    (case (b64_val a, b64_val b) of
       (Some u, Some v) \<Rightarrow>
         (case (b64_val c, b64_val d) of
            (Some w, Some x) \<Rightarrow>
              (case b64_quanta r of (bs, ok) \<Rightarrow>
                (byte (u * 4 + v div 16) # byte (v mod 16 * 16 + w div 4) # byte (w mod 4 * 64 + x) # bs, ok))
          | (Some w, None) \<Rightarrow>
              if d = CHR ''='' then ([byte (u * 4 + v div 16), byte (v mod 16 * 16 + w div 4)], r = [])
              else ([], False)
          | (None, _) \<Rightarrow>
              if c = CHR ''='' \<and> d = CHR ''='' then ([byte (u * 4 + v div 16)], r = []) else ([], False))
     | _ \<Rightarrow> ([], False))"
| "b64_quanta _ = ([], False)"

definition b64_decode :: "string \<Rightarrow> string \<times> bool" where
  "b64_decode s = b64_quanta (filter (\<lambda>c. c \<noteq> CHR 0x0A \<and> c \<noteq> CHR 0x0D) s)"

lemma b64_alphabet_facts: "distinct b64_alphabet \<and> length b64_alphabet = 64 \<and>
    CHR 0x0A \<notin> set b64_alphabet \<and> CHR 0x0D \<notin> set b64_alphabet \<and> CHR ''='' \<notin> set b64_alphabet \<and>
    list_all ascii_graphic b64_alphabet \<and> CHR '','' \<notin> set b64_alphabet \<and> CHR 0x22 \<notin> set b64_alphabet"
  by code_simp

lemma b64_val_char [simp]: "n < 64 \<Longrightarrow> b64_val (b64_char n) = Some n"
  using b64_alphabet_facts by (simp add: b64_val_def b64_char_def map_of_zip_nth)

lemma b64_val_pad [simp]: "b64_val (CHR ''='') = None"
  using b64_alphabet_facts by (simp add: b64_val_def map_of_eq_None_iff) (metis set_map map_fst_zip length_upt diff_zero)

lemma of_char_less [simp]: "of_char c < (256 :: nat)"
  by (simp add: nat_of_char_less_256)

lemma b64_char_in: "n < 64 \<Longrightarrow> b64_char n \<in> set b64_alphabet"
  using b64_alphabet_facts by (simp add: b64_char_def)

lemma byte_of_char [simp]: "byte (of_char c) = c"
  by (simp add: byte_def)

text \<open>The sextets of a quantum, and the bytes back from them.\<close>

lemma sextet_bounds [simp]:
  fixes x y z :: nat
  shows "x < 256 \<Longrightarrow> x div 4 < 64"
    and "y < 256 \<Longrightarrow> x mod 4 * 16 + y div 16 < 64"
    and "z < 256 \<Longrightarrow> y mod 16 * 4 + z div 64 < 64"
    and "x mod 4 * 16 < 64" and "y mod 16 * 4 < 64"
  by linarith+

lemma sextet_bytes [simp]:
  fixes y :: nat
  shows "y < 256 \<Longrightarrow> y div 16 div 16 = 0" and "y < 256 \<Longrightarrow> y div 16 mod 16 = y div 16"
    and "y < 256 \<Longrightarrow> y div 64 div 4 = 0" and "y < 256 \<Longrightarrow> y div 64 mod 4 = y div 64"
  by simp_all

lemma b64_encode_chars: "set (b64_encode s) \<subseteq> insert (CHR ''='') (set b64_alphabet)"
  by (induction s rule: b64_encode.induct) (auto simp: Let_def intro!: b64_char_in)

lemma b64_quanta_encode: "b64_quanta (b64_encode s) = (s, True)"
  by (induction s rule: b64_encode.induct) (simp_all add: Let_def)

lemma b64_decode_encode [simp]: "b64_decode (b64_encode s) = (s, True)"
proof -
  have "CHR 0x0A \<notin> set (b64_encode s)" "CHR 0x0D \<notin> set (b64_encode s)"
    using b64_encode_chars [of s] b64_alphabet_facts by auto
  then have "filter (\<lambda>c. c \<noteq> CHR 0x0A \<and> c \<noteq> CHR 0x0D) (b64_encode s) = b64_encode s"
    by (auto simp: filter_id_conv)
  then show ?thesis by (simp add: b64_decode_def b64_quanta_encode)
qed

section \<open>csv\<close>

abbreviation nl :: char where "nl \<equiv> CHR 0x0A"
abbreviation cr :: char where "cr \<equiv> CHR 0x0D"
abbreviation comma :: char where "comma \<equiv> CHR '',''"
abbreviation quote :: char where "quote \<equiv> CHR 0x22"

text \<open>\<open>Writer.fieldNeedsQuotes\<close> and \<open>Writer.Write\<close>.\<close>

definition starts_with_space :: "string \<Rightarrow> bool" where
  "starts_with_space s \<longleftrightarrow> list_ex (has_prefix s) space_runes"

definition needs_quotes :: "string \<Rightarrow> bool" where
  "needs_quotes f \<longleftrightarrow> f \<noteq> [] \<and>
    (f = [CHR 0x5C, CHR ''.''] \<or> list_ex (\<lambda>c. c = nl \<or> c = cr \<or> c = quote \<or> c = comma) f \<or>
     starts_with_space f)"

fun csv_escape :: "string \<Rightarrow> string" where
  "csv_escape [] = []"
| "csv_escape (c # f) = (if c = quote then quote # quote # csv_escape f else c # csv_escape f)"

definition csv_field :: "string \<Rightarrow> string" where
  "csv_field f = (if needs_quotes f then quote # csv_escape f @ [quote] else f)"

definition csv_write :: "string list \<Rightarrow> string" where
  "csv_write fields = join [comma] (map csv_field fields) @ [nl]"

text \<open>\<open>Reader.readLine\<close>: the line with its newline, \<open>\r\n\<close> turned into \<open>\n\<close>, and the input
  after it. At the end of the input the line is empty.\<close>

definition drop_cr :: "string \<Rightarrow> string" where
  "drop_cr l = (if l \<noteq> [] \<and> last l = cr then butlast l else l)"

definition read_line :: "string \<Rightarrow> string \<times> string" where
  "read_line s =
    (case dropWhile (\<lambda>c. c \<noteq> nl) s of
       [] \<Rightarrow> (drop_cr s, [])
     | _ # rest \<Rightarrow> (drop_cr (takeWhile (\<lambda>c. c \<noteq> nl) s) @ [nl], rest))"

lemma length_drop_cr: "length (drop_cr l) \<le> length l"
  by (simp add: drop_cr_def)

lemma read_line_length: "length (fst (read_line s)) + length (snd (read_line s)) \<le> length s"
proof (cases "dropWhile (\<lambda>c. c \<noteq> nl) s")
  case Nil
  show ?thesis unfolding read_line_def Nil using length_drop_cr [of s] by simp
next
  case (Cons c rest)
  have "length s = length (takeWhile (\<lambda>c. c \<noteq> nl) s) + length (dropWhile (\<lambda>c. c \<noteq> nl) s)"
    by (metis length_append takeWhile_dropWhile_id)
  with Cons show ?thesis
    using length_drop_cr [of "takeWhile (\<lambda>c. c \<noteq> nl) s"] by (simp add: read_line_def)
qed

lemma read_line_progress: "s \<noteq> [] \<Longrightarrow> length (snd (read_line s)) < length s"
proof (cases "dropWhile (\<lambda>c. c \<noteq> nl) s")
  case (Cons c rest)
  have "length (dropWhile (\<lambda>c. c \<noteq> nl) s) \<le> length s" by (rule length_dropWhile_le)
  with Cons show ?thesis by (simp add: read_line_def)
next
  case Nil
  assume "s \<noteq> []"
  then show ?thesis unfolding read_line_def Nil by simp
qed

lemma dropWhile_Cons_length: "dropWhile P l = c # post \<Longrightarrow> length post < length l"
  by (metis Suc_le_eq length_Cons length_dropWhile_le)

text \<open>The next line that is not empty.\<close>

function csv_next_line :: "string \<Rightarrow> (string \<times> string) option" where
  "csv_next_line s =
    (if s = [] then None
     else if fst (read_line s) = [] \<or> fst (read_line s) = [nl] then csv_next_line (snd (read_line s))
     else Some (read_line s))"
  by pat_completeness auto
termination by (relation "measure length") (auto intro: read_line_progress)

declare csv_next_line.simps [simp del]

datatype csv_error = CsvEOF | ErrBareQuote | ErrQuote | ErrFieldCount

text \<open>A quoted field, after its opening quote: the end of the field, of the record, or an
  error, with what is left of the line and of the input.\<close>

datatype quoted = FieldEnd string string string | RecordEnd string string | BadQuoted string

function csv_quoted :: "string \<Rightarrow> string \<Rightarrow> string \<Rightarrow> quoted" where
  "csv_quoted acc line rest =
    (case dropWhile (\<lambda>c. c \<noteq> quote) line of
       _ # post \<Rightarrow>
         (let acc' = acc @ takeWhile (\<lambda>c. c \<noteq> quote) line in
          (case post of
             [] \<Rightarrow> RecordEnd acc' rest
           | c # post' \<Rightarrow>
               if c = quote then csv_quoted (acc' @ [quote]) post' rest
               else if c = comma then FieldEnd acc' post' rest
               else if c = nl \<and> post' = [] then RecordEnd acc' rest
               else BadQuoted rest))
     | [] \<Rightarrow>
         if line = [] then BadQuoted rest
         else csv_quoted (acc @ line) (fst (read_line rest)) (snd (read_line rest)))"
  by pat_completeness auto
termination
proof (relation "measure (\<lambda>(acc, line, rest). length line + length rest)")
  fix acc line rest
  assume "dropWhile (\<lambda>c. c \<noteq> quote) line = []" and "line \<noteq> []"
  then show "((acc @ line, fst (read_line rest), snd (read_line rest)), acc, line, rest)
      \<in> measure (\<lambda>(acc, line, rest). length line + length rest)"
    using read_line_length [of rest] by (cases line) (auto simp: split_beta)
qed (auto dest: dropWhile_Cons_length)

declare csv_quoted.simps [simp del]

text \<open>What follows the first quote of a line, one equation per branch.\<close>

lemma csv_quoted_Nil: "csv_quoted acc [] rest = BadQuoted rest"
  by (simp add: csv_quoted.simps [of acc "[]" rest])

lemma csv_quoted_next_line:
  assumes "line \<noteq> []" and "dropWhile (\<lambda>c. c \<noteq> quote) line = []"
  shows "csv_quoted acc line rest = csv_quoted (acc @ line) (fst (read_line rest)) (snd (read_line rest))"
  by (subst csv_quoted.simps, subst assms(2)) (simp only: list.case assms(1) if_False)

lemma csv_quoted_last:
  assumes "dropWhile (\<lambda>c. c \<noteq> quote) line = [q]"
  shows "csv_quoted acc line rest = RecordEnd (acc @ takeWhile (\<lambda>c. c \<noteq> quote) line) rest"
  by (subst csv_quoted.simps, subst assms) (simp add: Let_def)

lemma csv_quoted_post:
  assumes "dropWhile (\<lambda>c. c \<noteq> quote) line = q # c # post"
  shows "csv_quoted acc line rest =
    (let acc' = acc @ takeWhile (\<lambda>c. c \<noteq> quote) line in
     if c = quote then csv_quoted (acc' @ [quote]) post rest
     else if c = comma then FieldEnd acc' post rest
     else if c = nl \<and> post = [] then RecordEnd acc' rest
     else BadQuoted rest)"
  by (subst csv_quoted.simps, subst assms) (simp add: Let_def)

lemma csv_quoted_length:
  "csv_quoted acc line rest = FieldEnd f l r \<Longrightarrow> length l + length r < length line + length rest"
proof (induction "length line + length rest" arbitrary: acc line rest rule: less_induct)
  case less
  consider "line = []" | "line \<noteq> []" "dropWhile (\<lambda>c. c \<noteq> quote) line = []"
    | q where "dropWhile (\<lambda>c. c \<noteq> quote) line = [q]"
    | q c post where "dropWhile (\<lambda>c. c \<noteq> quote) line = q # c # post"
    by (metis list.exhaust)
  then show ?case
  proof cases
    case 1
    with less.prems show ?thesis by (simp add: csv_quoted_Nil)
  next
    case 2
    have "length (fst (read_line rest)) + length (snd (read_line rest)) < length line + length rest"
      using read_line_length [of rest] 2(1) by (cases line) auto
    moreover from less.hyps [OF this] less.prems
    have "length l + length r < length (fst (read_line rest)) + length (snd (read_line rest))"
      by (simp add: csv_quoted_next_line [OF 2])
    ultimately show ?thesis by simp
  next
    case 3
    with less.prems show ?thesis by (simp add: csv_quoted_last)
  next
    case 4
    then have len: "length (c # post) < length line" by (rule dropWhile_Cons_length)
    show ?thesis
    proof (cases "c = quote")
      case True
      then have "csv_quoted ((acc @ takeWhile (\<lambda>c. c \<noteq> quote) line) @ [quote]) post rest = FieldEnd f l r"
        using less.prems by (simp add: csv_quoted_post [OF 4] Let_def)
      with less.hyps [OF _ this] len show ?thesis by simp
    next
      case False
      with less.prems len show ?thesis by (auto simp: csv_quoted_post [OF 4] Let_def split: if_splits)
    qed
  qed
qed

lemma trim_left_length: "length (trim_left runes s) \<le> length s"
proof (induction runes s rule: trim_left.induct)
  case (1 runes s)
  show ?case
  proof (cases "find (\<lambda>r. r \<noteq> [] \<and> has_prefix s r) runes")
    case None
    then show ?thesis by (subst trim_left.simps) simp
  next
    case (Some r)
    then show ?thesis using "1.IH" [OF Some] by (subst trim_left.simps) simp
  qed
qed

text \<open>The fields of a record, from the rest of a line and the rest of the input.\<close>

definition strip_nl :: "string \<Rightarrow> string" where
  "strip_nl l = (if l \<noteq> [] \<and> last l = nl then butlast l else l)"

function csv_fields :: "string list \<Rightarrow> string \<Rightarrow> string \<Rightarrow> (csv_error + string list) \<times> string" where
  "csv_fields fs line rest =
    (case trim_left space_runes line of
       [] \<Rightarrow> (Inr (fs @ [[]]), rest)
     | c # l \<Rightarrow>
         if c \<noteq> quote then
           (case dropWhile (\<lambda>x. x \<noteq> comma) (c # l) of
              [] \<Rightarrow>
                let field = strip_nl (c # l) in
                if quote \<in> set field then (Inl ErrBareQuote, rest) else (Inr (fs @ [field]), rest)
            | _ # l' \<Rightarrow>
                let field = takeWhile (\<lambda>x. x \<noteq> comma) (c # l) in
                if quote \<in> set field then (Inl ErrBareQuote, rest) else csv_fields (fs @ [field]) l' rest)
         else
           (case csv_quoted [] l rest of
              FieldEnd field l' rest' \<Rightarrow> csv_fields (fs @ [field]) l' rest'
            | RecordEnd field rest' \<Rightarrow> (Inr (fs @ [field]), rest')
            | BadQuoted rest' \<Rightarrow> (Inl ErrQuote, rest')))"
  by pat_completeness auto
termination
proof (relation "measure (\<lambda>(fs, line, rest). length line + length rest)", goal_cases)
  case 1
  show ?case by simp
next
  case (2 fs line rest c l a l' field)
  then have "length l' < length (c # l)" by (metis dropWhile_Cons_length)
  then show ?case using trim_left_length [of space_runes line] 2 by simp
next
  case (3 fs line rest c l field l' rest')
  then show ?case using trim_left_length [of space_runes line] csv_quoted_length [of "[]" l rest field l' rest'] by simp
qed

declare csv_fields.simps [simp del]

text \<open>\<open>Reader.Read\<close> with \<open>FieldsPerRecord = n\<close>.\<close>

definition csv_read :: "nat \<Rightarrow> string \<Rightarrow> (csv_error + string list) \<times> string" where
  "csv_read n s =
    (case csv_next_line s of
       None \<Rightarrow> (Inl CsvEOF, [])
     | Some (line, rest) \<Rightarrow>
         (case csv_fields [] line rest of
            (Inr fs, rest') \<Rightarrow> (if length fs \<noteq> n then Inl ErrFieldCount else Inr fs, rest')
          | (Inl e, rest') \<Rightarrow> (Inl e, rest')))"

section \<open>The csv reader inverts the writer\<close>

text \<open>Input whose next line ends in a newline and has no carriage return.\<close>

definition plain :: "string \<Rightarrow> bool" where
  "plain s \<longleftrightarrow> nl \<in> set s \<and> cr \<notin> set (takeWhile (\<lambda>c. c \<noteq> nl) s)"

lemma plain_Cons: "plain (c # s) \<longleftrightarrow> c = nl \<or> c \<noteq> cr \<and> plain s"
  by (auto simp: plain_def)

lemma plain_append: "cr \<notin> set p \<Longrightarrow> plain s \<Longrightarrow> plain (p @ s)"
  by (induction p) (auto simp: plain_Cons)

lemma read_line_nl [simp]: "read_line (nl # s) = ([nl], s)"
  by (simp add: read_line_def drop_cr_def)

lemma drop_cr_plain: "cr \<notin> set l \<Longrightarrow> drop_cr l = l"
  by (auto simp: drop_cr_def dest: last_in_set)

lemma read_line_plain:
  "plain s \<Longrightarrow> read_line s = (takeWhile (\<lambda>c. c \<noteq> nl) s @ [nl], tl (dropWhile (\<lambda>c. c \<noteq> nl) s))"
  by (cases "dropWhile (\<lambda>c. c \<noteq> nl) s") (auto simp: read_line_def plain_def drop_cr_plain)

lemma read_line_Cons:
  "plain s \<Longrightarrow> c \<noteq> nl \<Longrightarrow> c \<noteq> cr \<Longrightarrow> read_line (c # s) = (c # fst (read_line s), snd (read_line s))"
  by (simp add: read_line_plain plain_Cons)

lemma read_line_append:
  "plain s \<Longrightarrow> nl \<notin> set p \<Longrightarrow> cr \<notin> set p \<Longrightarrow> read_line (p @ s) = (p @ fst (read_line s), snd (read_line s))"
  by (induction p) (auto simp: read_line_Cons plain_append)

lemma read_line_not_Nil: "plain s \<Longrightarrow> fst (read_line s) \<noteq> []"
  by (simp add: read_line_plain)

text \<open>A quoted field.\<close>

lemma csv_quoted_char:
  assumes "c \<noteq> quote" and "line \<noteq> []"
  shows "csv_quoted acc (c # line) rest = csv_quoted (acc @ [c]) line rest"
proof -
  consider "dropWhile (\<lambda>c. c \<noteq> quote) line = []" | q where "dropWhile (\<lambda>c. c \<noteq> quote) line = [q]"
    | q d post where "dropWhile (\<lambda>c. c \<noteq> quote) line = q # d # post"
    by (metis list.exhaust)
  then show ?thesis
  proof cases
    case 1
    then show ?thesis using assms by (simp add: csv_quoted_next_line)
  next
    case 2
    then show ?thesis using assms csv_quoted_last [of "c # line"] csv_quoted_last [of line] by simp
  next
    case 3
    then show ?thesis using assms csv_quoted_post [of "c # line"] csv_quoted_post [of line] by (simp add: Let_def)
  qed
qed

lemma csv_quoted_nl: "csv_quoted acc [nl] rest = csv_quoted (acc @ [nl]) (fst (read_line rest)) (snd (read_line rest))"
  by (simp add: csv_quoted_next_line)

lemma csv_quoted_pair: "csv_quoted acc (quote # quote # line) rest = csv_quoted (acc @ [quote]) line rest"
  by (simp add: csv_quoted_post Let_def)

lemma plain_escape: "cr \<notin> set f \<Longrightarrow> plain s \<Longrightarrow> plain (csv_escape f @ s)"
  by (induction f) (auto simp: plain_Cons)

lemma csv_quoted_escape:
  assumes "cr \<notin> set f" and "plain s"
  shows "csv_quoted acc (fst (read_line (csv_escape f @ quote # s))) (snd (read_line (csv_escape f @ quote # s))) =
    csv_quoted (acc @ f) (quote # fst (read_line s)) (snd (read_line s))"
  using assms
proof (induction f arbitrary: acc)
  case Nil
  then show ?case by (simp add: read_line_Cons)
next
  case (Cons c f)
  then have p: "plain (csv_escape f @ quote # s)" by (intro plain_escape) (simp_all add: plain_Cons)
  show ?case
  proof (cases "c = nl")
    case True
    with Cons show ?thesis by (simp add: csv_quoted_nl)
  next
    case False
    with Cons p read_line_not_Nil [OF p] show ?thesis
      by (cases "c = quote") (auto simp: read_line_Cons plain_Cons csv_quoted_pair csv_quoted_char)
  qed
qed

lemma csv_quoted_field:
  assumes "cr \<notin> set f" and "plain s"
  shows "csv_quoted [] (fst (read_line (csv_escape f @ quote # s))) (snd (read_line (csv_escape f @ quote # s))) =
    (case fst (read_line s) of
       [] \<Rightarrow> RecordEnd f (snd (read_line s))
     | c # post \<Rightarrow>
         if c = quote then csv_quoted (f @ [quote]) post (snd (read_line s))
         else if c = comma then FieldEnd f post (snd (read_line s))
         else if c = nl \<and> post = [] then RecordEnd f (snd (read_line s))
         else BadQuoted (snd (read_line s)))"
  unfolding csv_quoted_escape [OF assms]
  by (cases "fst (read_line s)") (simp_all add: csv_quoted_last csv_quoted_post Let_def)

text \<open>An unquoted field.\<close>

lemma unquoted_chars:
  "\<not> needs_quotes f \<Longrightarrow> nl \<notin> set f \<and> cr \<notin> set f \<and> quote \<notin> set f \<and> comma \<notin> set f"
  by (auto simp: needs_quotes_def list_ex_iff)

lemma space_runes_tl: "list_all (\<lambda>r. comma \<notin> set (tl r) \<and> nl \<notin> set (tl r)) space_runes"
  by code_simp

lemma trim_left_unquoted:
  assumes "\<not> needs_quotes f" and "f \<noteq> []" and "c \<in> {comma, nl}"
  shows "trim_left space_runes (f @ c # t) = f @ c # t"
proof -
  have "\<not> has_prefix (f @ c # t) r" if r: "r \<in> set space_runes" for r
  proof
    assume p: "has_prefix (f @ c # t) r"
    show False
    proof (cases "length r \<le> length f")
      case True
      then have "has_prefix f r" using p by (simp add: has_prefix_def)
      then show False using assms(1,2) r by (auto simp: needs_quotes_def starts_with_space_def list_ex_iff)
    next
      case False
      then have "r ! length f = c" and "0 < length f" "length f < length r"
        using p assms(2) unfolding has_prefix_def by (metis nth_append_length nth_take not_le, auto)
      then have "c \<in> set (tl r)" by (metis Nitpick.size_list_simp(2) in_set_conv_nth length_greater_0_conv less_Suc_eq_le
          less_imp_Suc_add list.size(3) nth_tl not_less_eq length_tl One_nat_def Suc_pred diff_Suc_1 diff_Suc_less)
      then show False using space_runes_tl r assms(3) by (auto simp: list_all_iff)
    qed
  qed
  then have "find (\<lambda>r. r \<noteq> [] \<and> has_prefix (f @ c # t) r) space_runes = None"
    by (auto simp: find_None_iff)
  then show ?thesis by (subst trim_left.simps) simp
qed

lemma trim_left_nl: "trim_left space_runes [nl] = []"
proof -
  have "find (\<lambda>r. r \<noteq> [] \<and> has_prefix [nl] r) space_runes = Some [nl]"
    by (simp add: space_runes_def has_prefix_def)
  then show ?thesis by (subst trim_left.simps) simp
qed

lemma trim_left_comma: "trim_left space_runes (comma # t) = comma # t"
  and trim_left_quote: "trim_left space_runes (quote # t) = quote # t"
  by (simp_all add: ascii_graphic_def)

text \<open>One field of a record.\<close>

lemma csv_fields_last_unquoted:
  "\<not> needs_quotes f \<Longrightarrow> csv_fields fs (f @ [nl]) rest = (Inr (fs @ [f]), rest)"
proof (cases f)
  case Nil
  then show ?thesis by (simp add: csv_fields.simps [of fs "[nl]"] trim_left_nl)
next
  case (Cons c f')
  assume u: "\<not> needs_quotes f"
  then have t: "trim_left space_runes (f @ [nl]) = c # (f' @ [nl])"
    using trim_left_unquoted [of f nl "[]"] Cons by simp
  have "c \<noteq> quote" "dropWhile (\<lambda>x. x \<noteq> comma) (c # f' @ [nl]) = []" "quote \<notin> set (strip_nl (c # f' @ [nl]))"
    "strip_nl (c # f' @ [nl]) = f"
    using unquoted_chars [OF u] Cons by (auto simp: strip_nl_def)
  then show ?thesis by (simp add: csv_fields.simps [of fs "f @ [nl]"] t Let_def)
qed

lemma csv_fields_comma:
  assumes "trim_left space_runes line = c # m" and "c \<noteq> quote"
    and "dropWhile (\<lambda>x. x \<noteq> comma) (c # m) = d # l" and "takeWhile (\<lambda>x. x \<noteq> comma) (c # m) = f" and "quote \<notin> set f"
  shows "csv_fields fs line rest = csv_fields (fs @ [f]) l rest"
  unfolding csv_fields.simps [of fs line] assms(1) list.case assms(3,4)
  using assms(2,5) by (simp only: Let_def if_True if_False simp_thms)

lemma csv_fields_unquoted:
  "\<not> needs_quotes f \<Longrightarrow> csv_fields fs (f @ comma # l) rest = csv_fields (fs @ [f]) l rest"
proof -
  assume u: "\<not> needs_quotes f"
  have t: "trim_left space_runes (f @ comma # l) = f @ comma # l"
    using u trim_left_unquoted [of f comma l] trim_left_comma [of l] by (cases "f = []") auto
  obtain c m where m: "f @ comma # l = c # m" "c \<noteq> quote"
    using unquoted_chars [OF u] by (cases f) auto
  have "dropWhile (\<lambda>x. x \<noteq> comma) (c # m) = comma # l" "takeWhile (\<lambda>x. x \<noteq> comma) (c # m) = f"
    using unquoted_chars [OF u] dropWhile_to_sep [of comma f l] takeWhile_to_sep [of comma f l]
    by (simp_all only: m(1) [symmetric]) simp_all
  then show ?thesis
    using csv_fields_comma [of "f @ comma # l" c m comma l f] t m unquoted_chars [OF u] by simp
qed

lemma csv_fields_quoted:
  "csv_fields fs (quote # l) rest =
    (case csv_quoted [] l rest of
       FieldEnd field l' rest' \<Rightarrow> csv_fields (fs @ [field]) l' rest'
     | RecordEnd field rest' \<Rightarrow> (Inr (fs @ [field]), rest')
     | BadQuoted rest' \<Rightarrow> (Inl ErrQuote, rest'))"
  by (simp add: csv_fields.simps [of fs "quote # l"] trim_left_quote del: trim_left_graphic)

text \<open>A record.\<close>

lemma csv_write_Cons:
  "csv_write [f] = csv_field f @ [nl]"
  "csv_write (f # g # fs) = csv_field f @ comma # csv_write (g # fs)"
  by (simp_all add: csv_write_def)

lemma plain_csv_field: "cr \<notin> set f \<Longrightarrow> plain s \<Longrightarrow> plain (csv_field f @ s)"
  by (auto simp: csv_field_def plain_Cons plain_append intro!: plain_escape)

lemma plain_csv_write: "fs \<noteq> [] \<Longrightarrow> \<forall>f \<in> set fs. cr \<notin> set f \<Longrightarrow> plain (csv_write fs @ rest)"
  by (induction fs rule: induct_list012) (auto simp: csv_write_Cons plain_Cons intro!: plain_csv_field)

lemma csv_fields_write:
  assumes "fs \<noteq> []" and "\<forall>f \<in> set fs. cr \<notin> set f"
  shows "csv_fields done (fst (read_line (csv_write fs @ rest))) (snd (read_line (csv_write fs @ rest))) =
    (Inr (done @ fs), rest)"
  using assms
proof (induction fs arbitrary: "done" rule: induct_list012)
  case (2 f)
  show ?case
  proof (cases "needs_quotes f")
    case True
    have "plain (csv_escape f @ quote # nl # rest)" using 2 by (intro plain_escape) (simp_all add: plain_Cons)
    then show ?thesis
      using 2 True csv_quoted_field [of f "nl # rest"]
      by (simp add: csv_write_Cons csv_field_def read_line_Cons csv_fields_quoted plain_Cons)
  next
    case False
    then show ?thesis
      using read_line_append [of "nl # rest" f] unquoted_chars [OF False]
      by (simp add: csv_write_Cons csv_field_def plain_Cons csv_fields_last_unquoted)
  qed
next
  case (3 f g fs)
  let ?s = "csv_write (g # fs) @ rest"
  have p: "plain ?s" using 3 by (intro plain_csv_write) simp_all
  have IH: "csv_fields (done @ [f]) (fst (read_line ?s)) (snd (read_line ?s)) = (Inr ((done @ [f]) @ g # fs), rest)"
    using 3 by simp
  show ?case
  proof (cases "needs_quotes f")
    case True
    have "plain (csv_escape f @ quote # comma # ?s)" using 3 p by (intro plain_escape) (simp_all add: plain_Cons)
    then show ?thesis
      using 3 True p IH csv_quoted_field [of f "comma # ?s"]
      by (simp add: csv_write_Cons csv_field_def read_line_Cons csv_fields_quoted plain_Cons)
  next
    case False
    then show ?thesis
      using read_line_append [of "comma # ?s" f] unquoted_chars [OF False] p IH
      by (simp add: csv_write_Cons csv_field_def plain_Cons read_line_Cons csv_fields_unquoted)
  qed
qed simp

lemma csv_read_write:
  assumes "length fs = n" and "fs \<noteq> []" and "hd fs \<noteq> []" and "\<forall>f \<in> set fs. cr \<notin> set f"
  shows "csv_read n (csv_write fs @ rest) = (Inr fs, rest)"
proof -
  let ?s = "csv_write fs @ rest"
  have p: "plain ?s" using assms(2,4) by (rule plain_csv_write)
  obtain f gs where f: "fs = f # gs" "f \<noteq> []" using assms(2,3) by (cases fs) auto
  obtain d e where d: "csv_field f = d # e" "d \<noteq> nl"
  proof (cases "needs_quotes f")
    case True
    then show ?thesis by (intro that [of quote]) (simp_all add: csv_field_def)
  next
    case False
    then show ?thesis using that f(2) unquoted_chars [OF False] by (cases f) (auto simp: csv_field_def)
  qed
  obtain c t where c: "?s = c # t" "c \<noteq> nl"
    by (rule that [of d "tl ?s"]) (use f d in \<open>cases gs; simp add: csv_write_Cons\<close>)+
  then have "fst (read_line ?s) \<noteq> []" "fst (read_line ?s) \<noteq> [nl]"
    using p by (auto simp: read_line_plain)
  then have "csv_next_line ?s = Some (read_line ?s)"
    using c by (subst csv_next_line.simps) simp
  then show ?thesis
    using csv_fields_write [OF assms(2,4), of "[]" rest] assms(1)
    by (cases "read_line ?s") (simp add: csv_read_def)
qed

lemma csv_read_eof [simp]: "csv_read n [] = (Inl CsvEOF, [])"
  by (simp add: csv_read_def csv_next_line.simps [of "[]"])

lemma csv_next_line_progress: "csv_next_line s = Some (line, rest) \<Longrightarrow> length rest < length s"
proof (induction s rule: csv_next_line.induct)
  case (1 s)
  have "csv_next_line s = (if s = [] then None
      else if fst (read_line s) = [] \<or> fst (read_line s) = [nl] then csv_next_line (snd (read_line s))
      else Some (read_line s))"
    by (rule csv_next_line.simps)
  then show ?case
    using "1.IH" "1.prems" read_line_progress [of s] by (cases "read_line s") (auto split: if_splits dest: less_trans)
qed

lemma csv_quoted_rest:
  "csv_quoted acc line rest \<in> {FieldEnd f l r, RecordEnd f r, BadQuoted r} \<Longrightarrow> length r \<le> length rest"
proof (induction "length line + length rest" arbitrary: acc line rest rule: less_induct)
  case less
  consider "line = []" | "line \<noteq> []" "dropWhile (\<lambda>c. c \<noteq> quote) line = []"
    | q where "dropWhile (\<lambda>c. c \<noteq> quote) line = [q]"
    | q c post where "dropWhile (\<lambda>c. c \<noteq> quote) line = q # c # post"
    by (metis list.exhaust)
  then show ?case
  proof cases
    case 1
    with less.prems show ?thesis by (simp add: csv_quoted_Nil)
  next
    case 2
    have "length (fst (read_line rest)) + length (snd (read_line rest)) < length line + length rest"
      using read_line_length [of rest] 2(1) by (cases line) auto
    from less.hyps [OF this] less.prems have "length r \<le> length (snd (read_line rest))"
      by (simp only: csv_quoted_next_line [OF 2])
    then show ?thesis using read_line_length [of rest] by simp
  next
    case 3
    with less.prems show ?thesis by (simp add: csv_quoted_last)
  next
    case 4
    then have len: "length (c # post) < length line" by (rule dropWhile_Cons_length)
    show ?thesis
    proof (cases "c = quote")
      case True
      then show ?thesis
        using less.hyps [of post rest] less.prems len by (simp add: csv_quoted_post [OF 4] Let_def)
    next
      case False
      with less.prems show ?thesis by (auto simp: csv_quoted_post [OF 4] Let_def split: if_splits)
    qed
  qed
qed

lemma csv_fields_rest: "length (snd (csv_fields fs line rest)) \<le> length rest"
proof (induction fs line rest rule: csv_fields.induct)
  case (1 fs line rest)
  note unfold = csv_fields.simps [of fs line rest]
  show ?case
  proof (cases "trim_left space_runes line")
    case Nil
    then show ?thesis by (subst unfold) simp
  next
    case line: (Cons c l)
    show ?thesis
    proof (cases "c = quote")
      case False
      show ?thesis
      proof (cases "dropWhile (\<lambda>x. x \<noteq> comma) (c # l)")
        case Nil
        show ?thesis by (subst unfold, subst line, subst list.case, subst if_P [OF False], subst Nil) (simp add: Let_def)
      next
        case more: (Cons d l')
        let ?field = "takeWhile (\<lambda>x. x \<noteq> comma) (c # l)"
        have "csv_fields fs line rest =
            (if quote \<in> set ?field then (Inl ErrBareQuote, rest) else csv_fields (fs @ [?field]) l' rest)"
          by (subst unfold, subst line, subst list.case, subst if_P [OF False], subst more) (simp only: list.case Let_def)
        moreover have "quote \<notin> set ?field \<Longrightarrow> length (snd (csv_fields (fs @ [?field]) l' rest)) \<le> length rest"
          by (rule "1.IH" (1) [OF line False more refl])
        ultimately show ?thesis by (simp del: takeWhile.simps)
      qed
    next
      case True
      then show ?thesis
        using "1.IH" (2) [OF line] csv_quoted_rest [of "[]" l rest]
        by (subst unfold) (cases "csv_quoted [] l rest"; force simp: line intro: le_trans)
    qed
  qed
qed

lemma csv_read_progress: "csv_read n s = (Inr rec, s') \<Longrightarrow> length s' < length s"
  using csv_fields_rest [of "[]" "fst (the (csv_next_line s))" "snd (the (csv_next_line s))"]
  by (auto simp: csv_read_def split: option.splits prod.splits sum.splits if_splits
      dest!: csv_next_line_progress)

end
