(* ===== verification/Go_Textproto.thy ===== *)
theory Go_Textproto
  imports Http_Types Go_Encoding "HOL-Library.List_Lexorder" "HOL-Library.Char_ord"
begin

text \<open>
  \<open>http.Header.Write\<close> and \<open>textproto.Reader.ReadMIMEHeader\<close>, through which the CSV result
  format stores response headers, as Go 1.22 has them; the reader inverts the writer on
  headers that went through Go's HTTP client (canonical keys, trimmed printable values).
\<close>

section \<open>Writing\<close>

text \<open>\<open>httpguts.ValidHeaderFieldName\<close>: a nonempty token.\<close>

definition token_char :: "char \<Rightarrow> bool" where
  "token_char c \<longleftrightarrow> c \<in> set ''!#$%&*+-.^_`|~0123456789ABCDEFGHIJKLMNOPQRSTUVWXYZabcdefghijklmnopqrstuvwxyz''
    \<or> c = CHR 0x27"

definition valid_field_name :: "string \<Rightarrow> bool" where
  "valid_field_name k \<longleftrightarrow> k \<noteq> [] \<and> list_all token_char k"

definition blank :: "char \<Rightarrow> bool" where
  "blank c \<longleftrightarrow> c = CHR '' '' \<or> c = CHR 0x09"

text \<open>Newlines become spaces, then \<open>textproto.TrimString\<close>.\<close>

definition header_value :: "string \<Rightarrow> string" where
  "header_value v =
    (let v' = map (\<lambda>c. if c = nl \<or> c = cr then CHR '' '' else c) v in
     rev (dropWhile blank (rev (dropWhile blank v'))))"

definition header_line_bytes :: "string \<Rightarrow> string \<Rightarrow> string" where
  "header_line_bytes k v = k @ '': '' @ header_value v @ [cr, nl]"

definition header_write :: "header \<Rightarrow> string" where
  "header_write h =
    concat (map (\<lambda>(k, vs). if valid_field_name k then concat (map (header_line_bytes k) vs) else [])
      (sort_key fst h))"

section \<open>Reading\<close>

text \<open>One line without its line end, \<open>None\<close> at the end of the input.\<close>

definition text_line :: "string \<Rightarrow> (string \<times> string) option" where
  "text_line s =
    (if s = [] then None
     else case dropWhile (\<lambda>c. c \<noteq> nl) s of
       [] \<Rightarrow> Some (s, [])
     | _ # rest \<Rightarrow> Some (drop_cr (takeWhile (\<lambda>c. c \<noteq> nl) s), rest))"

lemma text_line_progress: "text_line s = Some (l, r) \<Longrightarrow> length r < length s"
  by (auto simp: text_line_def split: if_splits list.splits dest: dropWhile_Cons_length)

definition trim_blank :: "string \<Rightarrow> string" where
  "trim_blank s = rev (dropWhile blank (rev (dropWhile blank s)))"

text \<open>Continuation lines, each joined with one space.\<close>

function continued :: "string \<Rightarrow> string \<Rightarrow> string \<times> string" where
  "continued buf s =
    (if dropWhile blank s = s then (buf, s)
     else case text_line (dropWhile blank s) of
       None \<Rightarrow> (buf @ '' '', [])
     | Some (l, r) \<Rightarrow> continued (buf @ '' '' @ trim_blank l) r)"
  by pat_completeness auto
termination
proof (relation "measure (\<lambda>(buf, s). length s)")
  fix buf s l r and x :: "string \<times> string"
  assume "text_line (dropWhile blank s) = Some x" and "(l, r) = x"
  then have "length r < length (dropWhile blank s)" by (auto intro: text_line_progress)
  also have "\<dots> \<le> length s" by (rule length_dropWhile_le)
  finally show "((buf @ '' '' @ trim_blank l, r), buf, s) \<in> measure (\<lambda>(buf, s). length s)" by simp
qed simp

declare continued.simps [simp del]

lemma continued_length: "length (snd (continued buf s)) \<le> length s"
proof (induction buf s rule: continued.induct)
  case (1 buf s)
  show ?case
  proof (cases "dropWhile blank s = s")
    case True
    then show ?thesis by (simp add: continued.simps [of buf s])
  next
    case False
    show ?thesis
    proof (cases "text_line (dropWhile blank s)")
      case None
      with False show ?thesis by (simp add: continued.simps [of buf s])
    next
      case (Some p)
      obtain l r where p: "p = (l, r)" by (cases p)
      have "length r < length (dropWhile blank s)" using Some p by (auto intro: text_line_progress)
      also have "\<dots> \<le> length s" by (rule length_dropWhile_le)
      finally show ?thesis using "1.IH" [OF False Some] False Some p by (simp add: continued.simps [of buf s])
    qed
  qed
qed

text \<open>\<open>canonicalMIMEHeaderKey\<close>: \<open>None\<close> for a key with an invalid byte; keys with a space are
  left alone.\<close>

definition upper_char :: "char \<Rightarrow> char" where
  "upper_char c = (let k = of_char c :: nat in if 97 \<le> k \<and> k \<le> 122 then char_of (k - 32) else c)"

definition lower_char :: "char \<Rightarrow> char" where
  "lower_char c = (let k = of_char c :: nat in if 65 \<le> k \<and> k \<le> 90 then char_of (k + 32) else c)"

fun canonical_case :: "bool \<Rightarrow> string \<Rightarrow> string" where
  "canonical_case up [] = []"
| "canonical_case up (c # k) =
    (let c' = (if up then upper_char c else lower_char c) in c' # canonical_case (c' = CHR ''-'') k)"

definition canonical_key :: "string \<Rightarrow> string option" where
  "canonical_key k =
    (if k = [] \<or> \<not> list_all (\<lambda>c. token_char c \<or> c = CHR '' '') k then None
     else if CHR '' '' \<in> set k then Some k
     else Some (canonical_case True k))"

definition value_char :: "char \<Rightarrow> bool" where
  "value_char c \<longleftrightarrow> (let k = of_char c :: nat in k = 9 \<or> 32 \<le> k \<and> k \<noteq> 127)"

text \<open>\<open>ReadMIMEHeader\<close>, \<open>None\<close> for an error (one at the end of the input included, which
  a complete header never has).\<close>

function mime_lines :: "header \<Rightarrow> string \<Rightarrow> header option" where
  "mime_lines h s =
    (case text_line s of
       None \<Rightarrow> None
     | Some (l, r) \<Rightarrow>
         if l = [] then Some h
         else if CHR '':'' \<notin> set l then None
         else (case continued (trim_blank l) r of
           (kv, r') \<Rightarrow>
             (case split_n2 (CHR '':'') kv of
                [k, v] \<Rightarrow>
                  (case canonical_key k of
                     None \<Rightarrow> None
                   | Some key \<Rightarrow>
                       if list_all value_char v
                       then mime_lines (header_append key [dropWhile blank v] h) r'
                       else None)
              | _ \<Rightarrow> None)))"
  by pat_completeness auto
termination
proof (relation "measure (\<lambda>(h, s). length s)")
  fix h s l r kv r' k v key and x :: "string \<times> string"
  assume "text_line s = Some x" "(l, r) = x" and c: "(kv, r') = continued (trim_blank l) r"
  then have "length r < length s" by (auto intro: text_line_progress)
  moreover have "length r' \<le> length r" using continued_length [of "trim_blank l" r] c by (metis snd_conv)
  ultimately show "((header_append key [dropWhile blank v] h, r'), h, s) \<in> measure (\<lambda>(h, s). length s)"
    by simp
qed simp

declare mime_lines.simps [simp del]

definition read_mime_header :: "string \<Rightarrow> header option" where
  "read_mime_header s = (if s \<noteq> [] \<and> blank (hd s) then None else mime_lines [] s)"
section \<open>The reader inverts the writer\<close>

text \<open>Headers as Go's HTTP client delivers them, listed by key.\<close>

definition wire_value :: "string \<Rightarrow> bool" where
  "wire_value v \<longleftrightarrow> list_all value_char v \<and> (v = [] \<or> \<not> blank (hd v) \<and> \<not> blank (last v))"

definition wire_header :: "header \<Rightarrow> bool" where
  "wire_header h \<longleftrightarrow> wf_header h \<and> sorted (map fst h) \<and>
    list_all (\<lambda>(k, vs). valid_field_name k \<and> canonical_key k = Some k \<and> vs \<noteq> [] \<and> list_all wire_value vs) h"

lemma dropWhile_hd: "s = [] \<or> \<not> P (hd s) \<Longrightarrow> dropWhile P s = s"
  by (cases s) auto

lemma trim_blank_id: "v = [] \<or> \<not> blank (hd v) \<and> \<not> blank (last v) \<Longrightarrow> trim_blank v = v"
  by (auto simp: trim_blank_def dropWhile_hd hd_rev)

lemma value_char_line_end: "\<not> value_char nl \<and> \<not> value_char cr"
  by code_simp

lemma value_chars: "list_all value_char v \<Longrightarrow> nl \<notin> set v \<and> cr \<notin> set v"
  unfolding list_all_iff using value_char_line_end by blast

lemma token_char_not: "\<not> token_char nl \<and> \<not> token_char cr \<and> \<not> token_char (CHR '':'') \<and>
    \<not> token_char (CHR '' '') \<and> \<not> token_char (CHR 0x09)"
  by (simp add: token_char_def)

lemma token_chars:
  assumes "valid_field_name k"
  shows "k \<noteq> [] \<and> \<not> blank (hd k) \<and> nl \<notin> set k \<and> cr \<notin> set k \<and> CHR '':'' \<notin> set k"
proof -
  have "k \<noteq> []" and t: "\<And>c. c \<in> set k \<Longrightarrow> token_char c"
    using assms by (simp_all add: valid_field_name_def list_all_iff)
  moreover have "token_char (hd k)" by (rule t) (simp add: \<open>k \<noteq> []\<close>)
  ultimately show ?thesis using token_char_not by (metis blank_def)
qed

lemma header_value_wire: "wire_value v \<Longrightarrow> header_value v = v"
proof -
  assume v: "wire_value v"
  then have "map (\<lambda>c. if c = nl \<or> c = cr then CHR '' '' else c) v = v"
    using value_chars [of v] by (intro map_idI) (auto simp: wire_value_def)
  then show ?thesis using v trim_blank_id [of v] by (simp add: header_value_def trim_blank_def wire_value_def)
qed

lemma text_line_crlf:
  assumes "nl \<notin> set l"
  shows "text_line (l @ cr # nl # s) = Some (l, s)"
proof -
  have "dropWhile (\<lambda>c. c \<noteq> nl) (l @ cr # nl # s) = nl # s" "takeWhile (\<lambda>c. c \<noteq> nl) (l @ cr # nl # s) = l @ [cr]"
    using assms dropWhile_to_sep [of nl "l @ [cr]" s] takeWhile_to_sep [of nl "l @ [cr]" s] by simp_all
  then show ?thesis by (simp add: text_line_def drop_cr_def)
qed

lemma continued_stop: "s \<noteq> [] \<Longrightarrow> \<not> blank (hd s) \<Longrightarrow> continued buf s = (buf, s)"
  by (simp add: continued.simps [of buf s] dropWhile_hd)

lemma mime_lines_line:
  assumes "valid_field_name k" and "canonical_key k = Some k" and "wire_value v" and "s \<noteq> []" and "\<not> blank (hd s)"
  shows "mime_lines h (header_line_bytes k v @ s) = mime_lines (header_append k [v] h) s"
proof -
  let ?l = "k @ '': '' @ v"
  let ?kv = "k @ CHR '':'' # (if v = [] then [] else CHR '' '' # v)"
  note k = token_chars [OF assms(1)]
  have line: "text_line (header_line_bytes k v @ s) = Some (?l, s)"
    using text_line_crlf [of ?l s] k value_chars [of v] assms(3)
    by (simp add: header_line_bytes_def header_value_wire wire_value_def)
  have kv: "trim_blank ?l = ?kv"
  proof (cases "v = []")
    case True
    then show ?thesis using k by (simp add: trim_blank_def dropWhile_hd blank_def)
  next
    case False
    then show ?thesis using k assms(3) by (simp add: trim_blank_id wire_value_def)
  qed
  have v: "dropWhile blank (if v = [] then [] else CHR '' '' # v) = v"
    "list_all value_char (if v = [] then [] else CHR '' '' # v)"
    using assms(3) by (auto simp: wire_value_def dropWhile_hd blank_def value_char_def)
  have "split_n2 (CHR '':'') ?kv = [k, if v = [] then [] else CHR '' '' # v]"
    using k by (intro split_n2_sep) simp
  then show ?thesis
    using assms(2) v by (simp add: mime_lines.simps [of h "header_line_bytes k v @ s"] line
        continued_stop [OF assms(4,5)] kv [simplified])
qed

lemma header_append_new: "k \<notin> set (map fst h) \<Longrightarrow> header_append k vs h = h @ [(k, vs)]"
  by (induction h) (auto simp: header_append_def header_get_def)

lemma header_append_last:
  "k \<notin> set (map fst h) \<Longrightarrow> header_append k ws (h @ [(k, vs)]) = h @ [(k, vs @ ws)]"
proof -
  assume k: "k \<notin> set (map fst h)"
  then have "map_of h k = None" by (simp add: map_of_eq_None_iff)
  then have "header_get (h @ [(k, vs)]) k = vs" by (simp add: header_get_def map_add_def)
  moreover have "AList.update k xs (h @ [(k, vs)]) = h @ [(k, xs)]" for xs
    using k by (induction h) auto
  ultimately show ?thesis by (simp add: header_append_def)
qed

definition starts_line :: "string \<Rightarrow> bool" where
  "starts_line s \<longleftrightarrow> s \<noteq> [] \<and> \<not> blank (hd s)"

lemma starts_line_header: "valid_field_name k \<Longrightarrow> starts_line (header_line_bytes k v @ s)"
  using token_chars [of k] by (simp add: starts_line_def header_line_bytes_def)

lemma starts_line_values:
  "valid_field_name k \<Longrightarrow> starts_line s \<Longrightarrow> starts_line (concat (map (header_line_bytes k) vs) @ s)"
  by (cases vs) (simp_all add: starts_line_header)

lemma mime_lines_more_values:
  assumes "valid_field_name k" and "canonical_key k = Some k" and "list_all wire_value ws"
    and "starts_line s" and "k \<notin> set (map fst h)"
  shows "mime_lines (h @ [(k, vs)]) (concat (map (header_line_bytes k) ws) @ s) = mime_lines (h @ [(k, vs @ ws)]) s"
  using assms(3)
proof (induction ws arbitrary: vs)
  case (Cons w ws)
  have "starts_line (concat (map (header_line_bytes k) ws) @ s)"
    using starts_line_values [OF assms(1,4)] .
  then show ?case
    using Cons mime_lines_line [OF assms(1,2), of w "concat (map (header_line_bytes k) ws) @ s" "h @ [(k, vs)]"] assms(5)
    by (simp add: starts_line_def header_append_last)
qed simp

lemma mime_lines_values:
  assumes "valid_field_name k" and "canonical_key k = Some k" and "list_all wire_value vs" and "vs \<noteq> []"
    and "starts_line s" and "k \<notin> set (map fst h)"
  shows "mime_lines h (concat (map (header_line_bytes k) vs) @ s) = mime_lines (h @ [(k, vs)]) s"
proof -
  obtain v ws where vs: "vs = v # ws" using assms(4) by (cases vs) auto
  have s: "starts_line (concat (map (header_line_bytes k) ws) @ s)"
    using starts_line_values [OF assms(1,5)] .
  have "mime_lines h (concat (map (header_line_bytes k) vs) @ s) =
      mime_lines (h @ [(k, [v])]) (concat (map (header_line_bytes k) ws) @ s)"
    using mime_lines_line [OF assms(1,2), of v "concat (map (header_line_bytes k) ws) @ s" h] assms(3,6) s vs
    by (simp add: starts_line_def header_append_new)
  then show ?thesis
    using mime_lines_more_values [OF assms(1,2) _ assms(5,6), of ws "[v]"] assms(3) vs by simp
qed

lemma header_write_sorted:
  assumes "sorted (map fst h)" and "wf_header h"
  shows "header_write h = concat (map (\<lambda>(k, vs). if valid_field_name k then concat (map (header_line_bytes k) vs) else []) h)"
  using assms by (simp add: header_write_def sort_key_id_if_sorted)

lemma mime_lines_header:
  assumes "wire_header h" and "\<forall>k \<in> set (map fst h). k \<notin> set (map fst g)" and "wf_header g"
  shows "mime_lines g (header_write h @ [cr, nl]) = Some (g @ h)"
proof -
  let ?w = "\<lambda>h. concat (map (\<lambda>(k, vs). if valid_field_name k then concat (map (header_line_bytes k) vs) else []) h)"
  have "mime_lines g (?w h @ [cr, nl]) = Some (g @ h) \<and> starts_line (?w h @ [cr, nl])"
    using assms
  proof (induction h arbitrary: g)
    case Nil
    have "text_line [cr, nl] = Some ([], [])" using text_line_crlf [of "[]" "[]"] by simp
    then show ?case by (simp add: mime_lines.simps [of g "[cr, nl]"] starts_line_def blank_def)
  next
    case (Cons p h)
    obtain k vs where p: "p = (k, vs)" by (cases p)
    have k: "valid_field_name k" "canonical_key k = Some k" "list_all wire_value vs" "vs \<noteq> []" "wire_header h"
      using Cons.prems(1) p by (simp_all add: wire_header_def wf_header_def)
    have g: "wf_header (g @ [(k, vs)])" "\<forall>k' \<in> set (map fst h). k' \<notin> set (map fst (g @ [(k, vs)]))"
      using Cons.prems p by (auto simp: wf_header_def wire_header_def)
    note IH = Cons.IH [OF k(5) g(2,1)]
    show ?case
      using mime_lines_values [OF k(1-4), of "?w h @ [cr, nl]" g] IH Cons.prems(2) p k(1)
        starts_line_values [OF k(1), of "?w h @ [cr, nl]" vs]
      by simp
  qed
  then show ?thesis using assms(1) header_write_sorted [of h] by (simp add: wire_header_def)
qed

lemma read_mime_header_write: "wire_header h \<Longrightarrow> read_mime_header (header_write h @ [cr, nl]) = Some h"
proof -
  assume h: "wire_header h"
  have "\<not> blank (hd (header_write h @ [cr, nl]))"
  proof (cases h)
    case Nil
    then show ?thesis by (simp add: header_write_def blank_def)
  next
    case (Cons p h')
    obtain k v ws where p: "p = (k, v # ws)" "valid_field_name k"
      using h Cons by (cases p; cases "snd p") (auto simp: wire_header_def)
    then show ?thesis
      using Cons h header_write_sorted [of h] starts_line_header [of k v]
      by (simp add: wire_header_def starts_line_def)
  qed
  then show ?thesis
    using mime_lines_header [OF h, of "[]"] by (simp add: read_mime_header_def)
qed

end
