(* ===== verification/Float64.thy ===== *)
theory Float64
  imports Go_Base Complex_Main "HOL-Library.Log_Nat"
begin

text \<open>
  Go's \<open>float64\<close>: IEEE 754 binary64 with rounding to nearest, ties to even. A finite value is
  the rational number it stands for; the sign of zero is not kept, since nothing in the
  program tells the two zeros apart. Operations are exact operations on rationals followed
  by rounding, so they evaluate; the section on rounding has what the component proofs use:
  it is monotone, exact on integers up to \<open>2\<^sup>5\<^sup>3\<close>, and has a relative error of at most \<open>2\<^sup>-\<^sup>5\<^sup>3\<close>.
\<close>

section \<open>Rounding\<close>

definition p2 :: "int \<Rightarrow> rat" where
  "p2 k = (if 0 \<le> k then 2 ^ nat k else 1 / 2 ^ nat (- k))"

text \<open>The exponent of the leading bit of a positive rational.\<close>

definition exponent :: "rat \<Rightarrow> int" where
  "exponent x =
    (case quotient_of x of (n, d) \<Rightarrow>
       let e = int (floorlog 2 (nat n)) - int (floorlog 2 (nat d)) in
       if p2 e \<le> x then e else e - 1)"

definition half_even :: "rat \<Rightarrow> int" where
  "half_even q =
    (let f = \<lfloor>q\<rfloor>; r = q - of_int f in
     if r < 1 / 2 then f else if 1 / 2 < r then f + 1 else if even f then f else f + 1)"

text \<open>The unit in the last place, and rounding without regard to overflow.\<close>

definition ulp_exponent :: "rat \<Rightarrow> int" where
  "ulp_exponent x = max (exponent \<bar>x\<bar> - 52) (- 1074)"

definition rnd :: "rat \<Rightarrow> rat" where
  "rnd x = (if x = 0 then 0 else of_int (half_even (x / p2 (ulp_exponent x))) * p2 (ulp_exponent x))"

lemma p2_pos [simp]: "0 < p2 k"
  by (simp add: p2_def)

lemma p2_not_zero [simp]: "p2 k \<noteq> 0"
  using p2_pos [of k] by linarith

lemma p2_powi: "p2 k = 2 powi k"
  by (simp add: p2_def power_int_def inverse_eq_divide power_one_over)

lemma p2_add: "p2 (a + b) = p2 a * p2 b"
  by (simp add: p2_powi power_int_add)

lemma p2_diff: "p2 (a - b) = p2 a / p2 b"
  by (simp add: p2_powi power_int_diff)

lemma p2_nat [simp]: "p2 (int n) = 2 ^ n"
  by (simp add: p2_def)

lemma p2_numeral [simp]: "p2 (numeral n) = 2 ^ numeral n" "p2 1 = 2" "p2 0 = 1"
  by (simp_all add: p2_def)

lemma p2_nonneg [simp]: "0 \<le> p2 k"
  using p2_pos [of k] by linarith

lemma p2_mono: "a \<le> b \<Longrightarrow> p2 a \<le> p2 b"
  by (simp add: p2_powi power_int_increasing)

lemma p2_strict_mono: "a < b \<Longrightarrow> p2 a < p2 b"
  by (simp add: p2_powi power_int_strict_increasing)

lemma exponent_bounds:
  assumes "0 < x"
  shows "p2 (exponent x) \<le> x" and "x < p2 (exponent x + 1)"
proof -
  obtain n d where nd: "quotient_of x = (n, d)" by (cases "quotient_of x")
  have d: "0 < d" using nd by (rule quotient_of_denom_pos)
  have x: "x = of_int n / of_int d" using nd by (rule quotient_of_div)
  then have n: "0 < n" using assms d by (simp add: zero_less_divide_iff)
  let ?a = "floorlog 2 (nat n)" and ?b = "floorlog 2 (nat d)"
  have a: "2 ^ (?a - 1) \<le> nat n \<and> nat n < 2 ^ ?a" and a0: "0 < ?a"
    using n floorlog_bounds [of "nat n" 2] floorlog_eq_zero_iff [of 2 "nat n"] by simp_all
  have b: "2 ^ (?b - 1) \<le> nat d \<and> nat d < 2 ^ ?b" and b0: "0 < ?b"
    using d floorlog_bounds [of "nat d" 2] floorlog_eq_zero_iff [of 2 "nat d"] by simp_all
  have n': "p2 (int ?a - 1) \<le> of_int n \<and> of_int n < p2 (int ?a)"
  proof -
    have "of_nat (2 ^ (?a - 1)) \<le> (of_nat (nat n) :: rat)" "(of_nat (nat n) :: rat) < of_nat (2 ^ ?a)"
      using a by (simp_all only: of_nat_le_iff of_nat_less_iff)
    moreover have "int ?a - 1 = int (?a - 1)" using a0 by simp
    ultimately show ?thesis using n by (simp only: p2_nat) simp
  qed
  have d': "p2 (int ?b - 1) \<le> of_int d \<and> of_int d < p2 (int ?b)"
  proof -
    have "of_nat (2 ^ (?b - 1)) \<le> (of_nat (nat d) :: rat)" "(of_nat (nat d) :: rat) < of_nat (2 ^ ?b)"
      using b by (simp_all only: of_nat_le_iff of_nat_less_iff)
    moreover have "int ?b - 1 = int (?b - 1)" using b0 by simp
    ultimately show ?thesis using d by (simp only: p2_nat) simp
  qed
  let ?e = "int ?a - int ?b"
  have up: "x < p2 (?e + 1)"
  proof -
    have "x < p2 (int ?a) / of_int d" unfolding x using n' d by (simp add: divide_strict_right_mono)
    also have "\<dots> \<le> p2 (int ?a) / p2 (int ?b - 1)" using d d' by (intro divide_left_mono) simp_all
    also have "\<dots> = p2 (int ?a - (int ?b - 1))" by (rule p2_diff [symmetric])
    also have "\<dots> = p2 (?e + 1)" by (rule arg_cong [where f = p2]) simp
    finally show ?thesis .
  qed
  have low: "p2 (?e - 1) \<le> x"
  proof -
    have "p2 (?e - 1) = p2 ((int ?a - 1) - int ?b)" by (rule arg_cong [where f = p2]) simp
    also have "\<dots> = p2 (int ?a - 1) / p2 (int ?b)" by (rule p2_diff)
    also have "\<dots> \<le> p2 (int ?a - 1) / of_int d" using d d' by (intro divide_left_mono) simp_all
    also have "\<dots> \<le> x" unfolding x using n' d by (simp add: divide_right_mono)
    finally show ?thesis .
  qed
  show "p2 (exponent x) \<le> x" "x < p2 (exponent x + 1)"
    using up low by (simp_all add: exponent_def nd Let_def)
qed

lemma exponent_unique: "p2 e \<le> x \<Longrightarrow> x < p2 (e + 1) \<Longrightarrow> exponent x = e"
proof -
  assume e: "p2 e \<le> x" "x < p2 (e + 1)"
  then have "0 < x" using p2_pos [of e] by linarith
  note b = exponent_bounds [OF this]
  have "\<not> e < exponent x" using p2_mono [of "e + 1" "exponent x"] e b by linarith
  moreover have "\<not> exponent x < e" using p2_mono [of "exponent x + 1" e] e b by linarith
  ultimately show ?thesis by simp
qed

lemma exponent_mono: "0 < x \<Longrightarrow> x \<le> y \<Longrightarrow> exponent x \<le> exponent y"
proof (rule ccontr)
  assume "0 < x" "x \<le> y" "\<not> exponent x \<le> exponent y"
  then show False
    using exponent_bounds [of x] exponent_bounds [of y] p2_mono [of "exponent y + 1" "exponent x"] by linarith
qed

lemma half_even_bound: "\<bar>of_int (half_even q) - q\<bar> \<le> 1 / 2"
  using floor_correct [of q] by (auto simp: half_even_def Let_def abs_le_iff)

lemma half_even_of_int [simp]: "half_even (of_int n) = n"
  by (simp add: half_even_def)

lemma half_even_mono: "q \<le> r \<Longrightarrow> half_even q \<le> half_even r"
proof -
  assume qr: "q \<le> r"
  have f: "\<lfloor>q\<rfloor> \<le> \<lfloor>r\<rfloor>" using qr by (rule floor_mono)
  have bounds: "\<lfloor>s\<rfloor> \<le> half_even s \<and> half_even s \<le> \<lfloor>s\<rfloor> + 1" for s
    by (simp add: half_even_def Let_def)
  show ?thesis
  proof (cases "\<lfloor>q\<rfloor> = \<lfloor>r\<rfloor>")
    case True
    with qr show ?thesis by (auto simp: half_even_def Let_def)
  next
    case False
    then show ?thesis using f bounds [of q] bounds [of r] by linarith
  qed
qed

lemma half_even_neg: "half_even (- q) = - half_even q"
proof (cases "q = of_int \<lfloor>q\<rfloor>")
  case True
  then have "half_even (- q) = half_even (of_int (- \<lfloor>q\<rfloor>))" by simp
  also have "\<dots> = - half_even (of_int \<lfloor>q\<rfloor>)" by (simp only: half_even_of_int)
  finally show ?thesis using True by metis
next
  case False
  then have "\<lfloor>- q\<rfloor> = - \<lfloor>q\<rfloor> - 1"
    using floor_correct [of q] by (intro floor_unique) (auto simp: le_less)
  then show ?thesis by (auto simp: half_even_def Let_def)
qed

lemma ulp_exponent_neg [simp]: "ulp_exponent (- x) = ulp_exponent x"
  by (simp add: ulp_exponent_def)

lemma rnd_0 [simp]: "rnd 0 = 0"
  by (simp add: rnd_def)

lemma rnd_neg: "rnd (- x) = - rnd x"
  by (simp add: rnd_def half_even_neg)

text \<open>The quotient by the unit in the last place has at most 53 bits.\<close>

lemma ulp_quotient_bounds:
  assumes "0 < x"
  shows "x / p2 (ulp_exponent x) < 2 ^ 53"
    and "- 1074 < exponent x - 52 \<Longrightarrow> 2 ^ 52 \<le> x / p2 (ulp_exponent x)"
proof -
  have "p2 (exponent x + 1) \<le> p2 (ulp_exponent x + 53)"
    using assms by (intro p2_mono) (simp add: ulp_exponent_def)
  also have "\<dots> = 2 ^ 53 * p2 (ulp_exponent x)" by (simp only: p2_add p2_numeral mult.commute)
  finally have "x < 2 ^ 53 * p2 (ulp_exponent x)"
    using exponent_bounds(2) [OF assms] by linarith
  then show "x / p2 (ulp_exponent x) < 2 ^ 53" by (simp add: divide_less_eq)
  assume "- 1074 < exponent x - 52"
  then have "exponent x = 52 + ulp_exponent x" using assms by (simp add: ulp_exponent_def)
  then have "2 ^ 52 * p2 (ulp_exponent x) \<le> x"
    using exponent_bounds [OF assms] by (metis p2_add p2_numeral(1))
  then show "2 ^ 52 \<le> x / p2 (ulp_exponent x)" by (simp add: le_divide_eq)
qed

lemma ulp_exponent_mono: "0 < x \<Longrightarrow> x \<le> y \<Longrightarrow> ulp_exponent x \<le> ulp_exponent y"
  using exponent_mono [of x y] by (simp add: ulp_exponent_def)

lemma rnd_not_0: "x \<noteq> 0 \<Longrightarrow> rnd x = of_int (half_even (x / p2 (ulp_exponent x))) * p2 (ulp_exponent x)"
  by (simp add: rnd_def)

lemma rnd_le:
  assumes "x \<noteq> 0" and "half_even (x / p2 (ulp_exponent x)) \<le> n"
  shows "rnd x \<le> of_int n * p2 (ulp_exponent x)"
  unfolding rnd_not_0 [OF assms(1)] using assms(2) by (intro mult_right_mono) (simp_all only: of_int_le_iff p2_nonneg)

lemma rnd_ge:
  assumes "x \<noteq> 0" and "n \<le> half_even (x / p2 (ulp_exponent x))"
  shows "of_int n * p2 (ulp_exponent x) \<le> rnd x"
  unfolding rnd_not_0 [OF assms(1)] using assms(2) by (intro mult_right_mono) (simp_all only: of_int_le_iff p2_nonneg)

lemma rnd_nonneg: "0 \<le> x \<Longrightarrow> 0 \<le> rnd x"
proof (cases "x = 0")
  case False
  assume "0 \<le> x"
  then have "half_even (of_int 0) \<le> half_even (x / p2 (ulp_exponent x))"
    by (intro half_even_mono) (simp add: divide_nonneg_pos)
  then show ?thesis using rnd_ge [OF False, of 0] by (simp only: half_even_of_int) simp
qed simp

lemma rnd_mono_pos:
  assumes "0 < x" and "x \<le> y"
  shows "rnd x \<le> rnd y"
proof -
  let ?a = "ulp_exponent x" and ?b = "ulp_exponent y"
  have le: "?a \<le> ?b" using ulp_exponent_mono [OF assms] .
  show ?thesis
  proof (cases "?a = ?b")
    case True
    have "half_even (x / p2 ?a) \<le> half_even (y / p2 ?a)"
      using assms(2) by (intro half_even_mono divide_right_mono) (simp_all add: less_imp_le)
    then show ?thesis using True assms by (simp add: rnd_def)
  next
    case False
    then have lt: "?a < ?b" using le by simp
    have "half_even (x / p2 ?a) \<le> half_even (of_int (2 ^ 53))"
      using ulp_quotient_bounds(1) [OF assms(1)] by (intro half_even_mono) simp
    then have "rnd x \<le> of_int (2 ^ 53) * p2 ?a"
      unfolding half_even_of_int using assms(1) by (intro rnd_le) simp_all
    also have "\<dots> = p2 (?a + 53)" by (simp add: p2_add)
    also have "\<dots> \<le> p2 (?b + 52)" using lt by (intro p2_mono) simp
    also have "\<dots> = of_int (2 ^ 52) * p2 ?b" by (simp add: p2_add)
    also have "\<dots> \<le> rnd y"
    proof -
      have "- 1074 < exponent y - 52" using lt assms by (auto simp: ulp_exponent_def)
      then have "half_even (of_int (2 ^ 52)) \<le> half_even (y / p2 ?b)"
        using ulp_quotient_bounds(2) [of y] assms by (intro half_even_mono) simp
      then show ?thesis unfolding half_even_of_int using assms by (intro rnd_ge) simp_all
    qed
    finally show ?thesis .
  qed
qed

lemma rnd_mono: "x \<le> y \<Longrightarrow> rnd x \<le> rnd y"
proof -
  assume xy: "x \<le> y"
  consider "0 < x" | "x \<le> 0" "0 \<le> y" | "y < 0" by linarith
  then show ?thesis
  proof cases
    case 1
    then show ?thesis using xy by (rule rnd_mono_pos)
  next
    case 2
    then show ?thesis using rnd_nonneg [of y] rnd_nonneg [of "- x"] by (simp add: rnd_neg)
  next
    case 3
    then show ?thesis using rnd_mono_pos [of "- y" "- x"] xy by (simp add: rnd_neg)
  qed
qed

text \<open>What has at most 53 bits is not changed.\<close>

lemma rnd_exact:
  assumes "\<bar>m\<bar> \<le> 2 ^ 53" and "- 1074 \<le> k"
  shows "rnd (of_int m * p2 k) = of_int m * p2 k"
proof -
  have pos: "rnd (of_int m * p2 k) = of_int m * p2 k" if m: "0 < m" "m \<le> 2 ^ 53" for m
  proof -
    define x where "x = of_int m * p2 k"
    define u where "u = ulp_exponent x"
    have x: "0 < x" using m by (simp add: x_def)
    have "\<exists>n. x / p2 u = of_int n"
    proof (cases "u \<le> k")
      case True
      then have "k = int (nat (k - u)) + u" by simp
      then have "p2 k = p2 (int (nat (k - u))) * p2 u" by (metis p2_add)
      then have "p2 k = 2 ^ nat (k - u) * p2 u" by (simp only: p2_nat)
      then have "x / p2 u = of_int (m * 2 ^ nat (k - u))" by (simp add: x_def)
      then show ?thesis by blast
    next
      case False
      then have e: "k + 53 \<le> exponent x"
        using assms(2) x by (auto simp: u_def ulp_exponent_def split: if_splits)
      have "(of_int m :: rat) \<le> of_int (2 ^ 53)" using m(2) by (simp only: of_int_le_iff)
      then have "x \<le> 2 ^ 53 * p2 k" by (simp add: x_def)
      also have "\<dots> = p2 (k + 53)" by (simp add: p2_add)
      finally have xk: "x = p2 (k + 53)"
        using exponent_bounds(1) [OF x] p2_mono [OF e] by linarith
      then have ex: "exponent x = k + 53"
        using p2_strict_mono [of "k + 53" "k + 53 + 1"] by (intro exponent_unique) simp_all
      then have "k + 53 = 52 + u" using x assms(2) by (simp add: u_def ulp_exponent_def)
      then have "x = p2 52 * p2 u" unfolding xk by (simp only: p2_add)
      then have "x / p2 u = of_int (2 ^ 52)" by simp
      then show ?thesis by blast
    qed
    then obtain n where n: "x / p2 u = of_int n" by blast
    have "rnd x = of_int (half_even (x / p2 u)) * p2 u" using x rnd_not_0 [of x] by (simp add: u_def)
    also have "\<dots> = x / p2 u * p2 u" by (simp only: n half_even_of_int)
    finally show ?thesis by (simp add: x_def)
  qed
  consider "m = 0" | "0 < m" | "m < 0" by linarith
  then show ?thesis
    by cases (use pos [of m] pos [of "- m"] assms(1) rnd_neg [of "of_int (- m) * p2 k"] in simp_all)
qed

lemma rnd_of_int: "\<bar>n\<bar> \<le> 2 ^ 53 \<Longrightarrow> rnd (of_int n) = of_int n"
  using rnd_exact [of n 0] by (simp add: p2_def)

lemma rnd_error:
  assumes "p2 (- 1022) \<le> \<bar>x\<bar>"
  shows "\<bar>rnd x - x\<bar> \<le> \<bar>x\<bar> / 2 ^ 53"
proof -
  have x: "x \<noteq> 0" "0 < \<bar>x\<bar>" using assms p2_pos [of "- 1022"] by (auto simp flip: not_less)
  let ?u = "ulp_exponent x"
  have "- 1022 < exponent \<bar>x\<bar> + 1"
    using exponent_bounds(2) [OF x(2)] assms p2_mono [of "exponent \<bar>x\<bar> + 1" "- 1022"] by linarith
  then have u: "exponent \<bar>x\<bar> = 52 + ?u" by (simp add: ulp_exponent_def)
  have "\<bar>rnd x - x\<bar> = \<bar>of_int (half_even (x / p2 ?u)) - x / p2 ?u\<bar> * p2 ?u"
    by (simp add: rnd_not_0 [OF x(1)] abs_mult_pos left_diff_distrib)
  also have "\<dots> \<le> 1 / 2 * p2 ?u" using half_even_bound by (intro mult_right_mono) simp_all
  also have "\<dots> = p2 (52 + ?u) / 2 ^ 53" by (simp add: p2_add)
  also have "\<dots> \<le> \<bar>x\<bar> / 2 ^ 53"
    using exponent_bounds(1) [OF x(2)] u by (intro divide_right_mono) simp_all
  finally show ?thesis .
qed

section \<open>Values and operations\<close>

datatype float64 = NaN | PInf | NInf | Fin rat

definition f_round :: "rat \<Rightarrow> float64" where
  "f_round x = (let y = rnd x in if 2 ^ 1024 \<le> y then PInf else if y \<le> - (2 ^ 1024) then NInf else Fin y)"

fun f_neg :: "float64 \<Rightarrow> float64" where
  "f_neg NaN = NaN"
| "f_neg PInf = NInf"
| "f_neg NInf = PInf"
| "f_neg (Fin x) = Fin (- x)"

fun f_add :: "float64 \<Rightarrow> float64 \<Rightarrow> float64" where
  "f_add (Fin x) (Fin y) = f_round (x + y)"
| "f_add NaN _ = NaN"
| "f_add _ NaN = NaN"
| "f_add PInf NInf = NaN"
| "f_add NInf PInf = NaN"
| "f_add PInf _ = PInf"
| "f_add _ PInf = PInf"
| "f_add NInf _ = NInf"
| "f_add _ NInf = NInf"

definition f_sub :: "float64 \<Rightarrow> float64 \<Rightarrow> float64" where
  "f_sub x y = f_add x (f_neg y)"

definition f_inf :: "bool \<Rightarrow> float64" where
  "f_inf neg = (if neg then NInf else PInf)"

fun f_sign :: "float64 \<Rightarrow> int" where
  "f_sign NaN = 0"
| "f_sign PInf = 1"
| "f_sign NInf = - 1"
| "f_sign (Fin x) = (if 0 < x then 1 else if x < 0 then - 1 else 0)"

definition f_mul :: "float64 \<Rightarrow> float64 \<Rightarrow> float64" where
  "f_mul a b =
    (case (a, b) of
       (Fin x, Fin y) \<Rightarrow> f_round (x * y)
     | _ \<Rightarrow> if f_sign a * f_sign b = 0 then NaN else f_inf (f_sign a * f_sign b < 0))"

definition f_div :: "float64 \<Rightarrow> float64 \<Rightarrow> float64" where
  "f_div a b =
    (case (a, b) of
       (NaN, _) \<Rightarrow> NaN
     | (_, NaN) \<Rightarrow> NaN
     | (Fin x, Fin y) \<Rightarrow>
         if y = 0 then if x = 0 then NaN else f_inf (x < 0) else f_round (x / y)
     | (Fin x, _) \<Rightarrow> Fin 0
     | (_, Fin y) \<Rightarrow> f_inf (if f_sign a = 1 then y < 0 else 0 \<le> y)
     | _ \<Rightarrow> NaN)"

fun f_less :: "float64 \<Rightarrow> float64 \<Rightarrow> bool" where
  "f_less (Fin x) (Fin y) \<longleftrightarrow> x < y"
| "f_less NInf PInf \<longleftrightarrow> True"
| "f_less NInf (Fin y) \<longleftrightarrow> True"
| "f_less (Fin x) PInf \<longleftrightarrow> True"
| "f_less _ _ \<longleftrightarrow> False"

definition f_eq :: "float64 \<Rightarrow> float64 \<Rightarrow> bool" where
  "f_eq a b \<longleftrightarrow> a \<noteq> NaN \<and> a = b"

definition f_le :: "float64 \<Rightarrow> float64 \<Rightarrow> bool" where
  "f_le a b \<longleftrightarrow> f_less a b \<or> f_eq a b"

text \<open>
  Conversions. A float out of the range of \<open>int64\<close> (or NaN) converts to the smallest
  \<open>int64\<close>, as on amd64; Go leaves it to the implementation.
\<close>

definition f_of_int :: "int \<Rightarrow> float64" where
  "f_of_int n = f_round (of_int n)"

definition trunc :: "rat \<Rightarrow> int" where
  "trunc x = (if 0 \<le> x then \<lfloor>x\<rfloor> else - \<lfloor>- x\<rfloor>)"

definition f_to_i64 :: "float64 \<Rightarrow> i64" where
  "f_to_i64 a =
    (case a of
       Fin x \<Rightarrow> (let t = trunc x in if - (2 ^ 63) \<le> t \<and> t < 2 ^ 63 then word_of_int t else - (2 ^ 63))
     | _ \<Rightarrow> - (2 ^ 63))"

text \<open>\<open>uint64(f)\<close> as on amd64: through \<open>int64\<close>, from \<open>2\<^sup>6\<^sup>3\<close> on less \<open>2\<^sup>6\<^sup>3\<close> and with the top bit set.\<close>

definition f_to_u64 :: "float64 \<Rightarrow> u64" where
  "f_to_u64 a =
    (if f_less a (Fin (2 ^ 63)) then f_to_i64 a
     else or (f_to_i64 (f_sub a (Fin (2 ^ 63)))) (2 ^ 63))"

text \<open>Values a variable can hold: rounded, below the overflow threshold.\<close>

definition float_value :: "float64 \<Rightarrow> bool" where
  "float_value a \<longleftrightarrow> (case a of Fin x \<Rightarrow> rnd x = x \<and> \<bar>x\<bar> < 2 ^ 1024 | _ \<Rightarrow> True)"

lemma f_round_small: "\<bar>rnd x\<bar> < 2 ^ 1024 \<Longrightarrow> f_round x = Fin (rnd x)"
  by (auto simp: f_round_def Let_def abs_less_iff)

lemma rnd_abs_le:
  assumes "\<bar>x\<bar> \<le> of_int m" and "0 \<le> m" and "m \<le> 2 ^ 53"
  shows "\<bar>rnd x\<bar> \<le> of_int m"
proof -
  have m: "rnd (of_int m) = of_int m" using assms by (intro rnd_of_int) simp
  have "rnd x \<le> rnd (of_int m)" using assms(1) by (intro rnd_mono) linarith
  moreover have "rnd (- of_int m) \<le> rnd x" using assms(1) by (intro rnd_mono) linarith
  ultimately show ?thesis unfolding rnd_neg m by linarith
qed

lemma f_of_int_exact: "\<bar>n\<bar> \<le> 2 ^ 53 \<Longrightarrow> f_of_int n = Fin (of_int n)"
proof -
  assume n: "\<bar>n\<bar> \<le> 2 ^ 53"
  then have "\<bar>of_int n :: rat\<bar> \<le> of_int (2 ^ 53)" by (simp only: of_int_abs of_int_le_iff)
  then have "\<bar>of_int n :: rat\<bar> < 2 ^ 1024" by (rule le_less_trans) simp
  then show ?thesis using rnd_of_int [OF n] by (simp add: f_of_int_def f_round_small)
qed

section \<open>Rounded values\<close>

lemma rnd_is_multiple: "\<exists>n k. rnd x = of_int n * p2 k \<and> \<bar>n\<bar> \<le> 2 ^ 53 \<and> - 1074 \<le> k"
proof -
  have pos: "\<exists>n k. rnd x = of_int n * p2 k \<and> \<bar>n\<bar> \<le> 2 ^ 53 \<and> - 1074 \<le> k" if x: "0 < x" for x
  proof (intro exI conjI)
    let ?u = "ulp_exponent x" and ?n = "half_even (x / p2 (ulp_exponent x))"
    show "rnd x = of_int ?n * p2 ?u" using x by (simp add: rnd_not_0)
    have "half_even (of_int 0) \<le> ?n" using x by (intro half_even_mono) (simp add: divide_nonneg_pos)
    moreover have "?n \<le> half_even (of_int (2 ^ 53))"
      using ulp_quotient_bounds(1) [OF x] by (intro half_even_mono) simp
    ultimately show "\<bar>?n\<bar> \<le> 2 ^ 53" by (simp only: half_even_of_int)
    show "- 1074 \<le> ?u" by (simp add: ulp_exponent_def)
  qed
  consider "x = 0" | "0 < x" | "0 < - x" by linarith
  then show ?thesis
  proof cases
    case 3
    then obtain n k where "rnd (- x) = of_int n * p2 k" "\<bar>n\<bar> \<le> 2 ^ 53" "- 1074 \<le> k" using pos by blast
    then have "rnd x = of_int (- n) * p2 k" "\<bar>- n\<bar> \<le> 2 ^ 53" "- 1074 \<le> k" by (simp_all add: rnd_neg)
    then show ?thesis by blast
  qed (use pos in \<open>auto intro: exI [of _ 0]\<close>)
qed

lemma rnd_idem [simp]: "rnd (rnd x) = rnd x"
  using rnd_is_multiple [of x] rnd_exact by auto

lemma rnd_grid: "\<exists>n. rnd x = of_int n * p2 (- 1074)"
proof -
  obtain n k where nk: "rnd x = of_int n * p2 k" "- 1074 \<le> k" using rnd_is_multiple [of x] by blast
  have "k = int (nat (k + 1074)) + (- 1074)" using nk(2) by simp
  then have "p2 k = 2 ^ nat (k + 1074) * p2 (- 1074)" by (metis p2_add p2_nat)
  then have "rnd x = of_int (n * 2 ^ nat (k + 1074)) * p2 (- 1074)" by (simp add: nk(1))
  then show ?thesis by blast
qed

lemma rnd_diff_pos: "rnd x = x \<Longrightarrow> rnd y = y \<Longrightarrow> x < y \<Longrightarrow> 0 < rnd (y - x)"
proof -
  assume xy: "rnd x = x" "rnd y = y" "x < y"
  obtain m n where "x = of_int m * p2 (- 1074)" "y = of_int n * p2 (- 1074)"
    using rnd_grid [of x] rnd_grid [of y] xy by auto
  then have d: "y - x = of_int (n - m) * p2 (- 1074)" by (simp add: left_diff_distrib)
  then have "0 < of_int (n - m) * p2 (- 1074)" using xy(3) by simp
  then have "0 < (of_int (n - m) :: rat)" by (simp only: zero_less_mult_pos2 [OF _ p2_pos])
  then have "1 \<le> n - m" by simp
  then have "of_int 1 * p2 (- 1074) \<le> of_int (n - m) * p2 (- 1074)" by (intro mult_right_mono) (simp_all only: of_int_le_iff p2_nonneg)
  then have "rnd (of_int 1 * p2 (- 1074)) \<le> rnd (y - x)" unfolding d by (rule rnd_mono)
  moreover have "rnd (of_int 1 * p2 (- 1074)) = of_int 1 * p2 (- 1074)" by (rule rnd_exact) simp_all
  ultimately show ?thesis using p2_pos [of "- 1074"] by linarith
qed

lemma f_round_mono: "x \<le> y \<Longrightarrow> f_le (f_round x) (f_round y)"
  using rnd_mono [of x y] by (auto simp: f_round_def Let_def f_le_def f_eq_def)

lemma f_round_not_NaN [simp]: "f_round x \<noteq> NaN"
  by (simp add: f_round_def Let_def)

lemma f_round_Fin: "f_round y = Fin x \<Longrightarrow> rnd x = x \<and> \<bar>x\<bar> < 2 ^ 1024"
  by (auto simp: f_round_def Let_def abs_less_iff split: if_splits)

lemma f_div_Fin: "f_div a b = Fin x \<Longrightarrow> rnd x = x \<and> \<bar>x\<bar> < 2 ^ 1024"
  by (cases a; cases b) (auto simp: f_div_def f_inf_def split: if_splits dest: f_round_Fin)

lemma rnd_error_ge1: "1 \<le> x \<Longrightarrow> \<bar>rnd x - x\<bar> \<le> x / 2 ^ 53"
proof -
  assume x: "1 \<le> x"
  have "p2 (- 1022) \<le> p2 0" by (rule p2_mono) simp
  also have "\<dots> \<le> \<bar>x\<bar>" using x by simp
  finally show ?thesis using rnd_error [of x] x by simp
qed

lemma sint_f_to_i64: "0 \<le> x \<Longrightarrow> x \<le> 2 ^ 53 \<Longrightarrow> sint (f_to_i64 (Fin x)) = \<lfloor>x\<rfloor>"
proof -
  assume x: "0 \<le> x" "x \<le> 2 ^ 53"
  have "\<lfloor>x\<rfloor> \<le> \<lfloor>2 ^ 53 :: rat\<rfloor>" using x by (intro floor_mono)
  then have f: "0 \<le> \<lfloor>x\<rfloor>" "\<lfloor>x\<rfloor> < 2 ^ 63" using x by simp_all
  then have "sint (word_of_int \<lfloor>x\<rfloor> :: i64) = \<lfloor>x\<rfloor>" by (intro sint_word_of_int_i64) simp_all
  then show ?thesis using x f by (simp add: f_to_i64_def trunc_def Let_def)
qed

section \<open>Durations\<close>

text \<open>\<open>time.Duration.Seconds\<close> splits off the whole seconds first.\<close>

definition duration_seconds :: "duration \<Rightarrow> float64" where
  "duration_seconds d =
    f_add (f_of_int (sint d sdiv 1000000000)) (f_div (f_of_int (sint d smod 1000000000)) (f_of_int 1000000000))"

lemma sint_sdiv_smod: "0 \<le> sint d \<Longrightarrow> sint d sdiv 1000000000 = sint d div 1000000000 \<and> sint d smod 1000000000 = sint d mod 1000000000"
  for d :: duration
  by (simp add: signed_divide_int_def signed_modulo_int_def minus_mult_div_eq_mod sgn_if)

definition seconds :: "int \<Rightarrow> rat" where
  "seconds n = rnd (of_int (n div 1000000000) + rnd (of_int (n mod 1000000000) / 1000000000))"

lemma rnd_unit: "0 \<le> x \<Longrightarrow> x \<le> 1 \<Longrightarrow> 0 \<le> rnd x \<and> rnd x \<le> 1"
  using rnd_mono [of x 1] rnd_of_int [of 1] by (simp add: rnd_nonneg)

lemma seconds_fraction: "0 \<le> rnd (of_int (n mod 1000000000) / 1000000000) \<and> rnd (of_int (n mod 1000000000) / 1000000000) \<le> 1"
  using pos_mod_bound [of 1000000000 n] pos_mod_sign [of 1000000000 n] by (intro rnd_unit) simp_all

lemma seconds_mono: "m \<le> n \<Longrightarrow> seconds m \<le> seconds n"
proof -
  assume mn: "m \<le> n"
  let ?q = "\<lambda>n. n div 1000000000 :: int" and ?f = "\<lambda>n. rnd (of_int (n mod 1000000000) / 1000000000)"
  have q: "?q m \<le> ?q n" using mn by (simp add: zdiv_mono1)
  show ?thesis
  proof (cases "?q m = ?q n")
    case True
    then have "m mod 1000000000 \<le> n mod 1000000000"
      using mn by (metis add_le_cancel_left mult_div_mod_eq)
    then have "?f m \<le> ?f n" by (intro rnd_mono) (simp add: divide_right_mono)
    then show ?thesis using True by (simp add: seconds_def rnd_mono)
  next
    case False
    then have "of_int (?q m) + 1 \<le> (of_int (?q n) :: rat)" using q by linarith
    then have "of_int (?q m) + ?f m \<le> of_int (?q n) + ?f n"
      using seconds_fraction [of m] seconds_fraction [of n] by linarith
    then show ?thesis by (simp add: seconds_def rnd_mono)
  qed
qed

lemma seconds_bounds:
  assumes "0 \<le> n" and "n < 2 ^ 63"
  shows "0 \<le> seconds n" and "seconds n \<le> 2 ^ 53"
proof -
  have q: "0 \<le> n div 1000000000" "n div 1000000000 \<le> 2 ^ 34" using assms by simp_all
  then have r: "(0 :: rat) \<le> of_int (n div 1000000000)" "of_int (n div 1000000000) \<le> (of_int (2 ^ 34) :: rat)"
    by (simp_all only: of_int_0_le_iff of_int_le_iff)
  then show "0 \<le> seconds n" using seconds_fraction [of n] by (simp add: seconds_def rnd_nonneg)
  have "seconds n \<le> rnd (of_int (2 ^ 53))"
    unfolding seconds_def by (intro rnd_mono) (use r(2) seconds_fraction [of n] in simp)
  then show "seconds n \<le> 2 ^ 53" using rnd_of_int [of "2 ^ 53"] by simp
qed

lemma f_round_bounded: "\<bar>rnd x\<bar> \<le> 2 ^ 53 \<Longrightarrow> f_round x = Fin (rnd x)"
  by (rule f_round_small, erule le_less_trans) simp

lemma duration_seconds_nonneg:
  assumes "0 \<le> sint d"
  shows "duration_seconds d = Fin (seconds (sint d))"
proof -
  have lt: "sint d < 2 ^ 63" by (rule i64_sint_upper)
  have m: "0 \<le> sint d mod 1000000000" "sint d mod 1000000000 < 1000000000" by simp_all
  have q: "0 \<le> sint d div 1000000000" "sint d div 1000000000 < 10000000000" using assms lt by simp_all
  define r :: rat where "r = of_int (sint d mod 1000000000) / 1000000000"
  have "\<bar>rnd r\<bar> \<le> 1" using seconds_fraction [of "sint d"] unfolding r_def by linarith
  then have "\<bar>rnd r\<bar> \<le> 2 ^ 53" by (rule order_trans) simp
  then have fr: "f_round r = Fin (rnd r)" by (rule f_round_bounded)
  have e: "f_of_int (sint d mod 1000000000) = Fin (of_int (sint d mod 1000000000))"
    "f_of_int 1000000000 = Fin 1000000000"
    "f_of_int (sint d div 1000000000) = Fin (of_int (sint d div 1000000000))"
    using m q f_of_int_exact [of 1000000000] by (simp_all add: f_of_int_exact)
  have "f_div (f_of_int (sint d mod 1000000000)) (f_of_int 1000000000) = Fin (rnd r)"
    unfolding e using fr by (simp add: f_div_def r_def)
  moreover have "\<bar>seconds (sint d)\<bar> \<le> 2 ^ 53" using seconds_bounds [OF assms lt] by linarith
  then have "f_round (of_int (sint d div 1000000000) + rnd r) = Fin (seconds (sint d))"
    unfolding seconds_def r_def by (rule f_round_bounded)
  ultimately show ?thesis
    using sint_sdiv_smod [OF assms] e(3) by (simp add: duration_seconds_def)
qed

lemma seconds_pos: "0 < n \<Longrightarrow> 0 < seconds n"
proof -
  assume n: "0 < n"
  have "rnd (of_int 1 * p2 (- 60)) \<le> rnd (of_int (n mod 1000000000) / 1000000000)" if "n div 1000000000 = 0"
  proof (rule rnd_mono)
    have "1 \<le> n mod 1000000000" using that n mult_div_mod_eq [of 1000000000 n] by simp
    then have "(1 :: rat) \<le> of_int (n mod 1000000000)" by linarith
    then show "of_int 1 * p2 (- 60) \<le> of_int (n mod 1000000000) / (1000000000 :: rat)" by (simp add: p2_def)
  qed
  then have f: "n div 1000000000 = 0 \<Longrightarrow> p2 (- 60) \<le> rnd (of_int (n mod 1000000000) / 1000000000)"
    using rnd_exact [of 1 "- 60"] by simp
  have "p2 (- 60) \<le> of_int (n div 1000000000) + rnd (of_int (n mod 1000000000) / 1000000000)"
  proof (cases "n div 1000000000 = 0")
    case False
    then have "1 \<le> n div 1000000000" using n by (simp add: pos_imp_zdiv_pos_iff int_one_le_iff_zero_less)
    then have "(1 :: rat) \<le> of_int (n div 1000000000)" by linarith
    moreover have "p2 (- 60) \<le> 1" by (simp add: p2_def)
    ultimately show ?thesis using seconds_fraction [of n] by linarith
  qed (use f in simp)
  then have "rnd (of_int 1 * p2 (- 60)) \<le> seconds n" unfolding seconds_def by (intro rnd_mono) simp
  then have "p2 (- 60) \<le> seconds n" using rnd_exact [of 1 "- 60"] by simp
  then show ?thesis using p2_pos [of "- 60"] by linarith
qed

end
