(* ===== verification/Go_Duration.thy ===== *)
theory Go_Duration
  imports Float64 Go_Strings
begin

text \<open>
  \<open>time.ParseDuration\<close> and \<open>time.Duration.String\<close> (Go 1.22), which flags, histogram buckets
  and reports read and print durations with, and \<open>Duration.Round\<close>.
\<close>

section \<open>Parsing\<close>

definition is_digit :: "char \<Rightarrow> bool" where
  "is_digit c \<longleftrightarrow> digit_val c \<noteq> None"

text \<open>\<open>leadingInt\<close>: the value of the leading digits and what follows, \<open>None\<close> beyond \<open>2\<^sup>6\<^sup>3\<close>.\<close>

fun leading_int :: "nat \<Rightarrow> string \<Rightarrow> (nat \<times> string) option" where
  "leading_int x [] = Some (x, [])"
| "leading_int x (c # s) =
    (case digit_val c of
       None \<Rightarrow> Some (x, c # s)
     | Some d \<Rightarrow>
         if 2 ^ 63 div 10 < x then None
         else if 2 ^ 63 < x * 10 + d then None
         else leading_int (x * 10 + d) s)"

text \<open>\<open>leadingFraction\<close>: digits beyond the precision of 63 bits are dropped.\<close>

fun leading_fraction :: "nat \<Rightarrow> float64 \<Rightarrow> bool \<Rightarrow> string \<Rightarrow> nat \<times> float64 \<times> string" where
  "leading_fraction x scale overflow [] = (x, scale, [])"
| "leading_fraction x scale overflow (c # s) =
    (case digit_val c of
       None \<Rightarrow> (x, scale, c # s)
     | Some d \<Rightarrow>
         if overflow \<or> (2 ^ 63 - 1) div 10 < x \<or> 2 ^ 63 < x * 10 + d
         then leading_fraction x scale True s
         else leading_fraction (x * 10 + d) (f_mul scale (Fin 10)) False s)"

definition duration_units :: "(string \<times> nat) list" where
  "duration_units =
    [(''ns'', 1), (''us'', 1000), ([CHR 0xC2, CHR 0xB5, CHR ''s''], 1000), ([CHR 0xCE, CHR 0xBC, CHR ''s''], 1000),
     (''ms'', 1000000), (''s'', 1000000000), (''m'', 60000000000), (''h'', 3600000000000)]"

lemma leading_int_length: "leading_int x s = Some (y, r) \<Longrightarrow> length r \<le> length s"
  by (induction x s rule: leading_int.induct) (auto split: option.splits if_splits)

lemma leading_fraction_length: "leading_fraction x sc ov s = (y, sc', r) \<Longrightarrow> length r \<le> length s"
  by (induction x sc ov s rule: leading_fraction.induct) (auto split: option.splits if_splits)

text \<open>One number with its unit: the nanoseconds it adds and what follows.\<close>

definition unit_char :: "char \<Rightarrow> bool" where
  "unit_char c \<longleftrightarrow> \<not> (c = CHR ''.'' \<or> is_digit c)"

definition duration_term :: "string \<Rightarrow> (nat \<times> string) option" where
  "duration_term s =
    (if s = [] \<or> unit_char (hd s) then None
     else case leading_int 0 s of
       None \<Rightarrow> None
     | Some (v, s1) \<Rightarrow>
         let pre = (length s1 \<noteq> length s);
             (f, scale, s2, post) =
               (if s1 \<noteq> [] \<and> hd s1 = CHR ''.'' then
                  (case leading_fraction 0 (Fin 1) False (tl s1) of
                     (f, scale, s2) \<Rightarrow> (f, scale, s2, length s2 \<noteq> length (tl s1)))
                else (0, Fin 1, s1, False)) in
         if \<not> pre \<and> \<not> post then None
         else
           let u = takeWhile unit_char s2;
               s3 = dropWhile unit_char s2 in
           if u = [] then None
           else case map_of duration_units u of
             None \<Rightarrow> None
           | Some unit \<Rightarrow>
               if 2 ^ 63 div unit < v then None
               else
                 let v1 = v * unit;
                     v2 = (if 0 < f
                           then v1 + unat (f_to_u64 (f_mul (f_of_int (int f)) (f_div (f_of_int (int unit)) scale)))
                           else v1) in
                 if 0 < f \<and> 2 ^ 63 < v2 then None else Some (v2, s3))"

lemma duration_term_length: "duration_term s = Some (v, r) \<Longrightarrow> length r < length s"
proof -
  assume t: "duration_term s = Some (v, r)"
  have drop: "takeWhile P l \<noteq> [] \<Longrightarrow> length (dropWhile P l) < length l" for P and l :: string
    by (cases l) (auto simp: le_imp_less_Suc length_dropWhile_le split: if_splits)
  from t show ?thesis
    using drop leading_int_length leading_fraction_length
    unfolding duration_term_def Let_def
    by (fastforce split: if_splits option.splits prod.splits)
qed

function duration_terms :: "nat \<Rightarrow> string \<Rightarrow> nat option" where
  "duration_terms d s =
    (if s = [] then Some d
     else case duration_term s of
       None \<Rightarrow> None
     | Some (v, r) \<Rightarrow>
         let d' = (d + v) mod 2 ^ 64 in if 2 ^ 63 < d' then None else duration_terms d' r)"
  by pat_completeness auto
termination by (relation "measure (\<lambda>(d, s). length s)") (auto dest: duration_term_length)

declare duration_terms.simps [simp del]

definition parse_duration :: "string \<Rightarrow> duration option" where
  "parse_duration orig =
    (let neg = (orig \<noteq> [] \<and> hd orig = CHR ''-'');
         s = (if orig \<noteq> [] \<and> (hd orig = CHR ''-'' \<or> hd orig = CHR ''+'') then tl orig else orig) in
     if s = ''0'' then Some 0
     else if s = [] then None
     else case duration_terms 0 s of
       None \<Rightarrow> None
     | Some d \<Rightarrow>
         if neg then Some (- of_nat d) else if 2 ^ 63 - 1 < d then None else Some (of_nat d))"

section \<open>Printing\<close>

text \<open>\<open>fmtFrac\<close>: the last \<open>prec\<close> digits as a fraction without trailing zeros, and the rest.\<close>

fun fmt_frac :: "nat \<Rightarrow> nat \<Rightarrow> string \<Rightarrow> bool \<Rightarrow> string \<times> nat" where
  "fmt_frac v 0 acc printed = ((if printed then CHR ''.'' # acc else acc), v)"
| "fmt_frac v (Suc prec) acc printed =
    (let digit = v mod 10; printed' = (printed \<or> digit \<noteq> 0) in
     fmt_frac (v div 10) prec (if printed' then digit_char digit # acc else acc) printed')"

definition duration_string :: "duration \<Rightarrow> string" where
  "duration_string d =
    (let u = nat \<bar>sint d\<bar>; sign = (if sint d < 0 then ''-'' else []) in
     if u = 0 then ''0s''
     else if u < 1000000000 then
       (let (prec, unit) =
          (if u < 1000 then (0, ''ns'') else if u < 1000000 then (3, [CHR 0xC2, CHR 0xB5, CHR ''s'']) else (6, ''ms''));
          (frac, w) = fmt_frac u prec [] False in
        sign @ format_nat w @ frac @ unit)
     else
       (let (frac, w) = fmt_frac u 9 [] False;
            secs = format_nat (w mod 60) @ frac @ ''s'';
            mins = w div 60 in
        if mins = 0 then sign @ secs
        else if mins div 60 = 0 then sign @ format_nat (mins mod 60) @ ''m'' @ secs
        else sign @ format_nat (mins div 60) @ ''h'' @ format_nat (mins mod 60) @ ''m'' @ secs))"

section \<open>Rounding\<close>

text \<open>\<open>Duration.Round(m)\<close>: to the nearest multiple, halves away from zero, saturating.\<close>

definition duration_round :: "duration \<Rightarrow> duration \<Rightarrow> duration" where
  "duration_round d m =
    (if sint m \<le> 0 then d
     else
       let r = sint d smod sint m in
       if sint d < 0 then
         (if - r + - r < sint m then word_of_int (sint d - r)
          else let d1 = sint d - r - sint m in if d1 < - (2 ^ 63) then - (2 ^ 63) else word_of_int d1)
       else
         (if r + r < sint m then word_of_int (sint d - r)
          else let d1 = sint d - r + sint m in if 2 ^ 63 \<le> d1 then max_int64 else word_of_int d1))"

text \<open>Whole numbers with one unit read as expected.\<close>

lemma leading_int_format:
  assumes "n \<le> 2 ^ 63" and "rest \<noteq> []" and "digit_val (hd rest) = None"
  shows "leading_int 0 (format_nat n @ rest) = Some (n, rest)"
proof -
  have app: "leading_int x (format_nat n @ s) = leading_int (x * 10 ^ length (format_nat n) + n) s"
    if "x * 10 ^ length (format_nat n) + n \<le> 2 ^ 63" for x s
    using that
  proof (induction n arbitrary: s rule: format_nat.induct)
    case (1 n)
    show ?case
    proof (cases "n < 10")
      case True
      then have f: "format_nat n = [digit_char n]" by (simp add: format_nat.simps [of n])
      have "x \<le> 2 ^ 63 div 10" using "1.prems" f by simp
      then show ?thesis using True "1.prems" f by simp
    next
      case False
      let ?y = "x * 10 ^ length (format_nat (n div 10)) + n div 10"
      have f: "format_nat n = format_nat (n div 10) @ [digit_char (n mod 10)]"
        using False by (simp add: format_nat.simps [of n])
      have e: "x * 10 ^ length (format_nat n) + n = ?y * 10 + n mod 10"
        by (simp add: f algebra_simps)
      have y: "?y * 10 + n mod 10 \<le> 2 ^ 63" using "1.prems" by (simp only: e)
      then have "leading_int x (format_nat (n div 10) @ digit_char (n mod 10) # s) =
          leading_int ?y (digit_char (n mod 10) # s)"
        using "1.IH" False by (intro "1.IH") simp_all
      also have "\<dots> = leading_int (?y * 10 + n mod 10) s"
      proof -
        have "?y \<le> 2 ^ 63 div 10" using y by simp
        then show ?thesis using y by (simp add: not_less del: mult_Suc_right)
      qed
      finally show ?thesis unfolding e by (simp only: f append_assoc append_Cons append_Nil)
    qed
  qed
  have "leading_int 0 (format_nat n @ rest) = leading_int n rest"
    using app [of 0 rest] assms(1) by simp
  then show ?thesis using assms(2,3) by (cases rest) simp_all
qed

lemma duration_units_ascii: "list_all (\<lambda>(u, k). u \<noteq> [] \<and> 0 < k \<and> list_all unit_char u) duration_units"
  by (simp add: duration_units_def unit_char_def is_digit_def digit_val_def)

lemma duration_unit:
  assumes "(u, k) \<in> set duration_units"
  shows "u \<noteq> []" and "0 < k" and "list_all unit_char u" and "map_of duration_units u = Some k"
proof -
  have "distinct (map fst duration_units)" by (simp add: duration_units_def)
  then show "map_of duration_units u = Some k" using assms by simp
  show "u \<noteq> []" "0 < k" "list_all unit_char u"
    using assms duration_units_ascii by (auto simp: list_all_iff)
qed

lemma format_nat_hd: "\<exists>d < 10. hd (format_nat n) = digit_char d"
  using format_nat_digits [of "hd (format_nat n)" n] hd_in_set [OF format_nat_not_Nil, of n] by blast

lemma is_digit_char [simp]: "d < 10 \<Longrightarrow> is_digit (digit_char d)"
  by (simp add: is_digit_def)

lemma duration_term_whole:
  assumes "(u, k) \<in> set duration_units" and "n * k \<le> 2 ^ 63"
  shows "duration_term (format_nat n @ u) = Some (n * k, [])"
proof -
  note u = duration_unit [OF assms(1)]
  have "n * 1 \<le> n * k" using u(2) by (intro mult_le_mono2) simp
  then have n: "n \<le> 2 ^ 63" using assms(2) by linarith
  have hd_u: "hd u \<noteq> CHR ''.''" "\<not> is_digit (hd u)" using u(1,3) by (cases u; simp add: unit_char_def)+
  then have "leading_int 0 (format_nat n @ u) = Some (n, u)"
    using leading_int_format [OF n u(1)] by (simp add: is_digit_def)
  moreover have "hd (format_nat n @ u) = hd (format_nat n)" by simp
  moreover have "\<not> unit_char (hd (format_nat n))" using format_nat_hd [of n] by (auto simp: unit_char_def)
  moreover have "takeWhile unit_char u = u"
    "dropWhile unit_char u = []"
    using u(3) by (simp_all add: list_all_iff)
  moreover have "\<not> 2 ^ 63 div k < n" using assms(2) u(2) by (simp add: not_less less_eq_div_iff_mult_less_eq)
  ultimately show ?thesis
    using hd_u u(1,4) unfolding duration_term_def
    by (simp add: Let_def del: takeWhile_eq_all_conv dropWhile_eq_Nil_conv)
qed

lemma parse_duration_whole:
  assumes "(u, k) \<in> set duration_units" and "n * k < 2 ^ 63"
  shows "parse_duration (format_nat n @ u) = Some (of_nat (n * k))"
proof -
  obtain d where d: "d < 10" "hd (format_nat n) = digit_char d" using format_nat_hd by blast
  have "duration_terms 0 (format_nat n @ u) = Some (n * k)"
    using duration_term_whole [OF assms(1), of n] assms(2)
    by (subst duration_terms.simps) (simp add: duration_terms.simps [of _ "[]"] Let_def)
  moreover have "format_nat n @ u \<noteq> ''0''"
  proof
    assume e: "format_nat n @ u = ''0''"
    have "last u = last (format_nat n @ u)" using duration_unit(1) [OF assms(1)] by simp
    also have "\<dots> = CHR ''0''" by (simp only: e) simp
    finally have "is_digit (last u)" by (simp add: is_digit_def digit_val_def)
    moreover have "last u \<in> set u" using duration_unit(1) [OF assms(1)] by simp
    ultimately show False using duration_unit(3) [OF assms(1)] by (auto simp: list_all_iff unit_char_def)
  qed
  ultimately show ?thesis
    using d assms(2) by (simp add: parse_duration_def Let_def)
qed

end
