(* ===== verification/Const_Pacer.thy ===== *)
theory Const_Pacer
  imports Go_Base "HOL-Library.Extended_Nat"
begin

text \<open>
  \<open>lib/pacer.go\<close>: the \<open>Pacer\<close> interface and \<open>ConstantPacer\<close>, with Go's 64-bit arithmetic
  and its run-time panic on division by zero. \<open>pacer_contract\<close> is what the attack loop
  relies on: a schedule (\<open>budget t\<close>, the hits allowed by elapsed time \<open>t\<close>) that the waits a
  pacer returns never run ahead of, as long as fewer than \<open>limit\<close> hits were sent.
\<close>

section \<open>The pacer interface\<close>

locale pacer_contract =
  fixes pace :: "duration \<Rightarrow> u64 \<Rightarrow> (duration \<times> bool) go"
    and budget :: "int \<Rightarrow> enat"
    and limit :: nat
  assumes budget_mono: "0 \<le> t \<Longrightarrow> t \<le> t' \<Longrightarrow> budget t \<le> budget t'"
    and on_schedule: "0 \<le> sint e \<Longrightarrow> unat h < limit \<Longrightarrow> pace e h = Inr (w, False) \<Longrightarrow>
      enat (unat h + 1) \<le> budget (sint e + max 0 (sint w))"
begin

lemma sent_after_wait_on_schedule:
  assumes "0 \<le> sint e" and "unat h < limit" and "pace e h = Inr (w, False)"
    and "sint e + max 0 (sint w) \<le> t"
  shows "enat (unat h + 1) \<le> budget t"
  using on_schedule [OF assms(1-3)] budget_mono [of "sint e + max 0 (sint w)" t] assms
  by (meson add_nonneg_nonneg max.cobounded1 order_trans)

end

section \<open>ConstantPacer\<close>

record constant_pacer =
  Freq :: i64
  Per :: duration

definition constant_pace :: "constant_pacer \<Rightarrow> duration \<Rightarrow> u64 \<Rightarrow> (duration \<times> bool) go" where
  "constant_pace cp elapsed hits =
    (if Per cp = 0 \<or> Freq cp = 0 then Inr (0, False)
     else if Per cp <s 0 \<or> Freq cp <s 0 then Inr (0, True)
     else go_bind (i64_div elapsed (Per cp)) (\<lambda>periods.
       let expectedHits = Freq cp * periods in
       if hits < expectedHits then Inr (0, False)
       else go_bind (i64_div (Per cp) (Freq cp)) (\<lambda>interval.
         go_bind (u64_div max_int64 interval) (\<lambda>bound.
           if bound < hits then Inr (0, True)
           else let delta = (hits + 1) * interval in Inr (delta - elapsed, False)))))"

text \<open>The quantities of \<open>constant_pace\<close> as integers.\<close>

definition pace_interval :: "constant_pacer \<Rightarrow> int" where
  "pace_interval cp = sint (Per cp) div sint (Freq cp)"

definition expected_hits :: "constant_pacer \<Rightarrow> duration \<Rightarrow> u64" where
  "expected_hits cp elapsed = Freq cp * word_of_int (sint elapsed sdiv sint (Per cp))"

definition valid_rate :: "constant_pacer \<Rightarrow> bool" where
  "valid_rate cp \<longleftrightarrow> 0 < sint (Freq cp) \<and> 0 < sint (Per cp)"

lemma valid_rate_words:
  assumes "valid_rate cp"
  shows "Freq cp \<noteq> 0" "Per cp \<noteq> 0" "\<not> Per cp <s 0" "\<not> Freq cp <s 0"
  using assms by (auto simp: valid_rate_def word_sless_alt)

lemma pace_interval_range:
  assumes "valid_rate cp"
  shows "0 \<le> pace_interval cp" and "pace_interval cp < 2 ^ 63"
    and "i64_div (Per cp) (Freq cp) = Inr (word_of_int (pace_interval cp))"
    and "uint (word_of_int (pace_interval cp) :: i64) = pace_interval cp"
proof -
  show nn: "0 \<le> pace_interval cp"
    using assms by (simp add: pace_interval_def valid_rate_def pos_imp_zdiv_nonneg_iff)
  have "pace_interval cp \<le> sint (Per cp)"
    using assms zdiv_mono2 [of "sint (Per cp)" 1 "sint (Freq cp)"]
    by (simp add: pace_interval_def valid_rate_def)
  then show up: "pace_interval cp < 2 ^ 63" using i64_sint_upper [of "Per cp"] by linarith
  show "i64_div (Per cp) (Freq cp) = Inr (word_of_int (pace_interval cp))"
    using assms sint_i64_div(1) [of "Per cp" "Freq cp"]
    by (simp add: pace_interval_def valid_rate_def)
  show "uint (word_of_int (pace_interval cp) :: i64) = pace_interval cp"
    using nn up by (simp add: uint_word_of_int)
qed

lemma unat_pace_interval:
  assumes "valid_rate cp"
  shows "unat (word_of_int (pace_interval cp) :: i64) = nat (pace_interval cp)"
  using pace_interval_range(4) [OF assms] by (simp add: unat_eq_nat_uint)

text \<open>One equation for a valid rate.\<close>

lemma constant_pace_valid:
  assumes "valid_rate cp"
  shows "constant_pace cp e h =
    (if h < expected_hits cp e then Inr (0, False)
     else if pace_interval cp = 0 then Inl DivideByZero
     else if (2 ^ 63 - 1) div nat (pace_interval cp) < unat h then Inr (0, True)
     else Inr ((h + 1) * word_of_int (pace_interval cp) - e, False))"
proof -
  let ?I = "word_of_int (pace_interval cp) :: i64"
  have "i64_div e (Per cp) = Inr (word_of_int (sint e sdiv sint (Per cp)))"
    using assms by (auto simp: valid_rate_def i64_div_def)
  moreover have "?I = 0 \<longleftrightarrow> pace_interval cp = 0"
    using pace_interval_range(4) [OF assms] by (metis of_int_0 unsigned_0)
  moreover have "max_int64 div ?I < h \<longleftrightarrow> (2 ^ 63 - 1) div nat (pace_interval cp) < unat h"
    by (simp add: word_less_nat_alt unat_div unat_max_int64 unat_pace_interval [OF assms]
        del: of_int_eq_0_iff)
  ultimately show ?thesis
    using valid_rate_words [OF assms] pace_interval_range(3) [OF assms]
    by (simp add: constant_pace_def expected_hits_def u64_div_def Let_def del: of_int_eq_0_iff)
qed


lemma constant_pace_invalid:
  assumes "\<not> valid_rate cp"
  shows "constant_pace cp e h = Inr (0, Per cp \<noteq> 0 \<and> Freq cp \<noteq> 0)"
  using assms
  by (auto simp: constant_pace_def valid_rate_def word_sless_alt not_less order_le_less)

lemma unat_expected_hits:
  assumes "valid_rate cp" and "0 \<le> sint e"
  shows "int (unat (expected_hits cp e)) \<le> sint (Freq cp) * (sint e div sint (Per cp))"
proof -
  let ?q = "word_of_int (sint e div sint (Per cp)) :: i64"
  have q: "sint ?q = sint e div sint (Per cp)" and nn: "0 \<le> sint e div sint (Per cp)"
    using assms sint_i64_div(2) [of e "Per cp"]
    by (simp_all add: valid_rate_def pos_imp_zdiv_nonneg_iff)
  have "unat (Freq cp * ?q) \<le> unat (Freq cp) * unat ?q"
    by (simp add: unat_word_ariths)
  then have "int (unat (Freq cp * ?q)) \<le> int (unat (Freq cp)) * int (unat ?q)"
    by (metis of_nat_le_iff of_nat_mult)
  moreover have "int (unat (Freq cp)) = sint (Freq cp)" "int (unat ?q) = sint e div sint (Per cp)"
    using assms nn q unat_eq_sint_i64 [of ?q] unat_eq_sint_i64 [of "Freq cp"]
    by (simp_all only: valid_rate_def) simp_all
  ultimately show ?thesis
    using assms by (simp add: expected_hits_def sdiv_nonneg valid_rate_def)
qed

text \<open>The wait as an integer: exact unless the next hit is due beyond \<open>math.MaxInt64\<close>
  nanoseconds from now.\<close>

lemma sint_pace_wait:
  fixes e :: duration and h :: u64
  assumes "valid_rate cp" and "0 \<le> sint e" and "0 < pace_interval cp"
    and "unat h \<le> (2 ^ 63 - 1) div nat (pace_interval cp)"
  defines "d \<equiv> (int (unat h) + 1) * pace_interval cp - sint e"
  shows "sint ((h + 1) * word_of_int (pace_interval cp) - e) = (if d < 2 ^ 63 then d else d - 2 ^ 64)"
proof -
  let ?I = "pace_interval cp"
  define X where "X = int (unat h) * ?I"
  have "X \<le> 2 ^ 63 - 1"
  proof -
    have "unat h * nat ?I \<le> 2 ^ 63 - 1"
      using mult_le_mono1 [OF assms(4), of "nat ?I"] by (meson div_times_less_eq_dividend order_trans)
    then have "int (unat h * nat ?I) \<le> int (2 ^ 63 - 1)" by (simp only: of_nat_le_iff)
    then show ?thesis using assms(3) by (simp add: X_def)
  qed
  moreover have "0 \<le> X" using assms(3) by (simp add: X_def)
  moreover have "d = X + ?I - sint e" by (simp add: d_def X_def algebra_simps)
  ultimately have bounds: "- (2 ^ 63) \<le> d" "d < 2 ^ 64"
    using assms(2,3) pace_interval_range(2) [OF assms(1)] i64_sint_upper [of e] by simp_all
  have w: "(h + 1) * word_of_int ?I - e = word_of_int d"
    by (simp add: d_def)
  show ?thesis
  proof (cases "d < 2 ^ 63")
    case True
    with bounds show ?thesis by (simp only: w if_True) (rule sint_word_of_int_i64)
  next
    case False
    have "(word_of_int d :: i64) = word_of_int (d - 2 ^ 64)"
      by (simp add: word_of_int_eq_iff take_bit_eq_mod mod_diff_right_eq)
    moreover have "sint (word_of_int (d - 2 ^ 64) :: i64) = d - 2 ^ 64"
      by (rule sint_word_of_int_i64) (use False bounds in simp_all)
    ultimately show ?thesis using False by (simp only: w if_False)
  qed
qed


section \<open>The schedule of ConstantPacer\<close>

text \<open>
  By elapsed time \<open>t\<close> a constant rate allows one hit per interval \<open>Per / Freq\<close>; a rate
  whose interval truncates to zero nanoseconds allows \<open>Freq\<close> hits per whole period, and a
  zero rate is unlimited.
\<close>

definition constant_budget :: "constant_pacer \<Rightarrow> int \<Rightarrow> enat" where
  "constant_budget cp t =
    (if Per cp = 0 \<or> Freq cp = 0 then \<infinity>
     else if \<not> valid_rate cp then 0
     else if pace_interval cp = 0 then enat (nat (sint (Freq cp) * (t div sint (Per cp))))
     else enat (nat (t div pace_interval cp)))"

definition constant_limit :: "constant_pacer \<Rightarrow> nat" where
  "constant_limit cp =
    (if pace_interval cp \<le> 0 then 2 ^ 64 else (2 ^ 63 - 1) div nat (pace_interval cp))"

lemma periods_le_intervals:
  assumes "valid_rate cp" and "0 < pace_interval cp" and "0 \<le> t"
  shows "sint (Freq cp) * (t div sint (Per cp)) \<le> t div pace_interval cp"
proof -
  have pos: "0 < sint (Per cp)" "0 < sint (Freq cp)" using assms(1) by (simp_all add: valid_rate_def)
  have q: "0 \<le> t div sint (Per cp)" using assms(3) pos by (simp add: pos_imp_zdiv_nonneg_iff)
  have "pace_interval cp * sint (Freq cp) \<le> sint (Per cp)"
    unfolding pace_interval_def using pos by (simp add: div_mult2_eq flip: minus_mod_eq_div_mult)
  then have "pace_interval cp * sint (Freq cp) * (t div sint (Per cp)) \<le> sint (Per cp) * (t div sint (Per cp))"
    using q by (rule mult_right_mono)
  also have "\<dots> \<le> t"
    using pos minus_mod_eq_mult_div [of t "sint (Per cp)"] pos_mod_sign [of "sint (Per cp)" t]
    by linarith
  finally have "sint (Freq cp) * (t div sint (Per cp)) * pace_interval cp \<le> t"
    by (simp add: ac_simps)
  then show ?thesis using assms(2) by (simp add: int_le_div_iff)
qed


lemma constant_budget_mono:
  assumes "0 \<le> t" and "t \<le> t'"
  shows "constant_budget cp t \<le> constant_budget cp t'"
proof (cases "valid_rate cp")
  case True
  then have "sint (Freq cp) * (t div sint (Per cp)) \<le> sint (Freq cp) * (t' div sint (Per cp))"
    using assms by (simp add: valid_rate_def zdiv_mono1)
  moreover have "pace_interval cp \<noteq> 0 \<Longrightarrow> t div pace_interval cp \<le> t' div pace_interval cp"
    using pace_interval_range(1) [OF True] assms by (simp add: zdiv_mono1)
  ultimately show ?thesis by (auto simp: constant_budget_def nat_mono)
next
  case False
  then show ?thesis by (simp add: constant_budget_def)
qed

lemma enat_le_nat: "int n \<le> k \<Longrightarrow> enat n \<le> enat (nat k)"
  by simp

lemma constant_behind_schedule:
  assumes "valid_rate cp" and "0 \<le> sint e" and "h < expected_hits cp e"
  shows "enat (unat h + 1) \<le> constant_budget cp (sint e)"
proof -
  have "unat h + 1 \<le> unat (expected_hits cp e)" using assms(3) by (simp add: word_less_nat_alt)
  then have h: "int (unat h + 1) \<le> sint (Freq cp) * (sint e div sint (Per cp))"
    using unat_expected_hits [OF assms(1,2)] by linarith
  show ?thesis
  proof (cases "pace_interval cp = 0")
    case True
    with enat_le_nat [OF h] show ?thesis
      using valid_rate_words [OF assms(1)] assms(1) by (simp only: constant_budget_def) simp
  next
    case False
    then have "0 < pace_interval cp" using pace_interval_range(1) [OF assms(1)] by simp
    with periods_le_intervals [OF assms(1) _ assms(2)] h
    have "int (unat h + 1) \<le> sint e div pace_interval cp" by linarith
    from enat_le_nat [OF this] False show ?thesis
      using valid_rate_words [OF assms(1)] assms(1) by (simp only: constant_budget_def) simp
  qed
qed

lemma constant_ahead_of_schedule:
  fixes e :: duration and h :: u64
  assumes "valid_rate cp" and "0 \<le> sint e" and "0 < pace_interval cp" and "unat h < constant_limit cp"
    and "w = (h + 1) * word_of_int (pace_interval cp) - e"
  shows "enat (unat h + 1) \<le> constant_budget cp (sint e + max 0 (sint w))"
proof -
  let ?I = "pace_interval cp"
  have le: "unat h + 1 \<le> (2 ^ 63 - 1) div nat ?I"
    using assms(3,4) by (simp add: constant_limit_def)
  have "(unat h + 1) * nat ?I \<le> 2 ^ 63 - 1"
    using mult_le_mono1 [OF le, of "nat ?I"] by (meson div_times_less_eq_dividend order_trans)
  then have "int ((unat h + 1) * nat ?I) \<le> int (2 ^ 63 - 1)" by (simp only: of_nat_le_iff)
  then have "(int (unat h) + 1) * ?I - sint e < 2 ^ 63" using assms(2,3) by (simp add: algebra_simps)
  then have "sint w = (int (unat h) + 1) * ?I - sint e"
    using sint_pace_wait [OF assms(1-3), of h] le assms(5) by simp
  then have "int (unat h + 1) * ?I \<le> sint e + max 0 (sint w)" by (simp add: algebra_simps)
  then have "int (unat h + 1) \<le> (sint e + max 0 (sint w)) div ?I"
    using assms(3) by (simp only: int_le_div_iff)
  from enat_le_nat [OF this] show ?thesis
    using valid_rate_words [OF assms(1)] assms(1,3) by (simp only: constant_budget_def) simp
qed

interpretation const_rate: pacer_contract "constant_pace cp" "constant_budget cp" "constant_limit cp"
  for cp
proof unfold_locales
  fix t t' :: int
  assume "0 \<le> t" and "t \<le> t'"
  then show "constant_budget cp t \<le> constant_budget cp t'" by (rule constant_budget_mono)
next
  fix e h w
  assume e: "0 \<le> sint e" and h: "unat h < constant_limit cp" and p: "constant_pace cp e h = Inr (w, False)"
  show "enat (unat h + 1) \<le> constant_budget cp (sint e + max 0 (sint w))"
  proof (cases "valid_rate cp")
    case False
    with p show ?thesis by (auto simp: constant_pace_invalid constant_budget_def)
  next
    case True
    with p have "h < expected_hits cp e \<and> w = 0 \<or>
        0 < pace_interval cp \<and> w = (h + 1) * word_of_int (pace_interval cp) - e"
      using pace_interval_range(1) [OF True] by (auto simp: constant_pace_valid split: if_splits)
    then show ?thesis
      using constant_behind_schedule [OF True e] constant_ahead_of_schedule [OF True e _ h] by auto
  qed
qed

section \<open>Properties\<close>

text \<open>
  C10. Behaviour of \<open>ConstantPacer.Pace\<close> on every valid rate that is not too fast: it never
  stops or waits while the attack is behind schedule; past the schedule the wait ends exactly
  when the next hit is due, \<open>(hits + 1) * interval\<close> after the start, unless that moment is
  \<open>2\<^sup>6\<^sup>3\<close> ns or more away, in which case the subtraction wraps to a negative wait (the guard
  in the code lets \<open>hits = MaxInt64 / interval\<close> pass); beyond the guard the attack stops.
\<close>

theorem constant_pace_wait_exact:
  fixes e :: duration and h :: u64
  assumes "valid_rate cp" and "0 \<le> sint e" and "0 < pace_interval cp"
  defines "due \<equiv> (int (unat h) + 1) * pace_interval cp - sint e"
  shows "h < expected_hits cp e \<and> constant_pace cp e h = Inr (0, False) \<or>
    \<not> h < expected_hits cp e \<and> (2 ^ 63 - 1) div nat (pace_interval cp) < unat h \<and>
      constant_pace cp e h = Inr (0, True) \<or>
    \<not> h < expected_hits cp e \<and> unat h \<le> (2 ^ 63 - 1) div nat (pace_interval cp) \<and>
      (\<exists>w. constant_pace cp e h = Inr (w, False) \<and>
           sint w = (if due < 2 ^ 63 then due else due - 2 ^ 64))"
  using assms constant_pace_valid [OF assms(1), of e h] sint_pace_wait [OF assms(1-3), of h]
  unfolding due_def by (cases "h < expected_hits cp e") (auto simp: not_less)

theorem constant_pace_wait_exact_witness:
  "sint (fst (projr (constant_pace \<lparr>Freq = 2, Per = 1000000000\<rparr> 4900000000 9))) = 100000000"
  using constant_pace_wait_exact [of "\<lparr>Freq = 2, Per = 1000000000\<rparr>" 4900000000 9]
  by (auto simp: valid_rate_def pace_interval_def expected_hits_def signed_divide_int_def)

text \<open>
  C11. \<open>ConstantPacer.Pace\<close> panics, with an integer division by zero, exactly when a valid
  rate asks for more hits than there are nanoseconds in its period (\<open>Freq > Per\<close>) and the
  attack is not behind schedule: the interval truncates to zero and divides
  \<open>math.MaxInt64\<close>.
\<close>

theorem constant_pace_panics_iff:
  "constant_pace cp e h = Inl p \<longleftrightarrow>
     p = DivideByZero \<and> 0 < sint (Per cp) \<and> sint (Per cp) < sint (Freq cp) \<and>
     \<not> h < expected_hits cp e"
proof (cases "valid_rate cp")
  case True
  then have "pace_interval cp = 0 \<longleftrightarrow> sint (Per cp) < sint (Freq cp)"
    by (auto simp: pace_interval_def valid_rate_def zdiv_eq_0_iff)
  with True show ?thesis
    by (auto simp: constant_pace_valid valid_rate_def)
next
  case False
  then show ?thesis by (auto simp: constant_pace_invalid valid_rate_def)
qed

end
