(* ===== verification/Results.thy ===== *)
theory Results
  imports Go_Textproto "HOL-Library.Multiset" "HOL-Library.Sublist"
begin

text \<open>
  \<open>lib/results.go\<close>: the collection \<open>Results\<close>, the CSV and JSON codecs of results, the
  detection of the encoding and the round-robin decoder. A decoder is a step function on
  the state of its closure that updates the \<open>Result\<close> it is given and may return an error;
  fields it set before an error stay set, as in the code. \<open>result_source\<close> is what the users
  of a decoder rely on; the CSV decoder provides it for every file the CSV encoder wrote.
\<close>

section \<open>Decoders\<close>

datatype decode_error =
    EOF
  | CsvError csv_error
  | NumberError num_error
  | Base64Error
  | MimeError
  | OtherError string

type_synonym 's decoder = "'s \<Rightarrow> result \<Rightarrow> 's \<times> result \<times> decode_error option"

text \<open>
  The loop of the commands around a decoder: a fresh \<open>Result\<close> each time, until an error;
  \<open>None\<close> if it never ends.
\<close>

partial_function (option) decode_all :: "'s decoder \<Rightarrow> 's \<Rightarrow> (result list \<times> decode_error) option" where
  "decode_all dec s =
    (case dec s zero_result of
       (s', r, None) \<Rightarrow>
         Option.bind (decode_all dec s') (\<lambda>(rs, e). Some (r # rs, e))
     | (s', r, Some e) \<Rightarrow> Some ([], e))"

lemma decode_all_more:
  "dec s zero_result = (s', r, None) \<Longrightarrow>
    decode_all dec s = Option.bind (decode_all dec s') (\<lambda>(rs, e). Some (r # rs, e))"
  by (subst decode_all.simps) simp

lemma decode_all_stop: "dec s zero_result = (s', r, Some e) \<Longrightarrow> decode_all dec s = Some ([], e)"
  by (subst decode_all.simps) simp

text \<open>An encoder on one value after the other, until an error.\<close>

fun encode_all :: "('w \<Rightarrow> 'a \<Rightarrow> 'w \<times> string option) \<Rightarrow> 'w \<Rightarrow> 'a list \<Rightarrow> 'w \<times> string option" where
  "encode_all enc w [] = (w, None)"
| "encode_all enc w (x # xs) =
    (case enc w x of (w', Some e) \<Rightarrow> (w', Some e) | (w', None) \<Rightarrow> encode_all enc w' xs)"

locale result_source =
  fixes dec :: "'s decoder"
    and yields :: "'s \<Rightarrow> result list \<Rightarrow> bool"
  assumes yields_Cons: "yields s (r # rs) \<Longrightarrow> \<exists>s'. dec s zero_result = (s', r, None) \<and> yields s' rs"
    and yields_Nil: "yields s [] \<Longrightarrow> \<exists>s'. dec s zero_result = (s', zero_result, Some EOF) \<and> yields s' []"
begin

lemma decode_all_yields: "yields s rs \<Longrightarrow> decode_all dec s = Some (rs, EOF)"
proof (induction rs arbitrary: s)
  case Nil
  then obtain s' where "dec s zero_result = (s', zero_result, Some EOF)" using yields_Nil by blast
  then show ?case by (rule decode_all_stop)
next
  case (Cons r rs)
  then obtain s' where "dec s zero_result = (s', r, None)" "yields s' rs" using yields_Cons by blast
  with Cons.IH show ?case by (simp add: decode_all_more)
qed

lemma yields_unique: "yields s rs \<Longrightarrow> yields s rs' \<Longrightarrow> rs = rs'"
  by (drule decode_all_yields)+ simp

end

text \<open>A decoder over a finite input: a result only ever comes with less input left, so the loop
  around it ends, whatever the bytes.\<close>

locale finite_decoder =
  fixes dec :: "'s decoder"
    and input_left :: "'s \<Rightarrow> nat"
  assumes consumes: "dec s r = (s', r', None) \<Longrightarrow> input_left s' < input_left s"
begin

lemma decode_all_returns: "\<exists>rs e. decode_all dec s = Some (rs, e)"
proof (induction "input_left s" arbitrary: s rule: less_induct)
  case less
  obtain s' r e where d: "dec s zero_result = (s', r, e)" by (cases "dec s zero_result")
  show ?case
  proof (cases e)
    case None
    then have "\<exists>rs e. decode_all dec s' = Some (rs, e)" using less consumes d by blast
    then show ?thesis using d None by (auto simp: decode_all_more)
  next
    case (Some x)
    then show ?thesis using decode_all_stop [of dec s s' r x] d by blast
  qed
qed

end

section \<open>CSV\<close>

definition header_bytes :: "header option \<Rightarrow> string" where
  "header_bytes h = (case h of None \<Rightarrow> [] | Some m \<Rightarrow> header_write m @ [cr, nl])"

definition csv_row :: "result \<Rightarrow> string list" where
  "csv_row r =
    [format_int (unix_nano (Timestamp r)),
     format_uint (ucast (Code r) :: u64),
     format_int (Latency r),
     format_uint (BytesOut r),
     format_uint (BytesIn r),
     Error r,
     b64_encode (Body r),
     Attack r,
     format_uint (Seq r),
     Method r,
     URL r,
     b64_encode (header_bytes (Headers r))]"

definition csv_encode :: "result \<Rightarrow> string" where
  "csv_encode r = csv_write (csv_row r)"

text \<open>\<open>strconv.ParseUint\<close> as assigned to a field: its value is used even with an error.\<close>

definition parse_u64 :: "string \<Rightarrow> u64 \<times> decode_error option" where
  "parse_u64 s =
    (case parse_uint 64 s of
       Inr n \<Rightarrow> (of_nat n, None)
     | Inl ErrSyntax \<Rightarrow> (0, Some (NumberError ErrSyntax))
     | Inl ErrRange \<Rightarrow> (- 1, Some (NumberError ErrRange)))"

definition csv_decode_headers :: "string \<Rightarrow> result \<Rightarrow> result \<times> decode_error option" where
  "csv_decode_headers field r =
    (if field = [] then (r, None)
     else case read_mime_header (fst (b64_decode field)) of
       None \<Rightarrow> (r, Some MimeError)
     | Some h \<Rightarrow> (r\<lparr>Headers := Some h\<rparr>, None))"

definition csv_decode_tail :: "string list \<Rightarrow> result \<Rightarrow> result \<times> decode_error option" where
  "csv_decode_tail rec r0 =
    (case parse_u64 (rec ! 3) of (bytesOut, e) \<Rightarrow>
     let r1 = r0\<lparr>BytesOut := bytesOut\<rparr> in
     if e \<noteq> None then (r1, e)
     else case parse_u64 (rec ! 4) of (bytesIn, e) \<Rightarrow>
     let r2 = r1\<lparr>BytesIn := bytesIn\<rparr> in
     if e \<noteq> None then (r2, e)
     else case b64_decode (rec ! 6) of (body, ok) \<Rightarrow>
     let r3 = r2\<lparr>Error := rec ! 5, Body := body\<rparr> in
     if \<not> ok then (r3, Some Base64Error)
     else case parse_u64 (rec ! 8) of (seq, e) \<Rightarrow>
     let r4 = r3\<lparr>Attack := rec ! 7, Seq := seq\<rparr> in
     if e \<noteq> None then (r4, e)
     else csv_decode_headers (rec ! 11) (r4\<lparr>Method := rec ! 9, URL := rec ! 10\<rparr>))"

definition csv_decode_row :: "string list \<Rightarrow> result \<Rightarrow> result \<times> decode_error option" where
  "csv_decode_row rec r =
    (case parse_int64 (rec ! 0) of
       Inl e \<Rightarrow> (r, Some (NumberError e))
     | Inr ts \<Rightarrow>
         let r1 = r\<lparr>Timestamp := time_unix ts\<rparr> in
         (case parse_uint 16 (rec ! 1) of
            Inl e \<Rightarrow> (r1, Some (NumberError e))
          | Inr code \<Rightarrow>
              let r2 = r1\<lparr>Code := of_nat code\<rparr> in
              (case parse_int64 (rec ! 2) of
                 Inl e \<Rightarrow> (r2, Some (NumberError e))
               | Inr latency \<Rightarrow> csv_decode_tail rec (r2\<lparr>Latency := latency\<rparr>))))"

definition csv_decoder :: "string decoder" where
  "csv_decoder s r =
    (case csv_read 12 s of
       (Inl CsvEOF, s') \<Rightarrow> (s', r, Some EOF)
     | (Inl e, s') \<Rightarrow> (s', r, Some (CsvError e))
     | (Inr rec, s') \<Rightarrow> (s', csv_decode_row rec r))"

text \<open>
  The results the CSV format keeps: no carriage return in the text columns (the CSV reader
  turns \<open>\r\n\<close> into \<open>\n\<close>), a timestamp within the range of \<open>UnixNano\<close> (years 1678 to 2262),
  headers as the HTTP client delivers them.
\<close>

definition csv_safe :: "result \<Rightarrow> bool" where
  "csv_safe r \<longleftrightarrow>
    cr \<notin> set (Error r) \<and> cr \<notin> set (Attack r) \<and> cr \<notin> set (Method r) \<and> cr \<notin> set (URL r) \<and>
    - (2 ^ 63) \<le> Timestamp r - unix_epoch \<and> Timestamp r - unix_epoch < 2 ^ 63 \<and>
    (case Headers r of None \<Rightarrow> True | Some h \<Rightarrow> wire_header h)"

lemma parse_u64_format [simp]: "parse_u64 (format_uint (w :: u64)) = (w, None)"
  using parse_format_uint [of w] by (simp add: parse_u64_def)

lemma format_code: "parse_uint 16 (format_uint (ucast (c :: u16) :: u64)) = Inr (unat c)"
proof -
  have "unat c < 2 ^ 64" using unsigned_less [of c] by (rule less_le_trans) simp
  then have "format_uint (ucast c :: u64) = format_uint c"
    by (simp add: format_uint_def unsigned_ucast_eq take_bit_nat_eq_self)
  then show ?thesis using parse_format_uint [of c] by simp
qed

lemma csv_decode_headers_encode:
  assumes "case h of None \<Rightarrow> True | Some m \<Rightarrow> wire_header m" and "Headers r = None"
  shows "csv_decode_headers (b64_encode (header_bytes h)) r = (r\<lparr>Headers := h\<rparr>, None)"
proof (cases h)
  case None
  then show ?thesis using assms(2) by (simp add: csv_decode_headers_def header_bytes_def)
next
  case (Some m)
  have "b64_encode (header_write m @ [cr, nl]) \<noteq> []"
    by (cases "header_write m @ [cr, nl]" rule: b64_encode.cases) (simp_all add: Let_def)
  then show ?thesis
    using Some assms read_mime_header_write [of m] by (simp add: csv_decode_headers_def header_bytes_def)
qed

lemma csv_decode_row_encode:
  assumes "csv_safe r"
  shows "csv_decode_row (csv_row r) zero_result = (r, None)"
proof -
  have h: "case Headers r of None \<Rightarrow> True | Some m \<Rightarrow> wire_header m"
    and t: "time_unix (unix_nano (Timestamp r)) = Timestamp r"
    using assms time_unix_unix_nano [of "Timestamp r"] by (simp_all add: csv_safe_def)
  show ?thesis
    by (simp add: csv_decode_row_def csv_decode_tail_def csv_row_def Let_def parse_format_int format_code
        csv_decode_headers_encode [OF h] t zero_result_def nth_Cons')
qed

lemma csv_row_no_cr:
  assumes "csv_safe r"
  shows "\<forall>f \<in> set (csv_row r). cr \<notin> set f"
proof -
  have num: "cr \<notin> set (format_nat n)" for n
  proof
    assume "cr \<in> set (format_nat n)"
    then obtain d where "d < 10" "cr = digit_char d" using format_nat_digits by blast
    then have "digit_val cr = Some d" by simp
    then show False by (simp add: digit_val_def)
  qed
  have "cr \<notin> set (b64_encode s)" for s
    using b64_encode_chars [of s] b64_alphabet_facts by auto
  with assms num show ?thesis by (simp add: csv_row_def csv_safe_def format_uint_def format_int_def)
qed

lemma csv_decode_encode:
  assumes "csv_safe r"
  shows "csv_decoder (csv_encode r @ rest) zero_result = (rest, r, None)"
proof -
  have "csv_read 12 (csv_write (csv_row r) @ rest) = (Inr (csv_row r), rest)"
    using csv_row_no_cr [OF assms]
    by (intro csv_read_write) (simp_all add: csv_row_def format_int_def)
  then show ?thesis by (simp add: csv_decoder_def csv_encode_def csv_decode_row_encode [OF assms])
qed

definition csv_yields :: "string \<Rightarrow> result list \<Rightarrow> bool" where
  "csv_yields s rs \<longleftrightarrow> list_all csv_safe rs \<and> s = concat (map csv_encode rs)"

lemma csv_decoder_eof: "csv_decoder [] r = ([], r, Some EOF)"
  by (simp add: csv_decoder_def)

interpretation csv_file: result_source csv_decoder csv_yields
  by unfold_locales (auto simp: csv_yields_def csv_decode_encode csv_decoder_eof)

interpretation csv_finite: finite_decoder csv_decoder length
  by unfold_locales
    (auto simp: csv_decoder_def csv_read_progress split: prod.splits sum.splits csv_error.splits)

section \<open>JSON\<close>

text \<open>
  One JSON object per line. Here the object's text and its parser are arguments, \<open>enc\<close> and \<open>parse\<close>;
  theory \<open>Json_Codecs\<close> models the code they stand for. The parser fills in the result it is given.
\<close>

definition json_encode :: "(result \<Rightarrow> string) \<Rightarrow> result \<Rightarrow> string" where
  "json_encode enc r = enc r @ [nl]"

definition read_bytes_nl :: "string \<Rightarrow> (string \<times> string) option" where
  "read_bytes_nl s =
    (case dropWhile (\<lambda>c. c \<noteq> nl) s of
       [] \<Rightarrow> None
     | _ # rest \<Rightarrow> Some (takeWhile (\<lambda>c. c \<noteq> nl) s @ [nl], rest))"

definition json_decoder :: "(string \<Rightarrow> result \<Rightarrow> result \<times> string option) \<Rightarrow> string decoder" where
  "json_decoder parse s r =
    (case read_bytes_nl s of
       None \<Rightarrow> ([], r, Some EOF)
     | Some (line, rest) \<Rightarrow>
         (case parse line r of (r', err) \<Rightarrow> (rest, r', map_option OtherError err)))"

definition json_yields :: "(result \<Rightarrow> string) \<Rightarrow> (string \<Rightarrow> result \<Rightarrow> result \<times> string option) \<Rightarrow>
    string \<Rightarrow> result list \<Rightarrow> bool" where
  "json_yields enc parse s rs \<longleftrightarrow>
    list_all (\<lambda>r. nl \<notin> set (enc r) \<and> parse (json_encode enc r) zero_result = (r, None)) rs \<and>
    s = concat (map (json_encode enc) rs)"

lemma read_bytes_nl_line: "nl \<notin> set l \<Longrightarrow> read_bytes_nl (l @ nl # rest) = Some (l @ [nl], rest)"
  by (simp add: read_bytes_nl_def dropWhile_to_sep takeWhile_to_sep)

lemma read_bytes_nl_shorter: "read_bytes_nl s = Some (l, rest) \<Longrightarrow> length rest < length s"
  by (auto simp: read_bytes_nl_def split: list.splits dest: dropWhile_Cons_length)

interpretation json_finite: finite_decoder "json_decoder parse" length for parse
  by unfold_locales
    (auto simp: json_decoder_def split: option.splits prod.splits dest: read_bytes_nl_shorter)

interpretation json_file: result_source "json_decoder parse" "json_yields enc parse" for enc parse
proof unfold_locales
  fix s r rs
  assume "json_yields enc parse s (r # rs)"
  then show "\<exists>s'. json_decoder parse s zero_result = (s', r, None) \<and> json_yields enc parse s' rs"
    using read_bytes_nl_line [of "enc r" "concat (map (json_encode enc) rs)"]
    by (auto simp: json_yields_def json_decoder_def json_encode_def)
next
  fix s
  assume "json_yields enc parse s []"
  then show "\<exists>s'. json_decoder parse s zero_result = (s', zero_result, Some EOF) \<and> json_yields enc parse s' []"
    by (auto simp: json_yields_def json_decoder_def read_bytes_nl_def)
qed

section \<open>The round-robin decoder\<close>

text \<open>The sequence number of the closure and the states of the decoders; \<open>n\<close> is the number of
  rounds of the \<open>range\<close> loop left, \<open>err\<close> its last error.\<close>

fun round_robin_loop :: "'s decoder \<Rightarrow> nat \<Rightarrow> decode_error option \<Rightarrow> (u64 \<times> 's list) decoder" where
  "round_robin_loop dec 0 err (seq, ss) r = ((seq, ss), r, err)"
| "round_robin_loop dec (Suc n) err (seq, ss) r =
    (let robin = unat (seq mod of_nat (length ss)) in
     case dec (ss ! robin) r of
       (s', r', Some e) \<Rightarrow> round_robin_loop dec n (Some e) (seq + 1, ss[robin := s']) r'
     | (s', r', None) \<Rightarrow> ((seq + 1, ss[robin := s']), r', None))"

definition round_robin_decoder :: "'s decoder \<Rightarrow> (u64 \<times> 's list) decoder" where
  "round_robin_decoder dec st r =
    (case st of (seq, ss) \<Rightarrow>
       if length ss = 1 then
         (case dec (hd ss) r of (s', r', err) \<Rightarrow> ((seq, [s']), r', err))
       else round_robin_loop dec (length ss) None (seq, ss) r)"

lemma round_robin_one:
  "round_robin_decoder dec (q, [s]) r = (case dec s r of (s', r', err) \<Rightarrow> ((q, [s']), r', err))"
  by (simp add: round_robin_decoder_def)

lemma round_robin_many:
  "length ss \<noteq> 1 \<Longrightarrow> round_robin_decoder dec (q, ss) r = round_robin_loop dec (length ss) None (q, ss) r"
  by (simp add: round_robin_decoder_def)

text \<open>
  The order it gives: from a position on, \<open>n\<close> lists are tried in turn for their first element.
\<close>

fun robin_next :: "nat \<Rightarrow> nat \<Rightarrow> 'a list list \<Rightarrow> (nat \<times> 'a \<times> 'a list list) option" where
  "robin_next 0 q xss = None"
| "robin_next (Suc n) q xss =
    (case xss ! (q mod length xss) of
       [] \<Rightarrow> robin_next n (q + 1) xss
     | x # xs \<Rightarrow> Some (q + 1, x, xss[q mod length xss := xs]))"

definition pending_results :: "'a list list \<Rightarrow> nat" where
  "pending_results xss = length (concat xss)"

fun robin_merge :: "nat \<Rightarrow> nat \<Rightarrow> 'a list list \<Rightarrow> 'a list" where
  "robin_merge 0 q xss = []"
| "robin_merge (Suc k) q xss =
    (case robin_next (length xss) q xss of
       None \<Rightarrow> []
     | Some (q', x, xss') \<Rightarrow> x # robin_merge k q' xss')"

lemma robin_next_Some:
  "robin_next n q xss = Some (q', x, xss') \<Longrightarrow> xss \<noteq> [] \<Longrightarrow>
    q < q' \<and> q' \<le> q + n \<and> (\<exists>i xs. i < length xss \<and> xss ! i = x # xs \<and> xss' = xss[i := xs])"
proof (induction n arbitrary: q)
  case (Suc n)
  have i: "q mod length xss < length xss" using Suc.prems(2) by simp
  show ?case
  proof (cases "xss ! (q mod length xss)")
    case Nil
    then show ?thesis using Suc.IH [of "q + 1"] Suc.prems by auto
  next
    case (Cons y ys)
    then show ?thesis using Suc.prems i by (auto intro!: exI [of _ "q mod length xss"])
  qed
qed simp

lemma robin_next_None: "robin_next n q xss = None \<Longrightarrow> k < n \<Longrightarrow> xss ! ((q + k) mod length xss) = []"
proof (induction n arbitrary: q k)
  case (Suc n)
  then have "xss ! (q mod length xss) = []" "robin_next n (q + 1) xss = None"
    by (auto split: list.splits)
  with Suc.prems show ?case using Suc.IH [of "q + 1" "k - 1"] by (cases k) simp_all
qed simp

text \<open>As many tries as lists reach every list.\<close>

lemma pending_results_0: "pending_results xss = 0 \<longleftrightarrow> (\<forall>xs \<in> set xss. xs = [])"
  by (induction xss) (auto simp: pending_results_def)

lemma robin_next_None_all:
  assumes "robin_next (length xss) q xss = None"
  shows "pending_results xss = 0"
proof -
  have "xs = []" if xs: "xs \<in> set xss" for xs
  proof -
    obtain i where i: "i < length xss" "xs = xss ! i" using xs by (auto simp: in_set_conv_nth)
    let ?n = "length xss"
    let ?k = "(i + (?n - q mod ?n)) mod ?n"
    have "(q + ?k) mod ?n = (q mod ?n + (i + (?n - q mod ?n))) mod ?n"
      by (metis mod_add_left_eq mod_add_right_eq)
    also have "q mod ?n + (i + (?n - q mod ?n)) = i + ?n"
      using i(1) mod_less_divisor [of ?n q] by linarith
    finally have "(q + ?k) mod ?n = i" using i(1) by simp
    moreover have "?k < ?n" using i(1) by (intro mod_less_divisor) linarith
    ultimately show "xs = []" using robin_next_None [OF assms] i(2) by metis
  qed
  then show ?thesis by (simp add: pending_results_0)
qed

lemma concat_update:
  assumes "i < length xss" and "xss ! i = x # xs"
  shows "mset (concat xss) = add_mset x (mset (concat (xss[i := xs])))"
    and "pending_results xss = Suc (pending_results (xss[i := xs]))"
proof -
  have 1: "xss = take i xss @ (x # xs) # drop (Suc i) xss"
    using assms by (metis id_take_nth_drop)
  have 2: "xss[i := xs] = take i xss @ xs # drop (Suc i) xss"
    using assms(1) by (rule upd_conv_take_nth_drop)
  show "mset (concat xss) = add_mset x (mset (concat (xss[i := xs])))"
    by (subst 1, subst 2) simp
  show "pending_results xss = Suc (pending_results (xss[i := xs]))"
    unfolding pending_results_def by (subst 1, subst 2) simp
qed

lemma robin_merge_mset:
  "xss \<noteq> [] \<Longrightarrow> mset (robin_merge (pending_results xss) q xss) = mset (concat xss)"
proof (induction "pending_results xss" arbitrary: q xss)
  case 0
  then have "concat xss = []" by (metis pending_results_def length_0_conv)
  then show ?case using 0 by (metis mset.simps(1) robin_merge.simps(1))
next
  case (Suc k)
  show ?case
  proof (cases "robin_next (length xss) q xss")
    case None
    then show ?thesis using robin_next_None_all [OF None] Suc.hyps(2) by simp
  next
    case (Some p)
    obtain q' x xss' where p: "p = (q', x, xss')" by (metis prod_cases3)
    obtain i xs where i: "i < length xss" "xss ! i = x # xs" "xss' = xss[i := xs]"
      using robin_next_Some [OF Some [unfolded p] Suc.prems] by blast
    have "k = pending_results xss'" "xss' \<noteq> []"
      using concat_update(2) [OF i(1,2)] Suc.hyps(2) i by auto
    then show ?thesis
      using Suc.hyps(1) [of xss' q'] Some p concat_update(1) [OF i(1,2)] i(3)
      by (simp flip: Suc.hyps(2))
  qed
qed

lemma robin_merge_subseq:
  "xss \<noteq> [] \<Longrightarrow> j < length xss \<Longrightarrow> subseq (xss ! j) (robin_merge (pending_results xss) q xss)"
proof (induction "pending_results xss" arbitrary: q xss)
  case 0
  then have "\<forall>xs \<in> set xss. xs = []" by (metis pending_results_0)
  then have "xss ! j = []" using 0(3) by simp
  then show ?case by simp
next
  case (Suc k)
  show ?case
  proof (cases "robin_next (length xss) q xss")
    case None
    then show ?thesis using robin_next_None_all [OF None] Suc.hyps(2) by simp
  next
    case (Some p)
    obtain q' x xss' where p: "p = (q', x, xss')" by (metis prod_cases3)
    obtain i xs where i: "i < length xss" "xss ! i = x # xs" "xss' = xss[i := xs]"
      using robin_next_Some [OF Some [unfolded p] Suc.prems(1)] by blast
    have "k = pending_results xss'" "xss' \<noteq> []" "j < length xss'"
      using concat_update(2) [OF i(1,2)] Suc.hyps(2) Suc.prems i by auto
    then have "subseq (xss' ! j) (robin_merge k q' xss')"
      using Suc.hyps(1) [of xss' q'] by simp
    then show ?thesis
      using Some p i by (cases "i = j") (auto simp flip: Suc.hyps(2))
  qed
qed

lemma robin_next_dry:
  assumes "pending_results xss = 0" and "xss \<noteq> []"
  shows "robin_next n q xss = None"
proof (cases "robin_next n q xss")
  case (Some y)
  then obtain q' x xss' where "robin_next n q xss = Some (q', x, xss')" by (metis prod_cases3)
  from robin_next_Some [OF this assms(2)] obtain i xs where "i < length xss" "xss ! i = x # xs" by blast
  moreover have "\<forall>xs \<in> set xss. xs = []" using assms(1) by (simp only: pending_results_0)
  ultimately show ?thesis by (metis list.distinct(1) nth_mem)
qed

text \<open>One file through the decoder is again a source, which is what the commands read from.\<close>

definition one_file :: "('s \<Rightarrow> result list \<Rightarrow> bool) \<Rightarrow> u64 \<times> 's list \<Rightarrow> result list \<Rightarrow> bool" where
  "one_file yields st rs \<longleftrightarrow> (case snd st of [s] \<Rightarrow> yields s rs | _ \<Rightarrow> False)"

context result_source
begin

lemma robin_loop_step:
  assumes "list_all2 yields ss xss" and "ss \<noteq> []" and "q + n < 2 ^ 64" and "length ss < 2 ^ 64"
  shows "case robin_next n q xss of
      None \<Rightarrow> \<exists>ss'. list_all2 yields ss' xss \<and>
        round_robin_loop dec n err (of_nat q, ss) zero_result =
          ((of_nat (q + n), ss'), zero_result, if n = 0 then err else Some EOF)
    | Some (q', x, xss') \<Rightarrow> \<exists>ss'. list_all2 yields ss' xss' \<and>
        round_robin_loop dec n err (of_nat q, ss) zero_result = ((of_nat q', ss'), x, None)"
  using assms
proof (induction n arbitrary: q ss err)
  case (Suc n)
  let ?i = "q mod length xss"
  have len: "length ss = length xss" using Suc.prems(1) by (rule list_all2_lengthD)
  have i: "?i < length ss" using Suc.prems(2) len by (metis length_greater_0_conv mod_less_divisor)
  have robin: "unat (of_nat q mod of_nat (length ss) :: u64) = ?i"
    using Suc.prems(3,4) len by (simp add: unat_mod unat_of_nat)
  have y: "yields (ss ! ?i) (xss ! ?i)" using Suc.prems(1) i by (simp add: list_all2_nthD)
  show ?case
  proof (cases "xss ! ?i")
    case Nil
    then obtain s' where s': "dec (ss ! ?i) zero_result = (s', zero_result, Some EOF)" "yields s' []"
      using yields_Nil y by auto
    then have "list_all2 yields (ss[?i := s']) xss"
      using Suc.prems(1) Nil i len by (metis list_all2_update_cong list_update_id)
    note IH = Suc.IH [OF this, of "q + 1" "Some EOF"]
    have eq: "round_robin_loop dec (Suc n) err (of_nat q, ss) zero_result =
        round_robin_loop dec n (Some EOF) (of_nat (q + 1), ss[?i := s']) zero_result"
      using s'(1) robin by (simp add: Let_def add.commute)
    have rn: "robin_next (Suc n) q xss = robin_next n (q + 1) xss" using Nil by simp
    have "q + 1 + n < 2 ^ 64" "ss[?i := s'] \<noteq> []" "length (ss[?i := s']) < 2 ^ 64"
      using Suc.prems(2-4) by simp_all
    from IH [OF this(2,1,3)] show ?thesis unfolding eq rn
      by (cases "robin_next n (q + 1) xss") (simp_all add: add.commute split: prod.splits)
  next
    case (Cons x xs)
    then obtain s' where s': "dec (ss ! ?i) zero_result = (s', x, None)" "yields s' xs"
      using yields_Cons y by fastforce
    have l: "list_all2 yields (ss[?i := s']) (xss[?i := xs])"
      using Suc.prems(1) s'(2) by (rule list_all2_update_cong)
    have "round_robin_loop dec (Suc n) err (of_nat q, ss) zero_result =
        ((of_nat (q + 1), ss[?i := s']), x, None)"
      using s'(1) robin by (simp add: Let_def add.commute)
    moreover have "robin_next (Suc n) q xss = Some (q + 1, x, xss[?i := xs])" using Cons by simp
    ultimately show ?thesis using l by (simp only: option.case prod.case) blast
  qed
qed simp

text \<open>Reading everything through two decoders or more.\<close>

lemma round_robin_reads_all:
  assumes "list_all2 yields ss xss" and "2 \<le> length ss"
    and "q + (pending_results xss + 1) * length ss < 2 ^ 64"
  shows "decode_all (round_robin_decoder dec) (of_nat q, ss) =
    Some (robin_merge (pending_results xss) q xss, EOF)"
  using assms
proof (induction "pending_results xss" arbitrary: q ss xss)
  case 0
  have len: "length ss = length xss" using 0(2) by (rule list_all2_lengthD)
  have none: "robin_next (length xss) q xss = None"
    using 0(1,3) len by (intro robin_next_dry) auto
  have p0: "pending_results xss = 0" by (rule 0(1) [symmetric])
  have "q + length ss < 2 ^ 64" using 0(4) by (simp only: p0 add_0 mult_1)
  then have b: "q + length xss < 2 ^ 64" "length ss < 2 ^ 64" "length xss \<noteq> 0" "ss \<noteq> []"
    using 0(3) len by linarith+ (metis 0(3) list.size(3) not_numeral_le_zero)
  from robin_loop_step [OF 0(2) b(4,1,2), where err = None] obtain ss' where
    "round_robin_loop dec (length xss) None (of_nat q, ss) zero_result =
      ((of_nat (q + length xss), ss'), zero_result, Some EOF)"
    unfolding none option.case if_not_P [OF b(3)] by (elim exE conjE)
  then have "round_robin_decoder dec (of_nat q, ss) zero_result =
      ((of_nat (q + length xss), ss'), zero_result, Some EOF)"
    using 0(3) len by (subst round_robin_many) simp_all
  then show ?case using decode_all_stop 0(1) by (metis robin_merge.simps(1))
next
  case (Suc k)
  have len: "length ss = length xss" using Suc.prems(1) by (rule list_all2_lengthD)
  have ne: "xss \<noteq> []" "ss \<noteq> []" using Suc.prems(2) len by auto
  have bound: "q + (k + 2) * length xss < 2 ^ 64" using Suc.prems(3) Suc.hyps(2) len by simp
  obtain q' x xss' where n: "robin_next (length xss) q xss = Some (q', x, xss')"
    using robin_next_None_all [of xss q] Suc.hyps(2) by (metis nat.distinct(1) not_Some_eq prod_cases3)
  then obtain i xs where i: "q' \<le> q + length xss" "i < length xss" "xss ! i = x # xs" "xss' = xss[i := xs]"
    using robin_next_Some [OF n ne(1)] by blast
  have k: "k = pending_results xss'" "length xss' = length xss"
    using concat_update(2) [OF i(2,3)] Suc.hyps(2) i(4) by simp_all
  have "length xss \<le> (k + 2) * length xss" by simp
  then have b: "q + length xss < 2 ^ 64" "length ss < 2 ^ 64" using bound len by linarith+
  from robin_loop_step [OF Suc.prems(1) ne(2) b, where err = None] obtain ss' where
    s: "list_all2 yields ss' xss'"
      "round_robin_loop dec (length xss) None (of_nat q, ss) zero_result = ((of_nat q', ss'), x, None)"
    unfolding n option.case prod.case by (elim exE conjE)
  have step: "round_robin_decoder dec (of_nat q, ss) zero_result = ((of_nat q', ss'), x, None)"
    using s(2) Suc.prems(2) len by (subst round_robin_many) simp_all
  have "q' + (pending_results xss' + 1) * length ss' < 2 ^ 64"
    using bound i(1) k s(1) len by (simp add: list_all2_lengthD)
  then have "decode_all (round_robin_decoder dec) (of_nat q', ss') = Some (robin_merge k q' xss', EOF)"
    using Suc.hyps(1) [OF k(1) s(1)] Suc.prems(2) s(1) k len by (simp add: list_all2_lengthD)
  then show ?case
    using n by (simp add: decode_all_more [where dec = "round_robin_decoder dec", OF step] flip: Suc.hyps(2))
qed

lemma single_source: "result_source (round_robin_decoder dec) (one_file yields)"
proof
  fix st r rs
  assume "one_file yields st (r # rs)"
  then obtain q s where st: "st = (q, [s])" "yields s (r # rs)"
    by (cases st) (auto simp: one_file_def split: list.splits)
  from yields_Cons [OF st(2)] obtain s' where "dec s zero_result = (s', r, None)" "yields s' rs" by blast
  then show "\<exists>st'. round_robin_decoder dec st zero_result = (st', r, None) \<and> one_file yields st' rs"
    by (intro exI [of _ "(q, [s'])"]) (simp add: st(1) round_robin_one one_file_def)
next
  fix st
  assume "one_file yields st []"
  then obtain q s where st: "st = (q, [s])" "yields s []"
    by (cases st) (auto simp: one_file_def split: list.splits)
  from yields_Nil [OF st(2)] obtain s' where "dec s zero_result = (s', zero_result, Some EOF)" "yields s' []" by blast
  then show "\<exists>st'. round_robin_decoder dec st zero_result = (st', zero_result, Some EOF) \<and> one_file yields st' []"
    by (intro exI [of _ "(q, [s'])"]) (simp add: st(1) round_robin_one one_file_def)
qed

lemma round_robin_single: "yields s rs \<Longrightarrow> decode_all (round_robin_decoder dec) (q, [s]) = Some (rs, EOF)"
  by (rule result_source.decode_all_yields [OF single_source]) (simp add: one_file_def)

end

interpretation csv_single: result_source "round_robin_decoder csv_decoder" "one_file csv_yields"
  by (rule csv_file.single_source)

text \<open>Files the CSV encoder wrote, one or more, read together.\<close>

lemma csv_files_read:
  assumes "rss \<noteq> []" and "list_all (list_all csv_safe) rss"
    and "(length (concat rss) + 1) * length rss < 2 ^ 64"
  shows "\<exists>ys. decode_all (round_robin_decoder csv_decoder) (0, map (\<lambda>rs. concat (map csv_encode rs)) rss) = Some (ys, EOF) \<and>
    mset ys = mset (concat rss) \<and> list_all (\<lambda>rs. subseq rs ys) rss"
proof (cases "length rss = 1")
  case True
  then obtain rs where rs: "rss = [rs]" by (auto simp: length_Suc_conv)
  then have "csv_yields (concat (map csv_encode rs)) rs" using assms(2) by (simp add: csv_yields_def)
  then show ?thesis using csv_file.round_robin_single [of _ rs 0] rs by simp
next
  case False
  let ?ss = "map (\<lambda>rs. concat (map csv_encode rs)) rss"
  have "list_all2 csv_yields ?ss rss"
    using assms(2) by (simp add: list_all2_conv_all_nth list_all_length csv_yields_def)
  moreover have "2 \<le> length ?ss" using False assms(1) by (cases rss; cases "tl rss") auto
  ultimately have "decode_all (round_robin_decoder csv_decoder) (of_nat 0, ?ss) =
      Some (robin_merge (pending_results rss) 0 rss, EOF)"
    using assms(3) by (intro csv_file.round_robin_reads_all) (simp_all add: pending_results_def)
  then show ?thesis
    using robin_merge_mset [OF assms(1), of 0] robin_merge_subseq [OF assms(1), of _ 0]
    by (auto simp: list_all_length)
qed

section \<open>Detecting the encoding\<close>

text \<open>
  \<open>DecoderFor\<close> tries the decoders in turn. A try on an input tells whether a result was
  decoded and how many bytes were read to find out; a tee keeps what the tries read of the
  source, so that \<open>buf @ src\<close> is the input from its start.
\<close>

type_synonym attempt = "string \<Rightarrow> bool \<times> nat"

fun decoder_for :: "attempt list \<Rightarrow> string \<Rightarrow> string \<Rightarrow> nat \<Rightarrow> (nat \<times> string) option" where
  "decoder_for [] buf src i = None"
| "decoder_for (f # fs) buf src i =
    (case f (buf @ src) of (ok, n) \<Rightarrow>
       let buf' = buf @ take (n - length buf) src; src' = drop (n - length buf) src in
       if ok then Some (i, buf' @ src') else decoder_for fs buf' src' (i + 1))"

lemma decoder_for_buffer: "decoder_for fs buf src i = decoder_for fs [] (buf @ src) i"
proof (induction fs arbitrary: buf src i)
  case (Cons f fs)
  obtain ok n where f: "f (buf @ src) = (ok, n)" by (cases "f (buf @ src)")
  have "decoder_for fs (buf @ take k src) (drop k src) (i + 1) = decoder_for fs [] (buf @ src) (i + 1)" for k
    using Cons.IH [of "buf @ take k src"] by simp
  moreover have "decoder_for fs (take n (buf @ src)) (drop n (buf @ src)) (i + 1) = decoder_for fs [] (buf @ src) (i + 1)"
    using Cons.IH [of "take n (buf @ src)" "drop n (buf @ src)"] by (simp only: append_take_drop_id)
  moreover have "take n (buf @ src) @ drop n (buf @ src) = buf @ src" by (rule append_take_drop_id)
  ultimately show ?case using f by (simp add: Let_def)
qed simp

section \<open>The collection of results\<close>

text \<open>\<open>Results.Add\<close>; \<open>Close\<close> calls \<open>sort.Sort\<close>, which is not stable: it leaves some permutation
  in which no element is less than one before it.\<close>

definition results_add :: "result list \<Rightarrow> result \<Rightarrow> result list" where
  "results_add rs r = rs @ [r]"

definition results_less :: "result \<Rightarrow> result \<Rightarrow> bool" where
  "results_less a b \<longleftrightarrow> time_before (Timestamp a) (Timestamp b)"

definition results_close :: "result list \<Rightarrow> result list \<Rightarrow> bool" where
  "results_close rs rs' \<longleftrightarrow> mset rs' = mset rs \<and> sorted_wrt (\<lambda>a b. \<not> results_less b a) rs'"

lemma results_close_sorted: "results_close rs rs' \<longleftrightarrow> mset rs' = mset rs \<and> sorted (map Timestamp rs')"
  by (simp add: results_close_def results_less_def time_before_def sorted_wrt_map not_less)

section \<open>Properties\<close>

text \<open>
  C16. The CSV round trip: reading a file of any number of results written by the CSV encoder
  gives back exactly these results and then EOF, whatever their bodies (any bytes), error
  texts (quotes, commas and newlines included) and headers are, as long as no text column
  holds a carriage return and timestamps are within the range of \<open>UnixNano\<close>.
\<close>

theorem csv_round_trip:
  assumes "list_all csv_safe rs"
  shows "decode_all csv_decoder (concat (map csv_encode rs)) = Some (rs, EOF)"
  by (rule csv_file.decode_all_yields) (simp add: csv_yields_def assms)

theorem csv_round_trip_witness:
  "decode_all csv_decoder (concat (map csv_encode
     [zero_result\<lparr>Seq := 7, Timestamp := unix_epoch, Error := ''a,\"b\"'' @ [nl], Body := [CHR 0x00, CHR 0xFF],
        Headers := Some [(''Content-Type'', [''text/plain''])]\<rparr>])) =
   Some ([zero_result\<lparr>Seq := 7, Timestamp := unix_epoch, Error := ''a,\"b\"'' @ [nl], Body := [CHR 0x00, CHR 0xFF],
        Headers := Some [(''Content-Type'', [''text/plain''])]\<rparr>], EOF)"
proof (rule csv_round_trip)
  have "wire_header [(''Content-Type'', [''text/plain''])]"
    by code_simp
  then show "list_all csv_safe [zero_result\<lparr>Seq := 7, Timestamp := unix_epoch, Error := ''a,\"b\"'' @ [nl],
      Body := [CHR 0x00, CHR 0xFF], Headers := Some [(''Content-Type'', [''text/plain''])]\<rparr>]"
    by (simp add: csv_safe_def zero_result_def)
qed

text \<open>
  Merging several result files loses nothing: the round-robin decoder over any number of
  CSV files delivers every result of every file exactly once, keeps the order of each file,
  and then reports EOF (the closure's 64-bit counter permitting).
\<close>

theorem round_robin_merges_files:
  assumes "rss \<noteq> []" and "list_all (list_all csv_safe) rss"
    and "(length (concat rss) + 1) * length rss < 2 ^ 64"
  shows "\<exists>ys. decode_all (round_robin_decoder csv_decoder) (0, map (\<lambda>rs. concat (map csv_encode rs)) rss) = Some (ys, EOF) \<and>
    mset ys = mset (concat rss) \<and> list_all (\<lambda>rs. subseq rs ys) rss"
  using assms by (rule csv_files_read)

theorem round_robin_merges_files_witness:
  "\<exists>ys. decode_all (round_robin_decoder csv_decoder) (0, map (\<lambda>rs. concat (map csv_encode rs))
      [[zero_result\<lparr>Seq := 1, Timestamp := unix_epoch\<rparr>], [], [zero_result\<lparr>Seq := 2, Timestamp := unix_epoch\<rparr>]]) =
    Some (ys, EOF) \<and> length ys = 2"
proof -
  let ?rss = "[[zero_result\<lparr>Seq := 1, Timestamp := unix_epoch\<rparr>], [], [zero_result\<lparr>Seq := 2, Timestamp := unix_epoch\<rparr>]]"
  have "list_all (list_all csv_safe) ?rss" by (simp add: csv_safe_def zero_result_def)
  from round_robin_merges_files [OF _ this] obtain ys where
    "decode_all (round_robin_decoder csv_decoder) (0, map (\<lambda>rs. concat (map csv_encode rs)) ?rss) = Some (ys, EOF)"
    "mset ys = mset (concat ?rss)" by auto
  moreover from this(2) have "size (mset ys) = 2" by simp
  then have "length ys = 2" by simp
  ultimately show ?thesis by blast
qed

text \<open>
  Detecting the encoding loses no byte: \<open>DecoderFor\<close> picks the first decoder (gob, JSON,
  CSV, in this order) that can decode a result from the start of the input, none if there is
  none, and the decoder it returns reads the input from its very first byte, however much
  the tries before it have consumed.
\<close>

theorem decoder_for_replays_input:
  "decoder_for fs [] input 0 =
    (case filter (\<lambda>i. fst ((fs ! i) input)) [0..<length fs] of
       [] \<Rightarrow> None
     | i # _ \<Rightarrow> Some (i, input))"
proof -
  have "decoder_for fs [] input k =
    (case filter (\<lambda>i. fst ((fs ! (i - k)) input)) [k..<k + length fs] of [] \<Rightarrow> None | i # _ \<Rightarrow> Some (i, input))" for k
  proof (induction fs arbitrary: k)
    case (Cons f fs)
    have "filter (\<lambda>i. fst (((f # fs) ! (i - k)) input)) [Suc k..<k + length (f # fs)] =
        filter (\<lambda>i. fst ((fs ! (i - Suc k)) input)) [Suc k..<Suc k + length fs]"
      by (rule filter_cong) (auto simp: nth_Cons')
    moreover have "[k..<k + length (f # fs)] = k # [Suc k..<k + length (f # fs)]"
      by (rule upt_conv_Cons) simp
    moreover obtain ok n where "f input = (ok, n)" by (cases "f input")
    ultimately show ?case
      using Cons.IH [of "Suc k"] decoder_for_buffer [of fs "take n input" "drop n input" "Suc k"]
      by (simp add: Let_def del: upt_Suc)
  qed simp
  from this [of 0] show ?thesis by simp
qed

end
