(* ===== verification/Flags.thy ===== *)
theory Flags
  imports Go_Textproto Go_Duration Const_Pacer Results "HOL-Library.List_Lexorder" "HOL-Library.Char_ord"
begin

text \<open>
  The command-line values of \<open>flags.go\<close>, the address list of \<open>internal/resolver\<close> and the
  Prometheus metrics of \<open>lib/prom\<close>. \<open>Set\<close> returns the new value with an error or none;
  on an error the value is what the code has assigned by then.

  Arguments stand for \<open>net.ResolveIPAddr\<close>, \<open>net.ParseIP\<close>, the \<open>datasize\<close> package and the
  Prometheus client.
\<close>

section \<open>net.SplitHostPort\<close>

definition last_index :: "char \<Rightarrow> string \<Rightarrow> nat option" where
  "last_index c s = (if c \<in> set s then Some (length s - 1 - length (takeWhile (\<lambda>x. x \<noteq> c) (rev s))) else None)"

definition index_of :: "char \<Rightarrow> string \<Rightarrow> nat option" where
  "index_of c s = (if c \<in> set s then Some (length (takeWhile (\<lambda>x. x \<noteq> c) s)) else None)"

definition split_host_port :: "string \<Rightarrow> (string \<times> string) option" where
  "split_host_port hp =
    (case last_index CHR '':'' hp of
       None \<Rightarrow> None
     | Some i \<Rightarrow>
         let parsed =
           (if hd hp = CHR ''['' then
              (case index_of CHR '']'' hp of
                 None \<Rightarrow> None
               | Some e \<Rightarrow> if e + 1 = i then Some (take (e - 1) (drop 1 hp), 1, e + 1) else None)
            else if CHR '':'' \<in> set (take i hp) then None
            else Some (take i hp, 0, 0)) in
         (case parsed of
            None \<Rightarrow> None
          | Some (host, j, k) \<Rightarrow>
              if CHR ''['' \<in> set (drop j hp) \<or> CHR '']'' \<in> set (drop k hp) then None
              else Some (host, drop (i + 1) hp)))"

section \<open>Headers and lists\<close>

datatype flag_error =
    HeaderFormat string
  | AtoiError string num_error
  | DurationError string
  | SizeError string
  | BodyOverflow u64
  | ConnectToFormat string
  | SourceAddress string
  | DestinationAddress string

definition headers_set :: "header \<Rightarrow> string \<Rightarrow> header \<times> flag_error option" where
  "headers_set h value =
    (case split_n2 CHR '':'' value of
       [p, v] \<Rightarrow>
         let key = trim_space p; val = trim_space v in
         if key = [] \<or> val = [] then (h, Some (HeaderFormat value))
         else (header_append key [val] h, None)
     | _ \<Rightarrow> (h, Some (HeaderFormat value)))"

definition headers_string :: "header \<Rightarrow> string" where
  "headers_string h = header_write h"

definition local_addr_set :: "(string \<Rightarrow> 'ip option \<times> string option) \<Rightarrow> string \<Rightarrow> 'ip option \<times> string option" where
  "local_addr_set resolve_ip value = resolve_ip value"

definition csl_set :: "string \<Rightarrow> string list" where
  "csl_set v = split CHR '','' v"

definition csl_string :: "string list \<Rightarrow> string" where
  "csl_string l = join '','' l"

section \<open>-rate\<close>

text \<open>\<open>strconv.Atoi\<close>: the value that comes with an error is 0 or the nearest one in range.\<close>

definition atoi :: "string \<Rightarrow> i64 \<times> num_error option" where
  "atoi s =
    (case parse_int64 s of
       Inr n \<Rightarrow> (n, None)
     | Inl ErrSyntax \<Rightarrow> (0, Some ErrSyntax)
     | Inl ErrRange \<Rightarrow> (if hd s = CHR ''-'' then - (2 ^ 63) else max_int64, Some ErrRange))"

definition bare_units :: "string list" where
  "bare_units = [''ns'', ''us'', [CHR 0xC2, CHR 0xB5, CHR ''s''], ''ms'', ''s'', ''m'', ''h'']"

definition rate_flag_set :: "constant_pacer \<Rightarrow> string \<Rightarrow> constant_pacer \<times> flag_error option" where
  "rate_flag_set f v =
    (if v = ''infinity'' then (f, None)
     else
       let ps = split_n2 CHR ''/'' v; freq = hd ps; per = (if length ps = 1 then ''1s'' else ps ! 1) in
       case atoi freq of
         (n, Some e) \<Rightarrow> (f\<lparr>Freq := n\<rparr>, Some (AtoiError freq e))
       | (n, None) \<Rightarrow>
           let f = f\<lparr>Freq := n\<rparr> in
           if n = 0 then (f, None)
           else
             let per = (if per \<in> set bare_units then CHR ''1'' # per else per) in
             (case parse_duration per of
                None \<Rightarrow> (f\<lparr>Per := 0\<rparr>, Some (DurationError per))
              | Some d \<Rightarrow> (f\<lparr>Per := d\<rparr>, None)))"

definition rate_flag_string :: "constant_pacer option \<Rightarrow> string" where
  "rate_flag_string f =
    (case f of None \<Rightarrow> [] | Some r \<Rightarrow> format_int (Freq r) @ ''/'' @ duration_string (Per r))"

section \<open>-max-body and -dns-ttl\<close>

definition max_body_set :: "(string \<Rightarrow> string + u64) \<Rightarrow> i64 \<Rightarrow> string \<Rightarrow> i64 \<times> flag_error option" where
  "max_body_set unmarshal n v =
    (if v = ''-1'' then (- 1, None)
     else case unmarshal v of
       Inl e \<Rightarrow> (n, Some (SizeError e))
     | Inr ds \<Rightarrow>
         if max_int64 < ds then (n, Some (BodyOverflow ds))
         else (ds, None))"

definition max_body_string :: "(u64 \<Rightarrow> string) \<Rightarrow> i64 option \<Rightarrow> string" where
  "max_body_string size_string n =
    (case n of None \<Rightarrow> [] | Some k \<Rightarrow> if k = - 1 then ''-1'' else size_string k)"

definition dns_ttl_set :: "string \<Rightarrow> duration \<times> flag_error option" where
  "dns_ttl_set v =
    (if v = ''-1'' then (- 1, None)
     else case parse_duration v of
       None \<Rightarrow> (0, Some (DurationError v))
     | Some d \<Rightarrow> (d, None))"

definition dns_ttl_string :: "duration option \<Rightarrow> string" where
  "dns_ttl_string ttl =
    (case ttl of None \<Rightarrow> [] | Some d \<Rightarrow> if d = - 1 then ''-1'' else duration_string d)"

section \<open>-connect-to\<close>

text \<open>The outer option is the nil pointer, the inner one the nil map; a value is kept as
  \<open>header_append\<close> keeps one.\<close>

definition connect_to_set :: "header option option \<Rightarrow> string \<Rightarrow> header option option \<times> flag_error option" where
  "connect_to_set c s =
    (case c of
       None \<Rightarrow> (c, None)
     | Some mm \<Rightarrow>
         let m = (case mm of None \<Rightarrow> [] | Some m \<Rightarrow> m) in
         (case split CHR '':'' s of
            [a, b, x, y] \<Rightarrow>
              let src = a @ '':'' @ b; dst = x @ '':'' @ y in
              if split_host_port src = None
              then (Some (Some m), Some (SourceAddress src))
              else if split_host_port dst = None
              then (Some (Some m), Some (DestinationAddress dst))
              else (Some (Some (header_append src [dst] m)), None)
          | _ \<Rightarrow> (Some (Some m), Some (ConnectToFormat s))))"

definition connect_to_string :: "header option option \<Rightarrow> string" where
  "connect_to_string c =
    (case c of
       None \<Rightarrow> []
     | Some mm \<Rightarrow>
         join '';'' (sort (map (\<lambda>(k, v). k @ '':'' @ join '','' v) (case mm of None \<Rightarrow> [] | Some m \<Rightarrow> m))))"

section \<open>Resolver addresses\<close>

datatype resolver_error = NoAddress | BadAddress string | BadPort num_error | NotAnIP string

fun normalize_addrs :: "(string \<Rightarrow> bool) \<Rightarrow> string list \<Rightarrow> resolver_error + string list" where
  "normalize_addrs is_ip [] = Inr []"
| "normalize_addrs is_ip (a # as) =
    (let addr = (if CHR '':'' \<in> set a then a else a @ '':53'') in
     case split_host_port addr of
       None \<Rightarrow> Inl (BadAddress addr)
     | Some (host, port) \<Rightarrow>
         (case parse_uint 16 port of
            Inl e \<Rightarrow> Inl (BadPort e)
          | Inr _ \<Rightarrow>
              if \<not> is_ip host then Inl (NotAnIP host)
              else go_bind (normalize_addrs is_ip as) (\<lambda>rest. Inr (addr # rest))))"

record resolver =
  r_addrs :: "string list"
  r_idx :: u64

definition new_resolver :: "(string \<Rightarrow> bool) \<Rightarrow> string list \<Rightarrow> resolver_error + resolver" where
  "new_resolver is_ip addrs =
    (if addrs = [] then Inl NoAddress
     else go_bind (normalize_addrs is_ip addrs) (\<lambda>clean. Inr \<lparr>r_addrs = clean, r_idx = 0\<rparr>))"

definition resolver_address :: "resolver \<Rightarrow> resolver \<times> string" where
  "resolver_address r =
    (let idx = r_idx r + 1 in (r\<lparr>r_idx := idx\<rparr>, r_addrs r ! unat (idx mod of_nat (length (r_addrs r)))))"

definition resolver_dial :: "('c \<Rightarrow> string \<Rightarrow> string \<Rightarrow> 'conn) \<Rightarrow> resolver \<Rightarrow> 'c \<Rightarrow> string \<Rightarrow> resolver \<times> 'conn" where
  "resolver_dial dial r ctx network = (case resolver_address r of (r', addr) \<Rightarrow> (r', dial ctx network addr))"

section \<open>Prometheus metrics\<close>

text \<open>The four metric vectors of a client: values by label values. \<open>WithLabelValues\<close> alone creates
  the child with its initial value.\<close>

record prom_metrics =
  prom_latency :: "(string list \<times> float64 list) list"
  prom_bytes_in :: "(string list \<times> float64) list"
  prom_bytes_out :: "(string list \<times> float64) list"
  prom_fail :: "(string list \<times> float64) list"

definition with_labels :: "'v \<Rightarrow> string list \<Rightarrow> (string list \<times> 'v) list \<Rightarrow> 'v \<times> (string list \<times> 'v) list" where
  "with_labels zero ls m = (case map_of m ls of Some v \<Rightarrow> (v, m) | None \<Rightarrow> (zero, AList.update ls zero m))"

definition prom_add :: "string list \<Rightarrow> float64 \<Rightarrow> (string list \<times> float64) list \<Rightarrow> (string list \<times> float64) list" where
  "prom_add ls x m = (case with_labels (Fin 0) ls m of (v, m') \<Rightarrow> AList.update ls (f_add v x) m')"

definition observe :: "prom_metrics \<Rightarrow> result \<Rightarrow> prom_metrics" where
  "observe pm r =
    (let code = format_uint (ucast (Code r) :: u64); ls = [Method r, URL r, code];
         pm1 = pm\<lparr>prom_bytes_in := prom_add ls (f_of_int (uint (BytesIn r))) (prom_bytes_in pm)\<rparr>;
         pm2 = pm1\<lparr>prom_bytes_out := prom_add ls (f_of_int (uint (BytesOut r))) (prom_bytes_out pm1)\<rparr>;
         pm3 = pm2\<lparr>prom_latency :=
           (case with_labels [] ls (prom_latency pm2) of (v, m) \<Rightarrow> AList.update ls (v @ [duration_seconds (Latency r)]) m)\<rparr> in
     if Error r \<noteq> [] then pm3\<lparr>prom_fail := snd (with_labels (Fin 0) (ls @ [Error r]) (prom_fail pm3))\<rparr> else pm3)"

definition new_prom_metrics :: prom_metrics where
  "new_prom_metrics = \<lparr>prom_latency = [], prom_bytes_in = [], prom_bytes_out = [], prom_fail = []\<rparr>"

text \<open>\<open>Register\<close>: the registry's answer for each vector in turn, until an error.\<close>

definition prom_collectors :: "string list" where
  "prom_collectors = [''request_seconds'', ''request_bytes_in'', ''request_bytes_out'', ''request_fail_count'']"

fun register_all :: "(string \<Rightarrow> string option) \<Rightarrow> string list \<Rightarrow> string option" where
  "register_all register [] = None"
| "register_all register (c # cs) =
    (case register c of
       Some e \<Rightarrow> Some (''failed to register metric '' @ c @ '': '' @ e)
     | None \<Rightarrow> register_all register cs)"

definition prom_register :: "(string \<Rightarrow> string option) \<Rightarrow> string option" where
  "prom_register register = register_all register prom_collectors"

section \<open>Properties\<close>

lemma parse_int64_format_nat: "n < 2 ^ 63 \<Longrightarrow> parse_int64 (format_nat n) = Inr (of_nat n)"
proof -
  assume n: "n < 2 ^ 63"
  have u: "unat (of_nat n :: i64) = n" using n by (simp add: unat_of_nat)
  then have s: "sint (of_nat n :: i64) = int n" using n sint_eq_unat_i64 [of "of_nat n"] by simp
  then have "format_int (of_nat n) = format_nat n" by (simp add: format_int_def)
  then show ?thesis using parse_format_int [of "of_nat n"] by simp
qed

lemma format_nat_no_char: "digit_val c = None \<Longrightarrow> c \<notin> set (format_nat n)"
  using format_nat_digits [of c n] by auto

lemma rate_text:
  assumes "n < 2 ^ 63" and "0 < n"
  shows "rate_flag_set f (format_nat n @ CHR ''/'' # per) =
    (let p = (if per \<in> set bare_units then CHR ''1'' # per else per) in
     case parse_duration p of
       None \<Rightarrow> (\<lparr>Freq = of_nat n, Per = 0\<rparr>, Some (DurationError p))
     | Some d \<Rightarrow> (\<lparr>Freq = of_nat n, Per = d\<rparr>, None))"
proof -
  have sl: "CHR ''/'' \<notin> set (format_nat n)" by (rule format_nat_no_char) (simp add: digit_val_def)
  have "CHR ''/'' \<in> set (format_nat n @ CHR ''/'' # per)" "CHR ''/'' \<notin> set ''infinity''" by simp_all
  then have "format_nat n @ CHR ''/'' # per \<noteq> ''infinity''" by metis
  moreover have "unat (of_nat n :: i64) = n" using assms(1) by (simp add: unat_of_nat)
  then have "(of_nat n :: i64) \<noteq> 0" using assms(2) by auto
  moreover have "atoi (format_nat n) = (of_nat n, None)" using assms(1) by (simp add: atoi_def parse_int64_format_nat)
  ultimately show ?thesis
    by (cases f) (simp add: rate_flag_set_def split_n2_sep [OF sl] Let_def split: option.splits)
qed

lemma format_nat_0_1: "format_nat 0 = ''0''" "format_nat 1 = ''1''"
  by code_simp+

lemma digits_not_bare: "format_nat m @ u \<notin> set bare_units"
proof -
  obtain d where "d < 10" "hd (format_nat m @ u) = digit_char d" using format_nat_hd [of m] by auto
  then have "is_digit (hd (format_nat m @ u))" by simp
  moreover have "list_all (\<lambda>u. \<not> is_digit (hd u)) bare_units" by (simp add: bare_units_def is_digit_def digit_val_def)
  ultimately show ?thesis by (auto simp: list_all_iff)
qed

text \<open>
  C37. What \<open>-rate\<close> reads. A number, a slash and a duration of one number with a unit give that
  frequency and period; a bare unit means one of it; a number alone means per second; 0 sets the
  frequency to 0 and leaves the period. \<open>infinity\<close> changes nothing, so the default rate of 50 hits
  per second stays in force.
\<close>

theorem rate_flag_reads:
  assumes "n < 2 ^ 63" and "0 < n" and "(u, k) \<in> set duration_units" and "m * k < 2 ^ 63"
  shows "rate_flag_set f (format_nat n @ ''/'' @ format_nat m @ u) = (\<lparr>Freq = of_nat n, Per = of_nat (m * k)\<rparr>, None) \<and>
    (u \<in> set bare_units \<longrightarrow> rate_flag_set f (format_nat n @ ''/'' @ u) = (\<lparr>Freq = of_nat n, Per = of_nat k\<rparr>, None)) \<and>
    rate_flag_set f (format_nat n) = (\<lparr>Freq = of_nat n, Per = 1000000000\<rparr>, None) \<and>
    rate_flag_set f ''0'' = (f\<lparr>Freq := 0\<rparr>, None) \<and>
    rate_flag_set f ''infinity'' = (f, None)"
proof (intro conjI impI)
  have pd: "parse_duration (format_nat m @ u) = Some (of_nat (m * k))" by (rule parse_duration_whole [OF assms(3,4)])
  show "rate_flag_set f (format_nat n @ ''/'' @ format_nat m @ u) = (\<lparr>Freq = of_nat n, Per = of_nat (m * k)\<rparr>, None)"
    using rate_text [OF assms(1,2), of f "format_nat m @ u"] pd digits_not_bare [of m u] by (simp add: Let_def)
  have k: "1 * k < 2 ^ 63"
    using assms(3) by (auto simp: duration_units_def)
  note one = format_nat_0_1(2)
  show "rate_flag_set f (format_nat n @ ''/'' @ u) = (\<lparr>Freq = of_nat n, Per = of_nat k\<rparr>, None)" if "u \<in> set bare_units"
    using rate_text [OF assms(1,2), of f u] that parse_duration_whole [OF assms(3) k, unfolded one] by (simp add: Let_def)
  show "rate_flag_set f (format_nat n) = (\<lparr>Freq = of_nat n, Per = 1000000000\<rparr>, None)"
  proof -
    have "CHR ''/'' \<notin> set (format_nat n)" by (rule format_nat_no_char) (simp add: digit_val_def)
    then have sl: "split_n2 CHR ''/'' (format_nat n) = [format_nat n]" by (rule split_n2_no_sep)
    have "hd (format_nat n) \<in> set (format_nat n)" by (rule hd_in_set [OF format_nat_not_Nil])
    moreover have "CHR ''i'' \<notin> set (format_nat n)" by (rule format_nat_no_char) (simp add: digit_val_def)
    ultimately have "hd (format_nat n) \<noteq> hd ''infinity''" by (metis list.sel(1))
    then have "format_nat n \<noteq> ''infinity''" by metis
    moreover have "unat (of_nat n :: i64) = n" using assms(1) by (simp add: unat_of_nat)
    then have "(of_nat n :: i64) \<noteq> 0" using assms(2) by auto
    moreover have "atoi (format_nat n) = (of_nat n, None)" using assms(1) by (simp add: atoi_def parse_int64_format_nat)
    moreover have "(''s'', 1000000000) \<in> set duration_units" by (simp add: duration_units_def)
    from parse_duration_whole [OF this, of 1, unfolded one]
    have "parse_duration ''1s'' = Some 1000000000" by simp
    moreover have "''1s'' \<notin> set bare_units" by (simp add: bare_units_def)
    ultimately show ?thesis by (cases f) (simp add: rate_flag_set_def sl Let_def)
  qed
  note zero = format_nat_0_1(1)
  have "split_n2 CHR ''/'' ''0'' = [''0'']" by (rule split_n2_no_sep) simp
  moreover have "atoi ''0'' = (0, None)" using parse_int64_format_nat [of 0] by (simp add: atoi_def zero)
  ultimately show "rate_flag_set f ''0'' = (f\<lparr>Freq := 0\<rparr>, None)" by (simp add: rate_flag_set_def Let_def)
  show "rate_flag_set f ''infinity'' = (f, None)" by (simp add: rate_flag_set_def)
qed

theorem rate_flag_reads_witness:
  "rate_flag_set \<lparr>Freq = 50, Per = 1000000000\<rparr> ''infinity'' = (\<lparr>Freq = 50, Per = 1000000000\<rparr>, None) \<and>
   rate_flag_set \<lparr>Freq = 50, Per = 1000000000\<rparr> (format_nat 7 @ ''/'' @ format_nat 3 @ ''m'') =
     (\<lparr>Freq = 7, Per = 180000000000\<rparr>, None)"
proof -
  have "(7 :: nat) < 2 ^ 63" "(0 :: nat) < 7" "(''m'', 60000000000) \<in> set duration_units" "3 * 60000000000 < (2 :: nat) ^ 63"
    by (simp_all add: duration_units_def)
  from rate_flag_reads [OF this] show ?thesis by simp
qed

text \<open>
  C39. The Prometheus fail counters never count: after any results, every one of them still has
  its initial value 0, because \<open>Observe\<close> only creates the counter of an error and does not
  increase it.
\<close>

theorem observe_never_counts_failures:
  "snd ` set (prom_fail (foldl observe new_prom_metrics rs)) \<subseteq> {Fin 0}"
proof (induction rs rule: rev_induct)
  case (snoc r rs)
  have "set (AList.update k v m) \<subseteq> insert (k, v) (set m)" for k :: "string list" and v :: float64 and m
    by (induction m) auto
  then have "snd ` set (snd (with_labels (Fin 0) ls m)) \<subseteq> insert (Fin 0) (snd ` set m)" for ls m
    by (fastforce simp: with_labels_def split: option.splits)
  moreover have "prom_fail (observe pm r) =
      (if Error r \<noteq> [] then snd (with_labels (Fin 0) ([Method r, URL r, format_uint (ucast (Code r) :: u64)] @ [Error r]) (prom_fail pm))
       else prom_fail pm)" for pm
    by (simp add: observe_def Let_def)
  ultimately have "snd ` set (prom_fail (observe pm r)) \<subseteq> insert (Fin 0) (snd ` set (prom_fail pm))" for pm by auto
  from this [of "foldl observe new_prom_metrics rs"] show ?case using snoc by auto
qed (simp add: new_prom_metrics_def)

end
