(* ===== verification/Histograms.thy ===== *)
theory Histograms
  imports Http_Types Go_Duration
begin

text \<open>
  \<open>lib/histogram.go\<close>: buckets of latencies, their text format and the counting of results.
  A bucket is the interval from its bound to the next; the last one is unbounded. The first
  bound is meant to be 0 (the text format puts it there); the code does not check that.
\<close>

section \<open>State and operations\<close>

record histogram =
  Buckets :: "duration list"
  Counts :: "u64 list"
  Total :: u64

definition new_histogram :: "duration list \<Rightarrow> histogram" where
  "new_histogram bs = \<lparr>Buckets = bs, Counts = [], Total = 0\<rparr>"

text \<open>The loop of \<open>Histogram.Add\<close>: the index it ends at.\<close>

fun bucket_index :: "duration list \<Rightarrow> duration \<Rightarrow> nat" where
  "bucket_index (a # b # bs) latency =
    (if a \<le>s latency \<and> latency <s b then 0 else Suc (bucket_index (b # bs) latency))"
| "bucket_index _ latency = 0"

definition histogram_add :: "histogram \<Rightarrow> result \<Rightarrow> histogram go" where
  "histogram_add h r =
    (let counts = (if length (Counts h) \<noteq> length (Buckets h) then replicate (length (Buckets h)) 0 else Counts h);
         i = bucket_index (Buckets h) (Latency r) in
     if i < length counts
     then Inr (h\<lparr>Counts := counts[i := counts ! i + 1], Total := Total h + 1\<rparr>)
     else Inl IndexOutOfRange)"

fun histogram_add_all :: "histogram \<Rightarrow> result list \<Rightarrow> histogram go" where
  "histogram_add_all h [] = Inr h"
| "histogram_add_all h (r # rs) = go_bind (histogram_add h r) (\<lambda>h'. histogram_add_all h' rs)"

text \<open>\<open>Buckets.Nth\<close> and \<open>Histogram.MarshalJSON\<close>.\<close>

definition buckets_nth :: "duration list \<Rightarrow> nat \<Rightarrow> (string \<times> string) go" where
  "buckets_nth bs i =
    (if length bs \<le> i then Inl IndexOutOfRange
     else if length bs \<le> i + 1 then Inr (duration_string (bs ! i), ''+Inf'')
     else Inr (duration_string (bs ! i), duration_string (bs ! (i + 1))))"

fun json_buckets :: "duration list \<Rightarrow> u64 list \<Rightarrow> bool \<Rightarrow> string go" where
  "json_buckets [] cs first = Inr []"
| "json_buckets (b # bs) [] first = Inl IndexOutOfRange"
| "json_buckets (b # bs) (c # cs) first =
    go_bind (json_buckets bs cs False) (\<lambda>rest.
      Inr ((if first then [] else '', '') @ CHR 0x22 # format_int b @ [CHR 0x22, CHR '':'', CHR '' ''] @ format_uint c @ rest))"

definition histogram_marshal_json :: "histogram \<Rightarrow> string go" where
  "histogram_marshal_json h = go_bind (json_buckets (Buckets h) (Counts h) True) (\<lambda>s. Inr (''{'' @ s @ ''}''))"

text \<open>\<open>Buckets.UnmarshalText\<close>: \<open>Inl\<close> of the error text. It appends to the buckets it is called on.\<close>

fun append_buckets :: "bool \<Rightarrow> string list \<Rightarrow> duration list \<Rightarrow> string + duration list" where
  "append_buckets first [] bs = Inr bs"
| "append_buckets first (v # vs) bs =
    (case parse_duration (trim_space v) of
       None \<Rightarrow> Inl ''time: invalid duration''
     | Some d \<Rightarrow> append_buckets False vs ((if first \<and> 0 <s d then bs @ [0] else bs) @ [d]))"

definition unmarshal_buckets :: "duration list \<Rightarrow> string \<Rightarrow> string + duration list" where
  "unmarshal_buckets bs value =
    (if length value < 2 \<or> hd value \<noteq> CHR ''['' \<or> last value \<noteq> CHR '']''
     then Inl (''bad buckets: '' @ value)
     else go_bind (append_buckets True (split (CHR '','') (butlast (tl value))) bs) (\<lambda>bs'.
       if bs' = [] then Inl (''bad buckets: '' @ value) else Inr bs'))"

section \<open>Where a latency is counted\<close>

text \<open>Buckets in increasing order, and the bucket a latency belongs to.\<close>

definition ordered_buckets :: "duration list \<Rightarrow> bool" where
  "ordered_buckets bs \<longleftrightarrow> sorted_wrt (<) (map sint bs)"

definition in_bucket :: "duration list \<Rightarrow> nat \<Rightarrow> duration \<Rightarrow> bool" where
  "in_bucket bs i latency \<longleftrightarrow>
    sint (bs ! i) \<le> sint latency \<and> (i + 1 < length bs \<longrightarrow> sint latency < sint (bs ! (i + 1)))"

lemma bucket_index_less: "bs \<noteq> [] \<Longrightarrow> bucket_index bs l < length bs"
  by (induction bs l rule: bucket_index.induct) auto

lemma bucket_index_in:
  "bs \<noteq> [] \<Longrightarrow> ordered_buckets bs \<Longrightarrow> sint (hd bs) \<le> sint l \<Longrightarrow> in_bucket bs (bucket_index bs l) l"
proof (induction bs l rule: bucket_index.induct)
  case (1 a b bs l)
  show ?case
  proof (cases "sint l < sint b")
    case True
    with 1 show ?thesis by (simp add: in_bucket_def word_sle_eq word_sless_alt)
  next
    case False
    then have n: "\<not> (a \<le>s l \<and> l <s b)" by (simp add: word_sless_alt)
    from "1.IH" [OF n] "1.prems" False
    have "in_bucket (b # bs) (bucket_index (b # bs) l) l" by (simp add: ordered_buckets_def)
    with False show ?thesis by (simp add: in_bucket_def word_sle_eq word_sless_alt)
  qed
qed (auto simp: in_bucket_def)

lemma ordered_buckets_nth: "ordered_buckets bs \<Longrightarrow> i < j \<Longrightarrow> j < length bs \<Longrightarrow> sint (bs ! i) < sint (bs ! j)"
  unfolding ordered_buckets_def by (drule sorted_wrt_nth_less [of _ _ i j]) simp_all

lemma in_bucket_unique:
  assumes "ordered_buckets bs" "in_bucket bs i l" "in_bucket bs j l" "i < length bs" "j < length bs"
  shows "i = j"
proof -
  have False if "k < m" "m < length bs" "in_bucket bs k l" "in_bucket bs m l" for k m
  proof -
    have "sint (bs ! (k + 1)) \<le> sint (bs ! m)"
      using ordered_buckets_nth [OF assms(1), of "k + 1" m] that(1,2) by (cases "k + 1 = m") auto
    then show False using that by (simp add: in_bucket_def)
  qed
  then show ?thesis using assms by (meson linorder_neqE_nat)
qed

lemma bucket_index_below: "length bs \<ge> 1 \<Longrightarrow> ordered_buckets bs \<Longrightarrow> sint l < sint (hd bs) \<Longrightarrow> bucket_index bs l = length bs - 1"
proof (induction bs l rule: bucket_index.induct)
  case (1 a b bs l)
  then have "sint l < sint b" by (simp add: ordered_buckets_def)
  with 1 show ?case by (simp add: word_sle_eq ordered_buckets_def)
qed auto

section \<open>Counting\<close>

lemma histogram_add_Inr:
  assumes "Buckets h \<noteq> []" and "length (Counts h) = length (Buckets h)"
  shows "histogram_add h r = Inr (h\<lparr>Counts := (Counts h)[bucket_index (Buckets h) (Latency r) :=
    Counts h ! bucket_index (Buckets h) (Latency r) + 1], Total := Total h + 1\<rparr>)"
  using assms bucket_index_less [of "Buckets h" "Latency r"] by (simp add: histogram_add_def Let_def)

lemma histogram_add_all_counts:
  assumes "Buckets h \<noteq> []" and "length (Counts h) = length (Buckets h)"
  shows "\<exists>h'. histogram_add_all h rs = Inr h' \<and> Buckets h' = Buckets h \<and>
    length (Counts h') = length (Buckets h) \<and> Total h' = Total h + of_nat (length rs) \<and>
    (\<forall>i < length (Buckets h). Counts h' ! i =
      Counts h ! i + of_nat (length (filter (\<lambda>r. bucket_index (Buckets h) (Latency r) = i) rs)))"
  using assms
proof (induction rs arbitrary: h)
  case (Cons r rs)
  let ?i = "bucket_index (Buckets h) (Latency r)"
  let ?h = "h\<lparr>Counts := (Counts h)[?i := Counts h ! ?i + 1], Total := Total h + 1\<rparr>"
  have "?i < length (Counts h)" using bucket_index_less [of "Buckets h"] Cons.prems by simp
  moreover obtain h' where "histogram_add_all ?h rs = Inr h'" "Buckets h' = Buckets h"
      "length (Counts h') = length (Buckets h)" "Total h' = Total h + 1 + of_nat (length rs)"
      "\<forall>i < length (Buckets h). Counts h' ! i =
        (Counts h)[?i := Counts h ! ?i + 1] ! i + of_nat (length (filter (\<lambda>r. bucket_index (Buckets h) (Latency r) = i) rs))"
    using Cons.IH [of ?h] Cons.prems by auto
  ultimately show ?case
    by (intro exI [of _ h']) (auto simp: histogram_add_Inr [OF Cons.prems] nth_list_update algebra_simps)
qed simp

lemma histogram_add_all_fresh:
  assumes "bs \<noteq> []"
  shows "\<exists>h'. histogram_add_all (new_histogram bs) rs = Inr h' \<and> Buckets h' = bs \<and>
    Total h' = of_nat (length rs) \<and> (if rs = [] then Counts h' = [] else
     length (Counts h') = length bs \<and> (\<forall>i < length bs. Counts h' ! i =
      of_nat (length (filter (\<lambda>r. bucket_index bs (Latency r) = i) rs))))"
proof (cases rs)
  case (Cons r rs')
  let ?h0 = "(new_histogram bs)\<lparr>Counts := replicate (length bs) 0\<rparr>"
  have "histogram_add (new_histogram bs) r = histogram_add ?h0 r"
    using assms by (simp add: histogram_add_def new_histogram_def Let_def)
  then have "histogram_add_all (new_histogram bs) rs = histogram_add_all ?h0 rs"
    using Cons by simp
  then show ?thesis using histogram_add_all_counts [of ?h0 rs] assms Cons by (auto simp: new_histogram_def)
qed (simp add: new_histogram_def)

lemma histogram_add_all_empty: "histogram_add_all (new_histogram []) (r # rs) = Inl IndexOutOfRange"
  by (simp add: histogram_add_def new_histogram_def)

lemma json_buckets_total: "length bs \<le> length cs \<Longrightarrow> \<not> isl (json_buckets bs cs f)"
  by (induction bs cs f rule: json_buckets.induct) (auto simp: go_bind_Inl_iff isl_def)

lemma histogram_add_all_buckets:
  assumes "bs \<noteq> []" and "ordered_buckets bs" and "rs \<noteq> []"
  shows "\<exists>h. histogram_add_all (new_histogram bs) rs = Inr h \<and> Total h = of_nat (length rs) \<and>
    Counts h = map (\<lambda>i. of_nat (length (filter (\<lambda>r. in_bucket bs i (Latency r) \<or>
      sint (Latency r) < sint (hd bs) \<and> i = length bs - 1) rs))) [0..<length bs]"
proof -
  have eq: "bucket_index bs l = i \<longleftrightarrow> in_bucket bs i l \<or> sint l < sint (hd bs) \<and> i = length bs - 1"
    if i: "i < length bs" for i l
  proof (cases "sint l < sint (hd bs)")
    case True
    have "\<not> in_bucket bs i l"
    proof
      assume "in_bucket bs i l"
      moreover have "sint (hd bs) \<le> sint (bs ! i)"
        using ordered_buckets_nth [OF assms(2), of 0 i] i assms(1) by (cases "i = 0") (auto simp: hd_conv_nth)
      ultimately show False using True by (simp add: in_bucket_def)
    qed
    moreover have "bucket_index bs l = length bs - 1"
      using assms(1,2) True by (intro bucket_index_below) (simp_all add: Suc_leI)
    ultimately show ?thesis using True by auto
  next
    case False
    have b: "in_bucket bs (bucket_index bs l) l" "bucket_index bs l < length bs"
      using bucket_index_in [OF assms(1,2)] bucket_index_less [OF assms(1)] False by simp_all
    then have "bucket_index bs l = i \<longleftrightarrow> in_bucket bs i l"
      using in_bucket_unique [OF assms(2) b(1), of i] i by auto
    then show ?thesis using False by simp
  qed
  obtain h where h: "histogram_add_all (new_histogram bs) rs = Inr h" "Total h = of_nat (length rs)"
    "length (Counts h) = length bs"
    "\<forall>i < length bs. Counts h ! i = of_nat (length (filter (\<lambda>r. bucket_index bs (Latency r) = i) rs))"
    using histogram_add_all_fresh [OF assms(1), of rs] assms(3) by auto
  have "Counts h = map (\<lambda>i. of_nat (length (filter (\<lambda>r. in_bucket bs i (Latency r) \<or>
      sint (Latency r) < sint (hd bs) \<and> i = length bs - 1) rs))) [0..<length bs]"
    using h(3,4) eq by (intro nth_equalityI) simp_all
  with h show ?thesis by blast
qed

section \<open>Properties\<close>

text \<open>
  What a histogram counts: for increasing bucket bounds and any results, the count of each
  bucket is the number of results whose latency lies between its bound and the next (or above
  the last bound), except that a latency below the first bound is counted in the last bucket;
  the total is the number of results.
\<close>

theorem histogram_counts:
  assumes "bs \<noteq> []" and "ordered_buckets bs" and "rs \<noteq> []"
  shows "\<exists>h. histogram_add_all (new_histogram bs) rs = Inr h \<and> Total h = of_nat (length rs) \<and>
    Counts h = map (\<lambda>i. of_nat (length (filter (\<lambda>r. in_bucket bs i (Latency r) \<or>
      sint (Latency r) < sint (hd bs) \<and> i = length bs - 1) rs))) [0..<length bs]"
  using assms by (rule histogram_add_all_buckets)

theorem histogram_counts_witness:
  "\<exists>h. histogram_add_all (new_histogram [5, 10])
      [zero_result\<lparr>Latency := 7\<rparr>, zero_result\<lparr>Latency := 12\<rparr>, zero_result\<lparr>Latency := 1\<rparr>] = Inr h \<and>
    Counts h = [1, 2]"
  using histogram_counts [of "[5, 10]" "[zero_result\<lparr>Latency := 7\<rparr>, zero_result\<lparr>Latency := 12\<rparr>, zero_result\<lparr>Latency := 1\<rparr>]"]
  by (auto simp: ordered_buckets_def in_bucket_def upt_rec)


text \<open>The text of whole durations, a number with a unit each.\<close>

definition bucket_text :: "nat \<times> string \<Rightarrow> string" where
  "bucket_text p = format_nat (fst p) @ snd p"

definition bucket_bound :: "nat \<times> string \<Rightarrow> nat" where
  "bucket_bound p = fst p * the (map_of duration_units (snd p))"

definition wf_bucket :: "nat \<times> string \<Rightarrow> bool" where
  "wf_bucket p \<longleftrightarrow> snd p \<in> set (map fst duration_units) \<and> bucket_bound p < 2 ^ 63"

definition buckets_text :: "(nat \<times> string) list \<Rightarrow> string" where
  "buckets_text ps = ''['' @ join '','' (map bucket_text ps) @ '']''"

lemma unit_facts: "list_all (\<lambda>(u, k). ascii_graphic (last u) \<and> CHR '','' \<notin> set u) duration_units"
  by (simp add: duration_units_def ascii_graphic_def)

lemma digit_char_facts: "d < 10 \<Longrightarrow> ascii_graphic (digit_char d) \<and> digit_char d \<noteq> CHR '','' "
proof
  assume d: "d < 10"
  then show "ascii_graphic (digit_char d)" by (simp add: ascii_graphic_def digit_char_def of_char_of)
  have "digit_val (CHR '','') = None" by (simp add: digit_val_def)
  then show "digit_char d \<noteq> CHR '',''" using d by (metis digit_val_char option.distinct(1))
qed

lemma bucket_text_facts:
  assumes "wf_bucket p"
  shows "parse_duration (trim_space (bucket_text p)) = Some (of_nat (bucket_bound p))"
    and "CHR '','' \<notin> set (bucket_text p)"
proof -
  obtain u k where u: "(u, k) \<in> set duration_units" "snd p = u" using assms by (auto simp: wf_bucket_def)
  note uf = duration_unit [OF u(1)]
  have "ascii_graphic (last u)" "CHR '','' \<notin> set u"
    using unit_facts u(1) by (auto simp: list_all_iff)
  then have "clean (bucket_text p)"
    using u(2) uf(1) format_nat_hd [of "fst p"] digit_char_facts by (auto simp: clean_def bucket_text_def)
  moreover have "parse_duration (bucket_text p) = Some (of_nat (bucket_bound p))"
    using parse_duration_whole [OF u(1), of "fst p"] assms u(2) uf(4)
    by (simp add: bucket_text_def bucket_bound_def wf_bucket_def)
  ultimately show "parse_duration (trim_space (bucket_text p)) = Some (of_nat (bucket_bound p))" by simp
  show "CHR '','' \<notin> set (bucket_text p)"
    using \<open>CHR '','' \<notin> set u\<close> u(2) format_nat_digits [of "CHR '',''" "fst p"] digit_char_facts
    by (metis UnE bucket_text_def set_append)
qed

lemma append_buckets_text:
  "list_all wf_bucket ps \<Longrightarrow>
    append_buckets False (map bucket_text ps) bs = Inr (bs @ map (of_nat \<circ> bucket_bound) ps)"
  by (induction ps arbitrary: bs) (simp_all add: bucket_text_facts)

lemma bucket_bound_positive: "bucket_bound p < 2 ^ 63 \<Longrightarrow> (0 <s (of_nat (bucket_bound p) :: duration)) \<longleftrightarrow> 0 < bucket_bound p"
proof -
  assume "bucket_bound p < 2 ^ 63"
  then have "sint (word_of_int (int (bucket_bound p)) :: duration) = int (bucket_bound p)"
    by (intro sint_word_of_int_i64) simp_all
  then show ?thesis by (simp add: word_sless_alt)
qed

text \<open>
  The text format of buckets: a bracketed, comma-separated list of whole durations with
  units reads as exactly these bounds, with 0 put in front when the first is positive.
\<close>

theorem unmarshal_buckets_text:
  assumes "list_all wf_bucket (p # ps)"
  shows "unmarshal_buckets [] (buckets_text (p # ps)) =
    Inr ((if 0 < bucket_bound p then [0] else []) @ map (of_nat \<circ> bucket_bound) (p # ps))"
proof -
  have "split (CHR '','') (join '','' (map bucket_text (p # ps))) = map bucket_text (p # ps)"
    using assms bucket_text_facts(2) by (intro split_join) (auto simp: list_all_iff)
  then have s: "split (CHR '','') (butlast (tl (buckets_text (p # ps)))) = map bucket_text (p # ps)"
    by (simp add: buckets_text_def butlast_append)
  have "append_buckets True (map bucket_text (p # ps)) [] =
      Inr ((if 0 < bucket_bound p then [0] else []) @ map (of_nat \<circ> bucket_bound) (p # ps))"
    using assms append_buckets_text [of ps] bucket_text_facts(1) [of p] bucket_bound_positive [of p]
    by (simp add: wf_bucket_def)
  then show ?thesis
    by (simp only: unmarshal_buckets_def s) (simp add: buckets_text_def)
qed

theorem unmarshal_buckets_text_witness:
  "unmarshal_buckets [] (buckets_text [(5, ''ms''), (1, ''s'')]) = Inr [0, 5000000, 1000000000]"
  using unmarshal_buckets_text [of "(5, ''ms'')" "[(1, ''s'')]"]
  by (simp add: wf_bucket_def bucket_bound_def duration_units_def)

end
