(* ===== verification/Metrics.thy ===== *)
theory Metrics
  imports Histograms "HOL-Library.Multiset"
begin

text \<open>
  \<open>lib/metrics.go\<close>: the aggregation of results (\<open>Metrics.Add\<close>, \<open>LatencyMetrics.Add\<close>) and the
  derived figures (\<open>Metrics.Close\<close>). The quantile estimator is a third-party t-digest: its two
  operations are the arguments \<open>add\<close> and \<open>get\<close>, its initial state \<open>new\<close>; a query may change
  the estimator, as a digest that buffers its samples does. Maps and slices that
  are nil until \<open>init\<close> are empty here.
\<close>

section \<open>Latencies\<close>

record 'e latency_metrics =
  l_Total :: duration
  l_Mean :: duration
  l_P50 :: duration
  l_P90 :: duration
  l_P95 :: duration
  l_P99 :: duration
  l_Max :: duration
  l_Min :: duration
  l_estimator :: 'e

definition new_latencies :: "'e \<Rightarrow> 'e latency_metrics" where
  "new_latencies new = \<lparr>l_Total = 0, l_Mean = 0, l_P50 = 0, l_P90 = 0, l_P95 = 0, l_P99 = 0,
    l_Max = 0, l_Min = 0, l_estimator = new\<rparr>"

definition latency_add :: "('e \<Rightarrow> float64 \<Rightarrow> 'e) \<Rightarrow> 'e latency_metrics \<Rightarrow> duration \<Rightarrow> 'e latency_metrics" where
  "latency_add add l latency =
    (let l1 = l\<lparr>l_Total := l_Total l + latency\<rparr>;
         l2 = (if l_Max l1 <s latency then l1\<lparr>l_Max := latency\<rparr> else l1);
         l3 = (if latency <s l_Min l2 \<or> l_Min l2 = 0 then l2\<lparr>l_Min := latency\<rparr> else l2) in
     l3\<lparr>l_estimator := add (l_estimator l3) (f_of_int (sint latency))\<rparr>)"

type_synonym 'e query = "'e \<Rightarrow> float64 \<Rightarrow> float64 \<times> 'e"

definition latency_quantile :: "'e query \<Rightarrow> 'e latency_metrics \<Rightarrow> float64 \<Rightarrow> duration \<times> 'e latency_metrics" where
  "latency_quantile get l q =
    (case get (l_estimator l) q of (x, e) \<Rightarrow> (f_to_i64 x, l\<lparr>l_estimator := e\<rparr>))"

section \<open>Metrics\<close>

record 'e metrics =
  m_Latencies :: "'e latency_metrics"
  m_Histogram :: "histogram option"
  m_BytesIn :: u64
  m_BytesIn_Mean :: float64
  m_BytesOut :: u64
  m_BytesOut_Mean :: float64
  m_Earliest :: time
  m_Latest :: time
  m_End :: time
  m_Duration :: duration
  m_Wait :: duration
  m_Requests :: u64
  m_Rate :: float64
  m_Throughput :: float64
  m_Success :: float64
  m_StatusCodes :: "(string \<times> i64) list"
  m_Errors :: "string list"
  m_errors :: "string set"
  m_success :: u64

definition new_metrics :: "'e \<Rightarrow> histogram option \<Rightarrow> 'e metrics" where
  "new_metrics new h = \<lparr>m_Latencies = new_latencies new, m_Histogram = h, m_BytesIn = 0, m_BytesIn_Mean = Fin 0,
    m_BytesOut = 0, m_BytesOut_Mean = Fin 0, m_Earliest = 0, m_Latest = 0, m_End = 0, m_Duration = 0, m_Wait = 0,
    m_Requests = 0, m_Rate = Fin 0, m_Throughput = Fin 0, m_Success = Fin 0, m_StatusCodes = [], m_Errors = [],
    m_errors = {}, m_success = 0\<rparr>"

text \<open>\<open>m.StatusCodes[code]++\<close>; \<open>m.Earliest\<close>, where the zero time means unset.\<close>

definition count_code :: "string \<Rightarrow> (string \<times> i64) list \<Rightarrow> (string \<times> i64) list" where
  "count_code c m = AList.update c ((case map_of m c of None \<Rightarrow> 0 | Some n \<Rightarrow> n) + 1) m"

definition ok_code :: "u16 \<Rightarrow> bool" where
  "ok_code c \<longleftrightarrow> 200 \<le> c \<and> c < 400"

definition metrics_add_times :: "result \<Rightarrow> 'e metrics \<Rightarrow> 'e metrics" where
  "metrics_add_times r m =
    (let m1 = (if time_is_zero (m_Earliest m) \<or> time_after (m_Earliest m) (Timestamp r)
               then m\<lparr>m_Earliest := Timestamp r\<rparr> else m);
         m2 = (if time_after (Timestamp r) (m_Latest m1) then m1\<lparr>m_Latest := Timestamp r\<rparr> else m1) in
     if time_after (result_end r) (m_End m2) then m2\<lparr>m_End := result_end r\<rparr> else m2)"

definition metrics_add_outcome :: "result \<Rightarrow> 'e metrics \<Rightarrow> 'e metrics" where
  "metrics_add_outcome r m =
    (let m1 = (if ok_code (Code r) then m\<lparr>m_success := m_success m + 1\<rparr> else m) in
     if Error r \<noteq> [] \<and> Error r \<notin> m_errors m1
     then m1\<lparr>m_errors := insert (Error r) (m_errors m1), m_Errors := m_Errors m1 @ [Error r]\<rparr>
     else m1)"

definition metrics_count :: "('e \<Rightarrow> float64 \<Rightarrow> 'e) \<Rightarrow> 'e metrics \<Rightarrow> result \<Rightarrow> 'e metrics" where
  "metrics_count add m r =
    metrics_add_outcome r (metrics_add_times r
      (m\<lparr>m_Requests := m_Requests m + 1,
         m_StatusCodes := count_code (format_nat (unat (Code r))) (m_StatusCodes m),
         m_BytesOut := m_BytesOut m + BytesOut r,
         m_BytesIn := m_BytesIn m + BytesIn r,
         m_Latencies := latency_add add (m_Latencies m) (Latency r)\<rparr>))"

definition metrics_add :: "('e \<Rightarrow> float64 \<Rightarrow> 'e) \<Rightarrow> 'e metrics \<Rightarrow> result \<Rightarrow> 'e metrics go" where
  "metrics_add add m r =
    (let m' = metrics_count add m r in
     case m_Histogram m' of
       None \<Rightarrow> Inr m'
     | Some h \<Rightarrow> go_bind (histogram_add h r) (\<lambda>h'. Inr (m'\<lparr>m_Histogram := Some h'\<rparr>)))"

definition close_latencies :: "'e query \<Rightarrow> float64 \<Rightarrow> 'e latency_metrics \<Rightarrow> 'e latency_metrics" where
  "close_latencies get requests l0 =
    (let l = l0\<lparr>l_Mean := f_to_i64 (f_div (f_of_int (sint (l_Total l0))) requests)\<rparr>;
         l = (case latency_quantile get l (Fin (rnd (50 / 100))) of (d, l) \<Rightarrow> l\<lparr>l_P50 := d\<rparr>);
         l = (case latency_quantile get l (Fin (rnd (90 / 100))) of (d, l) \<Rightarrow> l\<lparr>l_P90 := d\<rparr>);
         l = (case latency_quantile get l (Fin (rnd (95 / 100))) of (d, l) \<Rightarrow> l\<lparr>l_P95 := d\<rparr>) in
     (case latency_quantile get l (Fin (rnd (99 / 100))) of (d, l) \<Rightarrow> l\<lparr>l_P99 := d\<rparr>))"

definition metrics_close :: "'e query \<Rightarrow> 'e metrics \<Rightarrow> 'e metrics" where
  "metrics_close get m =
    (if m_Requests m = 0 then m
     else
       let requests = f_of_int (uint (m_Requests m));
           success = f_of_int (uint (m_success m));
           duration = time_sub (m_Latest m) (m_Earliest m);
           wait = time_sub (m_End m) (m_Latest m);
           secs = duration_seconds duration in
       m\<lparr>m_Rate := (if f_less (Fin 0) secs then f_div requests secs else requests),
         m_Throughput := (if f_less (Fin 0) secs then f_div success (duration_seconds (duration + wait)) else success),
         m_Duration := duration,
         m_Wait := wait,
         m_BytesIn_Mean := f_div (f_of_int (uint (m_BytesIn m))) requests,
         m_BytesOut_Mean := f_div (f_of_int (uint (m_BytesOut m))) requests,
         m_Success := f_div success requests,
         m_Latencies := close_latencies get requests (m_Latencies m)\<rparr>)"

fun metrics_add_all :: "('e \<Rightarrow> float64 \<Rightarrow> 'e) \<Rightarrow> 'e metrics \<Rightarrow> result list \<Rightarrow> 'e metrics go" where
  "metrics_add_all add m [] = Inr m"
| "metrics_add_all add m (r # rs) = go_bind (metrics_add add m r) (\<lambda>m'. metrics_add_all add m' rs)"

section \<open>What the counters hold\<close>

text \<open>The metrics of a list of results, but for the histogram, which is counted beside them.\<close>

definition metrics_of :: "('e \<Rightarrow> float64 \<Rightarrow> 'e) \<Rightarrow> 'e \<Rightarrow> histogram option \<Rightarrow> result list \<Rightarrow> 'e metrics" where
  "metrics_of add new h rs = foldl (metrics_count add) (new_metrics new h) rs"

definition first_occurrences :: "'a list \<Rightarrow> 'a list" where
  "first_occurrences xs = rev (remdups (rev xs))"

lemma first_occurrences_simps [simp]:
  "first_occurrences [] = []"
  "first_occurrences (xs @ [x]) = (if x \<in> set xs then first_occurrences xs else first_occurrences xs @ [x])"
  "set (first_occurrences xs) = set xs"
  "distinct (first_occurrences xs)"
  by (simp_all add: first_occurrences_def)

lemma metrics_of_simps:
  "metrics_of add new h [] = new_metrics new h"
  "metrics_of add new h (rs @ [r]) = metrics_count add (metrics_of add new h rs) r"
  by (simp_all add: metrics_of_def)

lemma add_times_fields [simp]:
  "m_Latencies (metrics_add_times r m) = m_Latencies m" "m_Histogram (metrics_add_times r m) = m_Histogram m"
  "m_BytesIn (metrics_add_times r m) = m_BytesIn m" "m_BytesOut (metrics_add_times r m) = m_BytesOut m"
  "m_Requests (metrics_add_times r m) = m_Requests m" "m_StatusCodes (metrics_add_times r m) = m_StatusCodes m"
  "m_Errors (metrics_add_times r m) = m_Errors m" "m_errors (metrics_add_times r m) = m_errors m"
  "m_success (metrics_add_times r m) = m_success m"
  "m_Earliest (metrics_add_times r m) =
    (if m_Earliest m = 0 \<or> Timestamp r < m_Earliest m then Timestamp r else m_Earliest m)"
  "m_Latest (metrics_add_times r m) = max (m_Latest m) (Timestamp r)"
  "m_End (metrics_add_times r m) = max (m_End m) (result_end r)"
  by (simp_all add: metrics_add_times_def Let_def time_is_zero_def time_after_def)

lemma add_outcome_fields [simp]:
  "m_Latencies (metrics_add_outcome r m) = m_Latencies m" "m_Histogram (metrics_add_outcome r m) = m_Histogram m"
  "m_BytesIn (metrics_add_outcome r m) = m_BytesIn m" "m_BytesOut (metrics_add_outcome r m) = m_BytesOut m"
  "m_Requests (metrics_add_outcome r m) = m_Requests m" "m_StatusCodes (metrics_add_outcome r m) = m_StatusCodes m"
  "m_Earliest (metrics_add_outcome r m) = m_Earliest m" "m_Latest (metrics_add_outcome r m) = m_Latest m"
  "m_End (metrics_add_outcome r m) = m_End m"
  "m_success (metrics_add_outcome r m) = m_success m + (if ok_code (Code r) then 1 else 0)"
  "m_Errors (metrics_add_outcome r m) =
    (if Error r \<noteq> [] \<and> Error r \<notin> m_errors m then m_Errors m @ [Error r] else m_Errors m)"
  "m_errors (metrics_add_outcome r m) = (if Error r \<noteq> [] then insert (Error r) (m_errors m) else m_errors m)"
  by (simp_all add: metrics_add_outcome_def Let_def insert_absorb)

definition code_text :: "result \<Rightarrow> string" where
  "code_text r = format_nat (unat (Code r))"

definition result_errors :: "result list \<Rightarrow> string list" where
  "result_errors rs = filter (\<lambda>e. e \<noteq> []) (map Error rs)"

definition latest :: "time list \<Rightarrow> time" where
  "latest ts = foldr max ts 0"

lemma latest_Max: "latest ts = Max (insert 0 (set ts))"
proof (induction ts)
  case (Cons t ts)
  then show ?case by (simp add: latest_def insert_commute [of 0 t])
qed (simp add: latest_def)

lemma latest_snoc [simp]: "latest (ts @ [t]) = max (latest ts) t"
  by (simp add: latest_Max insert_commute [of 0 t] max.commute)

lemma metrics_of_counters:
  "m_Requests (metrics_of add new h rs) = of_nat (length rs)"
  "m_BytesIn (metrics_of add new h rs) = sum_list (map BytesIn rs)"
  "m_BytesOut (metrics_of add new h rs) = sum_list (map BytesOut rs)"
  "m_success (metrics_of add new h rs) = of_nat (length (filter (\<lambda>r. ok_code (Code r)) rs))"
  "m_errors (metrics_of add new h rs) = set (result_errors rs)"
  "m_Errors (metrics_of add new h rs) = first_occurrences (result_errors rs)"
  "m_Latest (metrics_of add new h rs) = latest (map Timestamp rs)"
  "m_End (metrics_of add new h rs) = latest (map result_end rs)"
  "m_Histogram (metrics_of add new h rs) = h"
proof (induction rs rule: rev_induct)
  case Nil
  case 1 show ?case by (simp add: metrics_of_simps new_metrics_def)
  case 2 show ?case by (simp add: metrics_of_simps new_metrics_def)
  case 3 show ?case by (simp add: metrics_of_simps new_metrics_def)
  case 4 show ?case by (simp add: metrics_of_simps new_metrics_def)
  case 5 show ?case by (simp add: metrics_of_simps new_metrics_def result_errors_def)
  case 6 show ?case by (simp add: metrics_of_simps new_metrics_def result_errors_def)
  case 7 show ?case by (simp add: metrics_of_simps new_metrics_def latest_def)
  case 8 show ?case by (simp add: metrics_of_simps new_metrics_def latest_def)
  case 9 show ?case by (simp add: metrics_of_simps new_metrics_def)
next
  case (snoc r rs)
  case 1 show ?case using snoc by (simp add: metrics_of_simps metrics_count_def)
  case 2 show ?case using snoc by (simp add: metrics_of_simps metrics_count_def)
  case 3 show ?case using snoc by (simp add: metrics_of_simps metrics_count_def)
  case 4 show ?case using snoc by (simp add: metrics_of_simps metrics_count_def)
  case 5 show ?case using snoc by (simp add: metrics_of_simps metrics_count_def result_errors_def)
  case 6 show ?case using snoc by (simp add: metrics_of_simps metrics_count_def result_errors_def)
  case 7 show ?case using snoc by (simp add: metrics_of_simps metrics_count_def)
  case 8 show ?case using snoc by (simp add: metrics_of_simps metrics_count_def)
  case 9 show ?case using snoc by (simp add: metrics_of_simps metrics_count_def)
qed

lemma metrics_of_status_codes:
  "map_of (m_StatusCodes (metrics_of add new h rs)) c =
    (let n = length (filter (\<lambda>r. code_text r = c) rs) in if n = 0 then None else Some (of_nat n))"
proof (induction rs rule: rev_induct)
  case Nil
  show ?case by (simp add: metrics_of_simps new_metrics_def)
next
  case (snoc r rs)
  then show ?case
    by (cases "c = code_text r")
      (auto simp: metrics_of_simps metrics_count_def count_code_def update_conv Let_def code_text_def)
qed

lemma metrics_of_earliest:
  assumes "rs \<noteq> []" and "\<forall>r \<in> set rs. Timestamp r \<noteq> 0"
  shows "m_Earliest (metrics_of add new h rs) = Min (Timestamp ` set rs)"
  using assms
proof (induction rs rule: rev_induct)
  case (snoc r rs)
  show ?case
  proof (cases "rs = []")
    case True
    then show ?thesis using snoc by (simp add: metrics_of_simps(2) [of add new h "[]", simplified] metrics_count_def
        metrics_of_simps(1) new_metrics_def)
  next
    case False
    then have "Min (Timestamp ` set rs) \<in> Timestamp ` set rs" by (intro Min_in) simp_all
    then have "Min (Timestamp ` set rs) \<noteq> 0" using snoc.prems by (metis imageE UnI1 set_append)
    define M where "M = Min (Timestamp ` set rs)"
    have "Min (Timestamp ` set (rs @ [r])) = min (Timestamp r) M" using False by (simp add: M_def)
    moreover have "m_Earliest (metrics_of add new h rs) = M" "M \<noteq> 0"
      using snoc False \<open>Min (Timestamp ` set rs) \<noteq> 0\<close> by (simp_all add: M_def)
    ultimately show ?thesis by (simp only: metrics_of_simps metrics_count_def) simp
  qed
qed simp

lemma metrics_of_latencies: "m_Latencies (metrics_of add new h rs) = foldl (latency_add add) (new_latencies new) (map Latency rs)"
  by (induction rs rule: rev_induct) (simp_all add: metrics_of_simps metrics_count_def new_metrics_def)

lemma metrics_add_all_none:
  "metrics_add_all add m rs = Inr (foldl (metrics_count add) m rs)" if "m_Histogram m = None"
  using that by (induction rs arbitrary: m) (simp_all add: metrics_add_def Let_def metrics_count_def)

section \<open>Latencies\<close>

lemma latency_add_fields [simp]:
  "l_Total (latency_add add l x) = l_Total l + x"
  "l_Max (latency_add add l x) = (if l_Max l <s x then x else l_Max l)"
  "l_Min (latency_add add l x) = (if x <s l_Min l \<or> l_Min l = 0 then x else l_Min l)"
  "l_estimator (latency_add add l x) = add (l_estimator l) (f_of_int (sint x))"
  by (simp_all add: latency_add_def Let_def)

lemma new_latencies_fields [simp]:
  "l_Total (new_latencies new) = 0" "l_Max (new_latencies new) = 0" "l_Min (new_latencies new) = 0"
  "l_estimator (new_latencies new) = new"
  by (simp_all add: new_latencies_def)

lemma latencies_total: "l_Total (foldl (latency_add add) l xs) = l_Total l + sum_list xs"
  by (induction xs arbitrary: l) (simp_all add: add.assoc)

lemma latencies_estimator:
  "l_estimator (foldl (latency_add add) l xs) = foldl add (l_estimator l) (map (\<lambda>x. f_of_int (sint x)) xs)"
  by (induction xs arbitrary: l) simp_all

lemma latencies_max: "sint (l_Max (foldl (latency_add add) l xs)) = Max (insert (sint (l_Max l)) (sint ` set xs))"
proof (induction xs rule: rev_induct)
  case (snoc x xs)
  define M where "M = Max (insert (sint (l_Max l)) (sint ` set xs))"
  have "Max (insert (sint (l_Max l)) (sint ` set (xs @ [x]))) = Max (insert (sint x) (insert (sint (l_Max l)) (sint ` set xs)))"
    by (simp only: set_append list.set image_Un) (simp add: insert_commute)
  also have "\<dots> = max (sint x) M" unfolding M_def by (rule Max_insert) simp_all
  finally have "Max (insert (sint (l_Max l)) (sint ` set (xs @ [x]))) = max (sint x) M" .
  moreover have "sint (l_Max (foldl (latency_add add) l (xs @ [x]))) = max (sint x) M"
    using snoc [folded M_def] by (simp add: word_sless_alt max_def)
  ultimately show ?case by (simp only:)
qed simp

text \<open>The minimum restarts whenever it is 0, so it is that of the latencies after the last 0.\<close>

definition after_last_zero :: "duration list \<Rightarrow> duration list" where
  "after_last_zero xs = rev (takeWhile (\<lambda>x. x \<noteq> 0) (rev xs))"

definition least :: "duration list \<Rightarrow> int" where
  "least xs = (if xs = [] then 0 else Min (sint ` set xs))"

lemma after_last_zero_snoc: "after_last_zero (xs @ [x]) = (if x = 0 then [] else after_last_zero xs @ [x])"
  by (simp add: after_last_zero_def)

lemma after_last_zero_pos: "x \<in> set (after_last_zero xs) \<Longrightarrow> x \<in> set xs \<and> x \<noteq> 0"
  by (auto simp: after_last_zero_def dest: set_takeWhileD)

lemma latencies_min:
  assumes "\<forall>x \<in> set xs. 0 \<le> sint x"
  shows "sint (l_Min (foldl (latency_add add) (new_latencies new) xs)) = least (after_last_zero xs)"
  using assms
proof (induction xs rule: rev_induct)
  case Nil
  show ?case by (simp add: after_last_zero_def least_def)
next
  case (snoc x xs)
  let ?m = "l_Min (foldl (latency_add add) (new_latencies new) xs)"
  let ?ys = "after_last_zero xs"
  have IH: "sint ?m = least ?ys" and x: "0 \<le> sint x" using snoc by simp_all
  show ?case
  proof (cases "x = 0")
    case True
    have "0 \<le> sint ?m"
    proof (cases "?ys = []")
      case False
      then have "Min (sint ` set ?ys) \<in> sint ` set ?ys" by (intro Min_in) simp_all
      then obtain y where "y \<in> set ?ys" "Min (sint ` set ?ys) = sint y" by blast
      then show ?thesis using after_last_zero_pos [of y xs] snoc.prems IH False by (auto simp: least_def)
    qed (simp add: IH least_def)
    then have "?m \<noteq> 0 \<Longrightarrow> 0 < sint ?m" by (metis i64_sint_eq_0 order_le_less)
    with True show ?thesis by (auto simp: after_last_zero_snoc least_def word_sless_alt)
  next
    case False
    show ?thesis
    proof (cases "?ys = []")
      case True
      then have "?m = 0" using IH by (simp add: least_def)
      then show ?thesis using True False by (simp add: after_last_zero_snoc least_def)
    next
      case ys: False
      then have "Min (sint ` set ?ys) \<in> sint ` set ?ys" by (intro Min_in) simp_all
      then have "Min (sint ` set ?ys) \<noteq> 0" using after_last_zero_pos [of _ xs] by auto
      then have "?m \<noteq> 0" using IH ys by (auto simp: least_def)
      moreover have "least (after_last_zero (xs @ [x])) = min (sint x) (sint ?m)"
        using IH ys False by (simp add: after_last_zero_snoc least_def)
      ultimately show ?thesis by (simp add: word_sless_alt min_def)
    qed
  qed
qed

section \<open>Derived figures\<close>

text \<open>A ratio of counts below \<open>2\<^sup>5\<^sup>3\<close> rounds to 0 or 1 only when it is 0 or 1.\<close>

lemma rnd_ratio:
  fixes s n :: int
  assumes "0 \<le> s" and "s \<le> n" and "0 < n" and "n \<le> 2 ^ 53"
  shows "0 \<le> rnd (of_int s / of_int n)" and "rnd (of_int s / of_int n) \<le> 1"
    and "rnd (of_int s / of_int n) = 1 \<longleftrightarrow> s = n" and "rnd (of_int s / of_int n) = 0 \<longleftrightarrow> s = 0"
proof -
  have n: "(0 :: rat) < of_int n" using assms(3) by simp
  have q: "0 \<le> of_int s / (of_int n :: rat)" "of_int s / (of_int n :: rat) \<le> 1"
    using assms n by (simp_all add: divide_le_eq)
  then show "0 \<le> rnd (of_int s / of_int n)" "rnd (of_int s / of_int n) \<le> 1"
    using rnd_unit by simp_all
  show "rnd (of_int s / of_int n) = 1 \<longleftrightarrow> s = n"
  proof
    assume one: "rnd (of_int s / of_int n) = 1"
    show "s = n"
    proof (rule ccontr)
      assume "s \<noteq> n"
      then have "(of_int s :: rat) \<le> of_int n - 1" using assms(2) by linarith
      then have "of_int s / (of_int n :: rat) \<le> 1 - 1 / of_int n"
        using n by (simp add: divide_le_eq left_diff_distrib)
      also have "\<dots> \<le> 1 - 1 / 2 ^ 53"
      proof -
        have "(of_int n :: rat) \<le> of_int (2 ^ 53)" using assms(4) by (simp only: of_int_le_iff)
        then have "(of_int n :: rat) \<le> 2 ^ 53" by simp
        then show ?thesis using n by (simp only: diff_left_mono frac_le)
      qed
      also have "\<dots> = of_int (2 ^ 53 - 1) * p2 (- 53)" by (simp add: p2_def field_simps)
      finally have "rnd (of_int s / of_int n) \<le> rnd (of_int (2 ^ 53 - 1) * p2 (- 53))" by (rule rnd_mono)
      also have "\<dots> = of_int (2 ^ 53 - 1) * p2 (- 53)" by (rule rnd_exact) simp_all
      also have "\<dots> < 1" by (simp add: p2_def field_simps)
      finally show False using one by simp
    qed
  qed (use assms rnd_of_int [of 1] in simp)
  show "rnd (of_int s / of_int n) = 0 \<longleftrightarrow> s = 0"
  proof
    assume zero: "rnd (of_int s / of_int n) = 0"
    show "s = 0"
    proof (rule ccontr)
      assume "s \<noteq> 0"
      then have "(1 :: rat) \<le> of_int s" using assms(1) by linarith
      have "(of_int n :: rat) \<le> of_int (2 ^ 53)" using assms(4) by (simp only: of_int_le_iff)
      then have "1 / 2 ^ 53 \<le> of_int s / (of_int n :: rat)"
        using n \<open>1 \<le> of_int s\<close> by (intro frac_le) simp_all
      then have "of_int 1 * p2 (- 53) \<le> of_int s / (of_int n :: rat)" by (simp add: p2_def)
      then have "rnd (of_int 1 * p2 (- 53)) \<le> 0" using rnd_mono zero by metis
      then have "p2 (- 53) \<le> 0" using rnd_exact [of 1 "- 53"] by simp
      then show False using p2_pos [of "- 53"] by linarith
    qed
  qed simp
qed

lemma f_div_ratio:
  fixes s n :: int
  assumes "0 \<le> s" and "s \<le> n" and "0 < n" and "n \<le> 2 ^ 53"
  shows "f_div (f_of_int s) (f_of_int n) = Fin (rnd (of_int s / of_int n))"
proof -
  define r :: rat where "r = of_int s / of_int n"
  have "\<bar>rnd r\<bar> \<le> 1" using rnd_ratio(1,2) [OF assms] unfolding r_def by linarith
  then have "\<bar>rnd r\<bar> \<le> 2 ^ 53" by (rule order_trans) simp
  then have "f_round r = Fin (rnd r)" by (rule f_round_bounded)
  moreover have "f_of_int s = Fin (of_int s)" "f_of_int n = Fin (of_int n)"
    using assms by (simp_all add: f_of_int_exact)
  ultimately show ?thesis using assms(3) by (simp add: f_div_def r_def)
qed

section \<open>The specification: a summary of a multiset of results\<close>

text \<open>
  What the counters of a \<open>Metrics\<close> promise, in terms of the results that were added and not of
  their order. \<open>Earliest\<close> takes the zero time for unset, so it is specified for results that
  have a timestamp.
\<close>

definition max_time :: "(result \<Rightarrow> time) \<Rightarrow> result multiset \<Rightarrow> time" where
  "max_time f R = Max (insert 0 (f ` set_mset R))"

definition timestamped :: "result multiset \<Rightarrow> bool" where
  "timestamped R \<longleftrightarrow> R \<noteq> {#} \<and> (\<forall>r \<in># R. Timestamp r \<noteq> 0)"

definition counts_codes :: "(string \<times> i64) list \<Rightarrow> result multiset \<Rightarrow> bool" where
  "counts_codes m R \<longleftrightarrow>
    (\<forall>c. map_of m c =
      (if \<exists>r \<in># R. code_text r = c then Some (of_nat (size {#r \<in># R. code_text r = c#})) else None))"

definition summarises :: "'e metrics \<Rightarrow> result multiset \<Rightarrow> bool" where
  "summarises m R \<longleftrightarrow>
    m_Requests m = of_nat (size R) \<and>
    m_success m = of_nat (size {#r \<in># R. ok_code (Code r)#}) \<and>
    m_BytesIn m = (\<Sum>r \<in># R. BytesIn r) \<and> m_BytesOut m = (\<Sum>r \<in># R. BytesOut r) \<and>
    counts_codes (m_StatusCodes m) R \<and>
    distinct (m_Errors m) \<and> set (m_Errors m) = Error ` set_mset R - {[]} \<and>
    m_Latest m = max_time Timestamp R \<and> m_End m = max_time result_end R \<and>
    (timestamped R \<longrightarrow> m_Earliest m = Min (Timestamp ` set_mset R)) \<and>
    l_Total (m_Latencies m) = (\<Sum>r \<in># R. Latency r) \<and>
    sint (l_Max (m_Latencies m)) = Max (insert 0 ((\<lambda>r. sint (Latency r)) ` set_mset R))"

lemma sum_list_mset: "sum_list (map f rs) = (\<Sum>r \<in># mset rs. f r)"
  by (induction rs) simp_all

lemma max_time_latest: "latest (map f rs) = max_time f (mset rs)"
  by (simp add: latest_Max max_time_def)

lemma metrics_of_summarises: "summarises (metrics_of add new h rs) (mset rs)"
proof -
  have len: "length (filter P rs) = size {#r \<in># mset rs. P r#}" for P
    by (metis mset_filter size_mset)
  have "counts_codes (m_StatusCodes (metrics_of add new h rs)) (mset rs)"
    unfolding counts_codes_def metrics_of_status_codes Let_def len
    by (auto simp: size_eq_0_iff_empty)
  moreover have "set (result_errors rs) = Error ` set rs - {[]}"
    by (auto simp: result_errors_def)
  moreover have "timestamped (mset rs) \<longrightarrow> m_Earliest (metrics_of add new h rs) = Min (Timestamp ` set rs)"
    using metrics_of_earliest [of rs add new h] by (simp add: timestamped_def)
  moreover have "l_Total (m_Latencies (metrics_of add new h rs)) = (\<Sum>r \<in># mset rs. Latency r)"
    by (simp add: metrics_of_latencies latencies_total sum_list_mset)
  moreover have "sint (l_Max (m_Latencies (metrics_of add new h rs))) = Max (insert 0 ((\<lambda>r. sint (Latency r)) ` set rs))"
    by (simp add: metrics_of_latencies latencies_max image_image)
  ultimately show ?thesis
    by (simp add: summarises_def metrics_of_counters len max_time_latest sum_list_mset)
qed

text \<open>A histogram is counted beside the rest.\<close>

lemma metrics_count_keeps_histogram [simp]: "m_Histogram (metrics_count add m r) = m_Histogram m"
  by (simp add: metrics_count_def)

lemma metrics_add_Inr:
  assumes "metrics_add add m r = Inr m'"
  shows "m' = metrics_count add m r\<lparr>m_Histogram := m_Histogram m'\<rparr>"
proof (cases "m_Histogram m")
  case None
  then have "m' = metrics_count add m r" using assms by (simp add: metrics_add_def Let_def)
  then show ?thesis by simp
next
  case (Some h)
  then obtain h' where "m' = metrics_count add m r\<lparr>m_Histogram := Some h'\<rparr>"
    using assms by (auto simp: metrics_add_def Let_def go_bind_Inr_iff)
  then show ?thesis by simp
qed

lemma add_times_histogram: "metrics_add_times r (m\<lparr>m_Histogram := h\<rparr>) = metrics_add_times r m\<lparr>m_Histogram := h\<rparr>"
  by (cases m) (simp add: metrics_add_times_def Let_def)

lemma add_outcome_histogram: "metrics_add_outcome r (m\<lparr>m_Histogram := h\<rparr>) = metrics_add_outcome r m\<lparr>m_Histogram := h\<rparr>"
  by (cases m) (simp add: metrics_add_outcome_def Let_def)

lemma metrics_count_histogram: "metrics_count add (m\<lparr>m_Histogram := h\<rparr>) r = metrics_count add m r\<lparr>m_Histogram := h\<rparr>"
  by (cases m) (simp add: metrics_count_def flip: add_times_histogram add_outcome_histogram)

lemma metrics_add_all_Inr:
  "metrics_add_all add m rs = Inr m' \<Longrightarrow> \<exists>h. m' = foldl (metrics_count add) m rs\<lparr>m_Histogram := h\<rparr>"
proof (induction rs arbitrary: m)
  case Nil
  then show ?case by (auto intro: exI [of _ "m_Histogram m"])
next
  case (Cons r rs)
  then obtain m1 where m1: "metrics_add add m r = Inr m1" "metrics_add_all add m1 rs = Inr m'"
    by (auto simp: go_bind_Inr_iff)
  define h1 where "h1 = m_Histogram m1"
  have h1: "m1 = metrics_count add m r\<lparr>m_Histogram := h1\<rparr>"
    unfolding h1_def by (rule metrics_add_Inr [OF m1(1)])
  have "foldl (metrics_count add) (x\<lparr>m_Histogram := h1\<rparr>) rs = foldl (metrics_count add) x rs\<lparr>m_Histogram := h1\<rparr>" for x
    by (induction rs arbitrary: x) (simp_all add: metrics_count_histogram)
  with Cons.IH [OF m1(2)] h1 show ?case by auto
qed

lemma summarises_histogram [simp]: "summarises (m\<lparr>m_Histogram := h\<rparr>) R = summarises m R"
  by (simp add: summarises_def)

lemma metrics_add_all_summarises:
  "metrics_add_all add (new_metrics new h) rs = Inr m \<Longrightarrow> summarises m (mset rs)"
  using metrics_add_all_Inr [of add "new_metrics new h" rs m] metrics_of_summarises [of add new h rs]
  by (auto simp: metrics_of_def)

section \<open>The figures of a closed report\<close>

lemma close_latencies_keeps [simp]:
  "l_Total (close_latencies get n l) = l_Total l" "l_Max (close_latencies get n l) = l_Max l"
  "l_Min (close_latencies get n l) = l_Min l"
  "l_Mean (close_latencies get n l) = f_to_i64 (f_div (f_of_int (sint (l_Total l))) n)"
  by (simp_all add: close_latencies_def latency_quantile_def Let_def split: prod.splits)

lemma close_keeps [simp]:
  "m_Requests (metrics_close get m) = m_Requests m" "m_success (metrics_close get m) = m_success m"
  "m_BytesIn (metrics_close get m) = m_BytesIn m" "m_BytesOut (metrics_close get m) = m_BytesOut m"
  "m_StatusCodes (metrics_close get m) = m_StatusCodes m" "m_Errors (metrics_close get m) = m_Errors m"
  "m_Latest (metrics_close get m) = m_Latest m" "m_End (metrics_close get m) = m_End m"
  "m_Earliest (metrics_close get m) = m_Earliest m"
  "l_Total (m_Latencies (metrics_close get m)) = l_Total (m_Latencies m)"
  "l_Max (m_Latencies (metrics_close get m)) = l_Max (m_Latencies m)"
  "l_Min (m_Latencies (metrics_close get m)) = l_Min (m_Latencies m)"
  by (simp_all add: metrics_close_def Let_def)

lemma close_figures:
  assumes "m_Requests m \<noteq> 0"
  shows "m_Success (metrics_close get m) = f_div (f_of_int (uint (m_success m))) (f_of_int (uint (m_Requests m)))"
    and "m_Rate (metrics_close get m) =
      (let secs = duration_seconds (time_sub (m_Latest m) (m_Earliest m)) in
       if f_less (Fin 0) secs then f_div (f_of_int (uint (m_Requests m))) secs else f_of_int (uint (m_Requests m)))"
    and "m_Throughput (metrics_close get m) =
      (if f_less (Fin 0) (duration_seconds (time_sub (m_Latest m) (m_Earliest m)))
       then f_div (f_of_int (uint (m_success m)))
         (duration_seconds (time_sub (m_Latest m) (m_Earliest m) + time_sub (m_End m) (m_Latest m)))
       else f_of_int (uint (m_success m)))"
    and "m_BytesIn_Mean (metrics_close get m) = f_div (f_of_int (uint (m_BytesIn m))) (f_of_int (uint (m_Requests m)))"
    and "m_BytesOut_Mean (metrics_close get m) = f_div (f_of_int (uint (m_BytesOut m))) (f_of_int (uint (m_Requests m)))"
    and "l_Mean (m_Latencies (metrics_close get m)) =
      f_to_i64 (f_div (f_of_int (sint (l_Total (m_Latencies m)))) (f_of_int (uint (m_Requests m))))"
    and "m_Duration (metrics_close get m) = time_sub (m_Latest m) (m_Earliest m)"
    and "m_Wait (metrics_close get m) = time_sub (m_End m) (m_Latest m)"
  using assms by (simp_all add: metrics_close_def Let_def)

text \<open>Counts of fewer than \<open>2\<^sup>6\<^sup>4\<close> results.\<close>

lemma uint_of_nat_u64: "n < 2 ^ 64 \<Longrightarrow> uint (of_nat n :: u64) = int n"
proof -
  assume "n < 2 ^ 64"
  then have "unat (of_nat n :: u64) = n" by (simp add: unat_of_nat)
  then show ?thesis by (metis uint_nat)
qed

lemma summary_counts:
  assumes "summarises m R" and "size R < 2 ^ 64"
  shows "uint (m_Requests m) = int (size R)"
    and "uint (m_success m) = int (size {#r \<in># R. ok_code (Code r)#})"
proof -
  have "size {#r \<in># R. ok_code (Code r)#} \<le> size R" by (simp add: size_filter_mset_lesseq)
  then have "size {#r \<in># R. ok_code (Code r)#} < 2 ^ 64" using assms(2) by (rule le_less_trans)
  then show "uint (m_Requests m) = int (size R)"
    and "uint (m_success m) = int (size {#r \<in># R. ok_code (Code r)#})"
    using assms uint_of_nat_u64 unfolding summarises_def by (metis, metis)
qed


definition at_time :: "time \<Rightarrow> duration \<Rightarrow> u16 \<Rightarrow> string \<Rightarrow> result" where
  "at_time t d c e = zero_result\<lparr>Timestamp := t, Latency := d, Code := c, Error := e\<rparr>"

lemma metrics_of_add_all:
  "metrics_add_all add (new_metrics new None) rs = Inr (metrics_of add new None rs)"
  unfolding metrics_of_def by (rule metrics_add_all_none) (simp add: new_metrics_def)


section \<open>Success and throughput\<close>

lemma seconds_zero [simp]: "seconds 0 = 0"
  by (simp add: seconds_def)

text \<open>The span of a report: its first timestamp, last timestamp and last end.\<close>

lemma summary_span:
  assumes "summarises m R" and "timestamped R" and "\<forall>r \<in># R. 0 < Timestamp r \<and> 0 \<le> sint (Latency r)"
  shows "0 < m_Earliest m" and "m_Earliest m \<le> m_Latest m" and "m_Latest m \<le> m_End m"
proof -
  have fin: "finite (f ` set_mset R)" for f :: "result \<Rightarrow> time" by simp
  have ne: "Timestamp ` set_mset R \<noteq> {}" using assms(2) by (simp add: timestamped_def)
  have E: "m_Earliest m = Min (Timestamp ` set_mset R)" using assms by (simp add: summarises_def)
  have L: "m_Latest m = Max (insert 0 (Timestamp ` set_mset R))" using assms by (simp add: summarises_def max_time_def)
  have N: "m_End m = Max (insert 0 (result_end ` set_mset R))" using assms by (simp add: summarises_def max_time_def)
  have e: "m_Earliest m \<in> Timestamp ` set_mset R" unfolding E using ne by (intro Min_in) simp_all
  then show "0 < m_Earliest m" using assms(3) by auto
  have "m_Earliest m \<in> insert 0 (Timestamp ` set_mset R)" using e by (rule insertI2)
  then show "m_Earliest m \<le> m_Latest m" unfolding L by (rule Max_ge [rotated]) simp
  have "t \<le> m_End m" if t: "t \<in> insert 0 (Timestamp ` set_mset R)" for t
  proof (cases "t = 0")
    case True
    then show ?thesis unfolding N by (intro Max_ge) simp_all
  next
    case False
    then obtain r where r: "r \<in># R" "t = Timestamp r" using t by blast
    then have "t \<le> result_end r" using assms(3) by (simp add: result_end_def time_add_def)
    also have "\<dots> \<le> m_End m" unfolding N using r by (intro Max_ge) simp_all
    finally show ?thesis .
  qed
  then show "m_Latest m \<le> m_End m" unfolding L by (subst Max_le_iff) simp_all
qed

lemma throughput_le_rate:
  fixes s n :: int and d w :: duration
  assumes "0 \<le> s" "s \<le> n" "n \<le> 2 ^ 53" and "0 \<le> sint d" "0 \<le> sint w" "sint d + sint w < 2 ^ 63"
    and "f_less (Fin 0) (duration_seconds d)"
  shows "f_le (f_div (f_of_int s) (duration_seconds (d + w))) (f_div (f_of_int n) (duration_seconds d))"
proof -
  have dw: "sint (d + w) = sint d + sint w"
    using assms by (intro sint_add_i64) (simp_all add: order_trans [of _ 0])
  have D: "duration_seconds d = Fin (seconds (sint d))" using assms(4) by (rule duration_seconds_nonneg)
  have W: "duration_seconds (d + w) = Fin (seconds (sint d + sint w))"
    using duration_seconds_nonneg [of "d + w"] assms(4,5) dw by simp
  have d: "0 < seconds (sint d)" using assms(7) by (simp add: D)
  have le: "seconds (sint d) \<le> seconds (sint d + sint w)" using assms(5) by (intro seconds_mono) simp
  have sn: "(of_int s :: rat) \<le> of_int n" "(0 :: rat) \<le> of_int s" using assms by simp_all
  have e: "f_of_int s = Fin (of_int s)" "f_of_int n = Fin (of_int n)" using assms by (simp_all add: f_of_int_exact)
  have "of_int s / seconds (sint d + sint w) \<le> of_int n / seconds (sint d)"
    using sn d le by (intro frac_le) simp_all
  then show ?thesis unfolding D W e using f_round_mono d le by (simp add: f_div_def)
qed

lemma report_span:
  assumes "summarises m R" and "timestamped R" and "0 < m_Latest m" "m_Latest m \<le> m_End m"
    and "\<forall>r \<in># R. \<forall>s \<in># R. result_end s - Timestamp r < k"
  shows "m_End m - m_Earliest m < k"
proof -
  have ne: "Timestamp ` set_mset R \<noteq> {}" using assms(2) by (simp add: timestamped_def)
  have "m_Earliest m = Min (Timestamp ` set_mset R)" using assms by (simp add: summarises_def)
  then have "m_Earliest m \<in> Timestamp ` set_mset R" using ne Min_in [of "Timestamp ` set_mset R"] by simp
  moreover have "m_End m = Max (insert 0 (result_end ` set_mset R))" using assms by (simp add: summarises_def max_time_def)
  then have "m_End m \<in> insert 0 (result_end ` set_mset R)" using Max_in [of "insert 0 (result_end ` set_mset R)"] by simp
  then have "m_End m \<in> result_end ` set_mset R" using assms(3,4) by simp
  ultimately show ?thesis using assms(5) by auto
qed

text \<open>
  C29. What a closed report says about success. For at least one and at most \<open>2\<^sup>5\<^sup>3\<close> results, all
  with a timestamp and a nonnegative latency, over less than 292 years: the success ratio is the
  rounded quotient of the results with a code from 200 to 399 by all results, lies between 0 and
  1, is 1 only when every result succeeded and 0 only when none did; and the throughput is never
  larger than the rate.
\<close>

theorem metrics_success_throughput:
  fixes m :: "'e metrics" and get :: "'e query"
  assumes "metrics_add_all add (new_metrics new h) rs = Inr m"
    and "rs \<noteq> []" and "length rs \<le> 2 ^ 53"
    and "\<forall>r \<in> set rs. 0 < Timestamp r \<and> 0 \<le> sint (Latency r)"
    and "\<forall>r \<in> set rs. \<forall>s \<in> set rs. result_end s - Timestamp r < 2 ^ 63"
  defines "c \<equiv> metrics_close get m" and "ok \<equiv> length (filter (\<lambda>r. ok_code (Code r)) rs)"
  shows "(\<exists>q. m_Success c = Fin q \<and> q = rnd (of_int (int ok) / of_int (int (length rs))) \<and> 0 \<le> q \<and> q \<le> 1 \<and>
      (q = 1 \<longleftrightarrow> (\<forall>r \<in> set rs. ok_code (Code r))) \<and> (q = 0 \<longleftrightarrow> (\<forall>r \<in> set rs. \<not> ok_code (Code r)))) \<and>
    f_le (m_Throughput c) (m_Rate c)"
proof -
  have s: "summarises m (mset rs)" using assms(1) by (rule metrics_add_all_summarises)
  have t: "timestamped (mset rs)" using assms(2,4) by (auto simp: timestamped_def)
  have "size (mset rs) < 2 ^ 64" using assms(3) by (simp add: order_le_less_trans)
  then have n: "uint (m_Requests m) = int (length rs)" and k: "uint (m_success m) = int ok"
    using summary_counts [OF s] unfolding ok_def by (simp_all flip: mset_filter)
  have R: "m_Requests m \<noteq> 0" using n assms(2) by auto
  have le: "0 \<le> int ok" "int ok \<le> int (length rs)" "0 < int (length rs)" "int (length rs) \<le> 2 ^ 53"
  proof -
    show "int (length rs) \<le> 2 ^ 53" using assms(3) by (metis of_nat_le_iff of_nat_numeral of_nat_power)
  qed (use assms(2) in \<open>simp_all add: ok_def\<close>)
  have all: "int ok = int (length rs) \<longleftrightarrow> (\<forall>r \<in> set rs. ok_code (Code r))"
    unfolding ok_def of_nat_eq_iff by (metis length_filter_less filter_True less_irrefl)
  have none: "int ok = 0 \<longleftrightarrow> (\<forall>r \<in> set rs. \<not> ok_code (Code r))"
    by (simp add: ok_def filter_empty_conv)
  define q where "q = rnd (of_int (int ok) / of_int (int (length rs)))"
  have "m_Success c = Fin q"
    unfolding c_def close_figures [OF R] n k q_def by (rule f_div_ratio [OF le])
  moreover have "0 \<le> q" "q \<le> 1" "q = 1 \<longleftrightarrow> (\<forall>r \<in> set rs. ok_code (Code r))"
    "q = 0 \<longleftrightarrow> (\<forall>r \<in> set rs. \<not> ok_code (Code r))"
    unfolding q_def rnd_ratio(3,4) [OF le] all none using rnd_ratio(1,2) [OF le] by simp_all
  moreover have "f_le (m_Throughput c) (m_Rate c)"
  proof (cases "f_less (Fin 0) (duration_seconds (time_sub (m_Latest m) (m_Earliest m)))")
    case True
    have sp: "0 < m_Earliest m" "m_Earliest m \<le> m_Latest m" "m_Latest m \<le> m_End m"
      using summary_span [OF s t] assms(4) by simp_all
    have span: "m_End m - m_Earliest m < 2 ^ 63" using report_span [OF s t _ sp(3), of "2 ^ 63"] assms(5) sp by simp
    then have "sint (time_sub (m_Latest m) (m_Earliest m)) = m_Latest m - m_Earliest m"
      "sint (time_sub (m_End m) (m_Latest m)) = m_End m - m_Latest m"
      using sp by (simp_all add: sint_time_sub_in_range)
    then show ?thesis
      using True throughput_le_rate [OF le(1,2,4) _ _ _ True, of "time_sub (m_End m) (m_Latest m)"] sp span
      by (simp add: c_def close_figures [OF R] n k Let_def)
  next
    case False
    have "(of_int (int ok) :: rat) \<le> of_int (int (length rs))" using le(2) by (simp only: of_int_le_iff)
    then have "f_le (f_of_int (int ok)) (f_of_int (int (length rs)))" unfolding f_of_int_def by (rule f_round_mono)
    then show ?thesis using False by (simp add: c_def close_figures [OF R] n k)
  qed
  ultimately show ?thesis unfolding q_def by blast
qed

theorem metrics_success_throughput_witness:
  "f_le (m_Throughput (metrics_close (\<lambda>e _. (Fin 0, e)) (metrics_of (\<lambda>e x. x # e) []
      None [at_time 5000000000 7 200 [], at_time 3000000000 9 500 ''x''])))
    (m_Rate (metrics_close (\<lambda>e _. (Fin 0, e)) (metrics_of (\<lambda>e x. x # e) []
      None [at_time 5000000000 7 200 [], at_time 3000000000 9 500 ''x''])))"
proof -
  let ?rs = "[at_time 5000000000 7 200 [], at_time 3000000000 9 500 ''x'']"
  have "?rs \<noteq> []" "length ?rs \<le> 2 ^ 53" by simp_all
  moreover have "\<forall>r \<in> set ?rs. 0 < Timestamp r \<and> 0 \<le> sint (Latency r)"
    "\<forall>r \<in> set ?rs. \<forall>s \<in> set ?rs. result_end s - Timestamp r < 2 ^ 63"
    by (simp_all add: at_time_def zero_result_def result_end_def time_add_def)
  ultimately show ?thesis
    using metrics_success_throughput [OF metrics_of_add_all [where add = "\<lambda>e x. x # e" and new = "[]" and rs = ?rs],
        where get = "\<lambda>e _. (Fin 0, e)"] by simp
qed

section \<open>Latency extremes\<close>

text \<open>
  C36. The latency extremes of nonnegative latencies. The maximum is the largest latency seen.
  The minimum is the least latency seen, unless one of them was 0: \<open>Add\<close> reads a minimum of 0 as
  "nothing seen yet", so it is the least of the latencies that came after the last 0. The
  estimator was fed every latency, in order.
\<close>

theorem latency_extremes:
  fixes add :: "'e \<Rightarrow> float64 \<Rightarrow> 'e" and new :: 'e
  assumes "\<forall>x \<in> set xs. 0 \<le> sint x"
  defines "l \<equiv> foldl (latency_add add) (new_latencies new) xs"
  shows "sint (l_Max l) = Max (insert 0 (sint ` set xs)) \<and>
    (0 \<notin> set xs \<longrightarrow> sint (l_Min l) = least xs) \<and>
    (\<forall>ys zs. xs = ys @ 0 # zs \<and> 0 \<notin> set zs \<longrightarrow> sint (l_Min l) = least zs) \<and>
    l_Total l = sum_list xs \<and>
    l_estimator l = foldl add new (map (\<lambda>x. f_of_int (sint x)) xs)"
proof -
  have nz: "takeWhile (\<lambda>x. x \<noteq> 0) (rev zs @ r) = rev zs @ takeWhile (\<lambda>x. x \<noteq> 0) r"
    if "0 \<notin> set zs" for zs r :: "duration list"
    using that by (intro takeWhile_append2) auto
  have "0 \<notin> set xs \<Longrightarrow> after_last_zero xs = xs"
    using nz [of xs "[]"] unfolding after_last_zero_def by (metis append_Nil2 rev_rev_ident takeWhile.simps(1))
  moreover have "after_last_zero (ys @ 0 # zs) = zs" if "0 \<notin> set zs" for ys zs :: "duration list"
    using nz [OF that, of "0 # rev ys"] by (simp add: after_last_zero_def)
  ultimately show ?thesis
    using latencies_min [OF assms(1), of add new]
    by (auto simp: l_def latencies_max latencies_total latencies_estimator)
qed

theorem latency_extremes_witness:
  "sint (l_Min (foldl (latency_add (\<lambda>e x. x # e)) (new_latencies []) [3, 0, 9, 5])) = 5"
proof -
  have "\<forall>x \<in> set [3, 0, 9, 5 :: duration]. 0 \<le> sint x" by simp
  moreover have "[3, 0, 9, 5 :: duration] = [3] @ 0 # [9, 5] \<and> 0 \<notin> set [9, 5 :: duration]" by simp
  ultimately have "sint (l_Min (foldl (latency_add (\<lambda>e x. x # e)) (new_latencies []) [3, 0, 9, 5])) = least [9, 5]"
    using latency_extremes [of "[3, 0, 9, 5]" "\<lambda>e x. x # e" "[]"] by blast
  then show ?thesis by (simp add: least_def)
qed

section \<open>Refinement\<close>

lemma metrics_add_all_histogram:
  "metrics_add_all add (m\<lparr>m_Histogram := Some h\<rparr>) rs =
    go_bind (histogram_add_all h rs) (\<lambda>h'. Inr (foldl (metrics_count add) m rs\<lparr>m_Histogram := Some h'\<rparr>))"
proof (induction rs arbitrary: m h)
  case (Cons r rs)
  show ?case
    by (cases "histogram_add h r") (simp_all add: metrics_add_def Let_def metrics_count_histogram Cons.IH)
qed simp

text \<open>
  C13. Refinement. Adding results one by one implements the summary of the multiset of results:
  without a histogram it never fails and its counters are the summary; with one it fails exactly
  when the histogram does, and otherwise differs only in the histogram, which is the one the
  same results leave when they are added to it alone.
\<close>

theorem metrics_refine_summary:
  "(\<exists>m. metrics_add_all add (new_metrics new None) rs = Inr m \<and> summarises m (mset rs) \<and>
    (\<forall>h. metrics_add_all add (new_metrics new (Some h)) rs =
      go_bind (histogram_add_all h rs) (\<lambda>h'. Inr (m\<lparr>m_Histogram := Some h'\<rparr>))))"
proof (intro exI conjI allI)
  show "metrics_add_all add (new_metrics new None) rs = Inr (metrics_of add new None rs)"
    by (rule metrics_of_add_all)
  show "summarises (metrics_of add new None rs) (mset rs)" by (rule metrics_of_summarises)
  fix h
  have "new_metrics new (Some h) = new_metrics new None\<lparr>m_Histogram := Some h\<rparr>" by (simp add: new_metrics_def)
  then show "metrics_add_all add (new_metrics new (Some h)) rs =
      go_bind (histogram_add_all h rs) (\<lambda>h'. Inr (metrics_of add new None rs\<lparr>m_Histogram := Some h'\<rparr>))"
    by (simp add: metrics_add_all_histogram metrics_of_def)
qed

end
