(* ===== verification/Reporters.thy ===== *)
theory Reporters
  imports Metrics "HOL-Library.List_Lexorder" "HOL-Library.Char_ord"
begin

text \<open>
  \<open>lib/reporters.go\<close>: the text, JSON, histogram and HDR histogram reports. They print into a
  \<open>text/tabwriter\<close>, a value \<open>tw\<close> with operations \<open>write\<close> and \<open>flush\<close> that return an error text or
  none; a reporter returns it with a panic or the error of the report.
\<close>

section \<open>Formatting floats\<close>

text \<open>\<open>%.<prec>f\<close>: the nearest decimal, ties to even, on the exact value.\<close>

fun pad_zeros :: "nat \<Rightarrow> nat \<Rightarrow> string" where
  "pad_zeros 0 n = []"
| "pad_zeros (Suc k) n = pad_zeros k (n div 10) @ [digit_char (n mod 10)]"

definition format_fixed :: "nat \<Rightarrow> float64 \<Rightarrow> string" where
  "format_fixed prec a =
    (case a of
       NaN \<Rightarrow> ''NaN''
     | PInf \<Rightarrow> ''+Inf''
     | NInf \<Rightarrow> ''-Inf''
     | Fin x \<Rightarrow>
         let n = nat (half_even (\<bar>x\<bar> * 10 ^ prec)) in
         (if x < 0 then ''-'' else []) @ format_nat (n div 10 ^ prec) @
         (if prec = 0 then [] else CHR ''.'' # pad_zeros prec n))"

abbreviation tab :: char where "tab \<equiv> CHR 0x09"
abbreviation newline :: char where "newline \<equiv> CHR 0x0A"

section \<open>Writers\<close>

type_synonym 't tab_write = "'t \<Rightarrow> string \<Rightarrow> 't \<times> string option"
type_synonym 't tab_flush = "'t \<Rightarrow> 't \<times> string option"
type_synonym 't reported = "'t \<times> (panic + string option)"

text \<open>Go on when a write succeeds; return its error otherwise.\<close>

definition then_do :: "'t \<times> string option \<Rightarrow> ('t \<Rightarrow> 't reported) \<Rightarrow> 't reported" where
  "then_do r f = (case r of (tw, None) \<Rightarrow> f tw | (tw, Some e) \<Rightarrow> (tw, Inr (Some e)))"

definition finish :: "'t \<times> string option \<Rightarrow> 't reported" where
  "finish r = (case r of (tw, err) \<Rightarrow> (tw, Inr err))"

fun write_all :: "'t tab_write \<Rightarrow> string list \<Rightarrow> 't \<Rightarrow> 't \<times> string option" where
  "write_all write [] tw = (tw, None)"
| "write_all write (s # ss) tw = (case write tw s of (tw', None) \<Rightarrow> write_all write ss tw' | (tw', Some e) \<Rightarrow> (tw', Some e))"

section \<open>NewHistogramReporter\<close>

definition repeat_string :: "string \<Rightarrow> int \<Rightarrow> string go" where
  "repeat_string s n = (if n < 0 then Inl NegativeRepeat else Inr (concat (replicate (nat n) s)))"

definition histogram_line :: "histogram \<Rightarrow> nat \<Rightarrow> u64 \<Rightarrow> string go" where
  "histogram_line h i cnt =
    (let ratio = f_div (f_of_int (uint cnt)) (f_of_int (uint (Total h))) in
     go_bind (buckets_nth (Buckets h) i) (\<lambda>(lo, hi).
     go_bind (repeat_string ''#'' (sint (f_to_i64 (f_mul ratio (Fin 75))))) (\<lambda>pad.
       Inr (''['' @ lo @ '','' @ [tab] @ hi @ '']'' @ [tab] @ format_uint cnt @ [tab] @
         format_fixed 2 (f_mul ratio (Fin 100)) @ ''%'' @ [tab] @ pad @ [newline]))))"

text \<open>The loop over the counts; a failed write ends the report with a nil error.\<close>

fun histogram_lines :: "'t tab_write \<Rightarrow> 't tab_flush \<Rightarrow> histogram \<Rightarrow> nat \<Rightarrow> u64 list \<Rightarrow> 't \<Rightarrow> 't reported" where
  "histogram_lines write flush h i [] tw = finish (flush tw)"
| "histogram_lines write flush h i (cnt # counts) tw =
    (case histogram_line h i cnt of
       Inl p \<Rightarrow> (tw, Inl p)
     | Inr s \<Rightarrow>
         (case write tw s of
            (tw', None) \<Rightarrow> histogram_lines write flush h (i + 1) counts tw'
          | (tw', Some e) \<Rightarrow> (tw', Inr None)))"

definition histogram_header :: string where
  "histogram_header = ''Bucket'' @ [tab, tab] @ ''#'' @ [tab] @ ''%'' @ [tab] @ ''Histogram'' @ [newline]"

definition histogram_reporter :: "'t tab_write \<Rightarrow> 't tab_flush \<Rightarrow> histogram \<Rightarrow> 't \<Rightarrow> 't reported" where
  "histogram_reporter write flush h tw =
    then_do (write tw histogram_header) (histogram_lines write flush h 0 (Counts h))"

section \<open>NewTextReporter\<close>

definition report_units :: "duration list" where
  "report_units = [3600000000000, 60000000000, 1000000000, 1000000, 1000, 1]"

fun report_round_from :: "duration list \<Rightarrow> duration \<Rightarrow> duration" where
  "report_round_from (unit # next # units) d =
    (if unit \<le>s d then duration_round d next else report_round_from (next # units) d)"
| "report_round_from _ d = d"

definition report_round :: "duration \<Rightarrow> duration" where
  "report_round d = report_round_from report_units d"

definition text_summary :: "'e metrics \<Rightarrow> string" where
  "text_summary m =
    (let l = m_Latencies m; f2 = format_fixed 2; d = (\<lambda>x. duration_string (report_round x)); sep = '', '' in
     ''Requests'' @ [tab] @ ''[total, rate, throughput]'' @ [tab] @ format_uint (m_Requests m) @ sep @ f2 (m_Rate m) @ sep @ f2 (m_Throughput m) @ [newline] @
     ''Duration'' @ [tab] @ ''[total, attack, wait]'' @ [tab] @ d (m_Duration m + m_Wait m) @ sep @ d (m_Duration m) @ sep @ d (m_Wait m) @ [newline] @
     ''Latencies'' @ [tab] @ ''[min, mean, 50, 90, 95, 99, max]'' @ [tab] @ d (l_Min l) @ sep @ d (l_Mean l) @ sep @ d (l_P50 l) @ sep @
       d (l_P90 l) @ sep @ d (l_P95 l) @ sep @ d (l_P99 l) @ sep @ d (l_Max l) @ [newline] @
     ''Bytes In'' @ [tab] @ ''[total, mean]'' @ [tab] @ format_uint (m_BytesIn m) @ sep @ f2 (m_BytesIn_Mean m) @ [newline] @
     ''Bytes Out'' @ [tab] @ ''[total, mean]'' @ [tab] @ format_uint (m_BytesOut m) @ sep @ f2 (m_BytesOut_Mean m) @ [newline] @
     ''Success'' @ [tab] @ ''[ratio]'' @ [tab] @ f2 (f_mul (m_Success m) (Fin 100)) @ ''%'' @ [newline] @
     ''Status Codes'' @ [tab] @ ''[code:count]'' @ [tab])"

definition code_entry :: "'e metrics \<Rightarrow> string \<Rightarrow> string" where
  "code_entry m code =
    code @ '':'' @ format_int (case map_of (m_StatusCodes m) code of Some n \<Rightarrow> n | None \<Rightarrow> 0) @ ''  ''"

definition text_reporter :: "'t tab_write \<Rightarrow> 't tab_flush \<Rightarrow> 'e metrics \<Rightarrow> 't \<Rightarrow> 't reported" where
  "text_reporter write flush m tw =
    then_do (write tw (text_summary m)) (\<lambda>tw.
    then_do (write_all write (map (code_entry m) (sort (map fst (m_StatusCodes m)))) tw) (\<lambda>tw.
    then_do (write tw ([newline] @ ''Error Set:'' @ [newline])) (\<lambda>tw.
    then_do (write_all write (map (\<lambda>e. e @ [newline]) (m_Errors m)) tw) (\<lambda>tw.
      finish (flush tw)))))"

section \<open>NewJSONReporter\<close>

text \<open>\<open>encode\<close> is \<open>encoding/json\<close>'s encoder on the metrics.\<close>

definition json_reporter :: "('e metrics \<Rightarrow> panic + string + string) \<Rightarrow> ('w \<Rightarrow> string \<Rightarrow> 'w \<times> string option) \<Rightarrow>
    'e metrics \<Rightarrow> 'w \<Rightarrow> 'w reported" where
  "json_reporter encode write m w =
    (case encode m of
       Inl p \<Rightarrow> (w, Inl p)
     | Inr (Inl e) \<Rightarrow> (w, Inr (Some e))
     | Inr (Inr s) \<Rightarrow> finish (write w (s @ [newline])))"

section \<open>NewHDRHistogramPlotReporter\<close>

definition logarithmic :: "float64 list" where
  "logarithmic = map (\<lambda>n. Fin (rnd (of_int n / 1000000)))
    [0, 100000, 200000, 300000, 400000, 500000, 550000, 600000, 650000, 700000, 750000, 775000,
     800000, 825000, 850000, 875000, 887500, 900000, 912500, 925000, 937500, 943750, 950000, 956250,
     962500, 968750, 971875, 975000, 978125, 981250, 984375, 985938, 987500, 989062, 990625, 992188,
     992969, 993750, 994531, 995313, 996094, 996484, 996875, 997266, 997656, 998047, 998242, 998437,
     998633, 998828, 999023, 999121, 999219, 999316, 999414, 999512, 999561, 999609, 999658, 999707,
     999756, 999780, 999805, 999829, 999854, 999878, 999890, 999902, 999915, 999927, 999939, 999945,
     999951, 999957, 999963, 999969, 999973, 999976, 999979, 999982, 999985, 999986, 999988, 999989,
     999991, 999992, 999993, 999994, 999995, 999996, 999997, 999998, 999999, 1000000]"

definition milliseconds :: "duration \<Rightarrow> float64" where
  "milliseconds d =
    (let msec = sint d sdiv 1000000; nsec = sint d smod 1000000 in
     f_add (f_of_int msec) (f_div (f_of_int nsec) (Fin 1000000)))"

definition one_by_quantile :: "float64 \<Rightarrow> float64" where
  "one_by_quantile q = (if f_less q (Fin 1) then f_div (Fin 1) (f_sub (Fin 1) q) else Fin 10000000)"

definition hdr_header :: string where
  "hdr_header = ''Value(ms)'' @ [tab] @ ''Percentile'' @ [tab] @ ''TotalCount'' @ [tab] @ ''1/(1-Percentile)'' @ [newline]"

definition hdr_line :: "'e metrics \<Rightarrow> float64 \<Rightarrow> duration \<Rightarrow> string" where
  "hdr_line m q d =
    (let total = f_of_int (uint (m_Requests m));
         value = milliseconds d;
         oneBy = one_by_quantile q;
         cnt = f_to_i64 (f_add (f_mul q total) (Fin (1 / 2))) in
     format_fixed 6 value @ [tab] @ format_fixed 6 q @ [tab] @ format_int cnt @ [tab] @ format_fixed 6 oneBy @ [newline])"

text \<open>The lines, each with its query of the estimator as the ones before left it.\<close>

fun hdr_lines :: "'e query \<Rightarrow> 'e metrics \<Rightarrow> float64 list \<Rightarrow> string list" where
  "hdr_lines get m [] = []"
| "hdr_lines get m (q # qs) =
    (case latency_quantile get (m_Latencies m) q of
       (d, l) \<Rightarrow> hdr_line m q d # hdr_lines get (m\<lparr>m_Latencies := l\<rparr>) qs)"

definition hdr_reporter :: "'e query \<Rightarrow> 't tab_write \<Rightarrow> 't tab_flush \<Rightarrow> 'e metrics \<Rightarrow> 't \<Rightarrow> 't reported" where
  "hdr_reporter get write flush m tw =
    then_do (write tw hdr_header) (\<lambda>tw.
    then_do (write_all write (hdr_lines get m logarithmic) tw) (\<lambda>tw.
      finish (flush tw)))"

section \<open>Properties\<close>

lemma milliseconds_nonneg:
  assumes "0 \<le> sint d"
  defines "y \<equiv> of_int (sint d div 1000000) + rnd (of_int (sint d mod 1000000) / 1000000)"
  shows "milliseconds d = Fin (rnd y)" and "sint (f_to_i64 (milliseconds d)) = \<lfloor>rnd y\<rfloor>" and "0 \<le> y"
proof -
  define q r where "q = sint d div 1000000" and "r = sint d mod 1000000"
  have lt: "sint d < 2 ^ 63" by (rule i64_sint_upper)
  have q: "0 \<le> q" "q \<le> 2 ^ 44" and r: "0 \<le> r" "r < 1000000"
    unfolding q_def r_def using assms lt by (simp_all add: pos_imp_zdiv_nonneg_iff)
  have dm: "sint d sdiv 1000000 = q" "sint d smod 1000000 = r"
    using assms by (simp_all add: q_def r_def signed_divide_int_def signed_modulo_int_def minus_mult_div_eq_mod sgn_if)
  have "(of_int q :: rat) \<le> of_int (2 ^ 44)" "(0 :: rat) \<le> of_int q" using q by (simp_all only: of_int_le_iff of_int_0_le_iff)
  then have qr: "(of_int q :: rat) \<le> 2 ^ 44" "(0 :: rat) \<le> of_int q" by simp_all
  have x: "0 \<le> rnd (of_int r / 1000000)" "rnd (of_int r / 1000000) \<le> 1"
    using rnd_ratio(1,2) [of r 1000000] r by simp_all
  then have "\<bar>rnd (of_int r / 1000000)\<bar> \<le> 2 ^ 53" by simp
  then have fx: "f_round (of_int r / 1000000) = Fin (rnd (of_int r / 1000000))" by (rule f_round_bounded)
  have y: "0 \<le> y" "y \<le> 2 ^ 53" using x qr by (simp_all add: y_def flip: q_def r_def)
  then have r53: "0 \<le> rnd y" "rnd y \<le> 2 ^ 53" using rnd_nonneg [of y] rnd_abs_le [of y "2 ^ 53"] by simp_all
  have "f_of_int q = Fin (of_int q)" "f_of_int r = Fin (of_int r)" using q r by (simp_all add: f_of_int_exact)
  then show m: "milliseconds d = Fin (rnd y)"
    using fx f_round_bounded [of y] r53 by (simp add: milliseconds_def Let_def dm f_div_def y_def flip: q_def r_def)
  show "sint (f_to_i64 (milliseconds d)) = \<lfloor>rnd y\<rfloor>" unfolding m using r53 by (rule sint_f_to_i64)
  show "0 \<le> y" by (rule y(1))
qed

lemma milliseconds_below:
  assumes "0 \<le> sint d" and "sint d < 2 ^ 32 * 1000000"
  shows "sint (f_to_i64 (milliseconds d)) = sint d div 1000000"
proof -
  note d = assms
  define q r where "q = sint d div 1000000" and "r = sint d mod 1000000"
  have q: "0 \<le> q" "q \<le> 2 ^ 32" and r: "0 \<le> r" "r \<le> 999999"
    using d pos_mod_bound [of 1000000 "sint d"] zdiv_mono1 [of "sint d" "2 ^ 32 * 1000000" 1000000]
    by (simp_all add: q_def r_def pos_imp_zdiv_nonneg_iff)
  define x y where "x = rnd (of_int r / 1000000)" and "y = of_int q + x"
  have y: "sint (f_to_i64 (milliseconds d)) = \<lfloor>rnd y\<rfloor>"
    using milliseconds_nonneg(2) [of d] d by (simp add: y_def x_def q_def r_def)
  have "(of_int q :: rat) \<le> of_int (2 ^ 32)" "(0 :: rat) \<le> of_int q" "(of_int r :: rat) \<le> of_int 999999"
    using q r by (simp_all only: of_int_le_iff of_int_0_le_iff)
  then have qr: "(of_int q :: rat) \<le> 2 ^ 32" "(0 :: rat) \<le> of_int q" "(of_int r :: rat) \<le> 999999" by simp_all
  have x: "0 \<le> x" "x \<le> 1 - 1 / 2 ^ 20"
  proof -
    have "of_int r / 1000000 \<le> (of_int (2 ^ 20 - 1) * p2 (- 20) :: rat)" using qr(3) by (simp add: p2_def)
    then have "x \<le> rnd (of_int (2 ^ 20 - 1) * p2 (- 20))" unfolding x_def by (rule rnd_mono)
    also have "\<dots> = of_int (2 ^ 20 - 1) * p2 (- 20)" by (rule rnd_exact) simp_all
    finally show "x \<le> 1 - 1 / 2 ^ 20" by (simp add: p2_def)
    show "0 \<le> x" unfolding x_def using r by (intro rnd_nonneg) simp
  qed
  have lo: "of_int q \<le> rnd y" using rnd_mono [of "of_int q" y] rnd_of_int [of q] q x by (simp add: y_def)
  have "rnd y < of_int q + 1"
  proof (cases "q = 0")
    case True
    then show ?thesis using x by (simp add: y_def x_def)
  next
    case False
    then have "(1 :: rat) \<le> of_int q" using q by simp
    then have "\<bar>rnd y - y\<bar> \<le> y / 2 ^ 53" using x by (intro rnd_error_ge1) (simp add: y_def)
    moreover have "y / 2 ^ 53 \<le> (2 ^ 32 + 1) / 2 ^ 53" using qr x by (intro divide_right_mono) (simp_all add: y_def)
    moreover have "(2 ^ 32 + 1) / 2 ^ 53 < (1 :: rat) / 2 ^ 20" by simp
    ultimately show ?thesis using x(2) y_def by linarith
  qed
  then have "\<lfloor>rnd y\<rfloor> < q + 1" unfolding floor_less_iff by simp
  moreover have "q \<le> \<lfloor>rnd y\<rfloor>" using lo by (simp add: le_floor_iff)
  ultimately show "sint (f_to_i64 (milliseconds d)) = sint d div 1000000" by (simp add: y q_def)
qed

lemma milliseconds_rounds_up:
  "\<exists>d. 0 \<le> sint d \<and> sint (f_to_i64 (milliseconds d)) \<noteq> sint d div 1000000"
proof -
  let ?d = "4398046511104999999 :: duration"
  define x :: rat where "x = rnd (of_int 999999 / 1000000)"
  define y where "y = of_int (2 ^ 42) + x"
  have d: "sint ?d = 4398046511104999999" by simp
  then have y: "sint (f_to_i64 (milliseconds ?d)) = \<lfloor>rnd y\<rfloor>"
    using milliseconds_nonneg(2) [of ?d] by (simp add: y_def x_def)
  have "of_int 4095 * p2 (- 12) \<le> (of_int 999999 / 1000000 :: rat)" by (simp add: p2_def)
  then have "rnd (of_int 4095 * p2 (- 12)) \<le> x" unfolding x_def by (rule rnd_mono)
  then have x: "4095 / 4096 \<le> x" "x \<le> 1"
    using rnd_exact [of 4095 "- 12"] rnd_ratio(2) [of 999999 1000000] by (simp_all add: p2_def x_def)
  have "exponent y = 42" by (rule exponent_unique) (use x in \<open>simp_all add: y_def p2_def\<close>)
  then have u: "ulp_exponent y = - 10" using x by (simp add: ulp_exponent_def y_def abs_of_nonneg)
  define h where "h = half_even (y / p2 (- 10))"
  have "y / p2 (- 10) - 1 / 2 \<le> of_int h" using half_even_bound [of "y / p2 (- 10)"] unfolding h_def by linarith
  moreover have "4503599627371520 - 1 / 4 \<le> y / p2 (- 10)" using x by (simp add: y_def p2_def)
  ultimately have "4503599627371519 < (of_int h :: rat)" by linarith
  then have "of_int 4503599627371519 < (of_int h :: rat)" by simp
  then have "4503599627371519 < h" by (simp only: of_int_less_iff)
  then have "(2 ^ 42 + 1) * 1024 \<le> half_even (y / p2 (- 10))" by (simp add: h_def)
  then have "of_int ((2 ^ 42 + 1) * 1024) * p2 (- 10) \<le> rnd y"
    using rnd_ge [of y "(2 ^ 42 + 1) * 1024"] x by (simp only: u) (simp add: y_def)
  then have "2 ^ 42 + 1 \<le> \<lfloor>rnd y\<rfloor>" by (simp add: p2_def le_floor_iff)
  moreover have "sint ?d div 1000000 = 2 ^ 42" by simp
  ultimately have "sint (f_to_i64 (milliseconds ?d)) \<noteq> sint ?d div 1000000" unfolding y by linarith
  moreover have "0 \<le> sint ?d" by simp
  ultimately show "\<exists>d. 0 \<le> sint d \<and> sint (f_to_i64 (milliseconds d)) \<noteq> sint d div 1000000" by blast
qed

text \<open>
  \<open>milliseconds\<close> keeps the promise of its comment, that converting the float to an integer
  rounds as the integer division of the duration does, for durations below \<open>2\<^sup>3\<^sup>2\<close> milliseconds
  (49 days); it does not keep it for all durations.
\<close>

theorem milliseconds_truncates:
  "(0 \<le> sint d \<and> sint d < 2 ^ 32 * 1000000 \<longrightarrow> sint (f_to_i64 (milliseconds d)) = sint d div 1000000) \<and>
   (\<exists>d. 0 \<le> sint d \<and> sint (f_to_i64 (milliseconds d)) \<noteq> sint d div 1000000)"
  using milliseconds_below milliseconds_rounds_up by blast

theorem milliseconds_truncates_witness:
  "sint (f_to_i64 (milliseconds 1500000)) = 1"
  using milliseconds_truncates [of 1500000] by simp

text \<open>A histogram that counts some results has a line for each count, and its report is no panic.\<close>

lemma histogram_line_total:
  assumes "bs \<noteq> []" and "length rs \<le> 2 ^ 53" and "histogram_add_all (new_histogram bs) rs = Inr h"
    and i: "i < length (Counts h)"
  shows "\<not> isl (histogram_line h i (Counts h ! i))"
proof -
  have h: "Buckets h = bs" "Total h = of_nat (length rs)"
    "rs \<noteq> [] \<and> length (Counts h) = length bs \<and> (\<forall>i < length bs. Counts h ! i =
      of_nat (length (filter (\<lambda>r. bucket_index bs (Latency r) = i) rs)))"
    using histogram_add_all_fresh [OF assms(1), of rs] assms(3) i by (auto split: if_splits)
  let ?k = "length (filter (\<lambda>r. bucket_index bs (Latency r) = i) rs)"
  have c: "Counts h ! i = of_nat ?k" "i < length bs" "rs \<noteq> []" using h(3) i by simp_all
  have "(2 :: nat) ^ 53 < 2 ^ 64" by (rule power_strict_increasing) simp_all
  then have n64: "length rs < 2 ^ 64" using assms(2) by linarith
  then have k64: "?k < 2 ^ 64" using length_filter_le [of _ rs] by (rule le_less_trans [rotated])
  have u: "uint (Counts h ! i) = int ?k" "uint (Total h) = int (length rs)"
    unfolding c(1) h(2) using uint_of_nat_u64 [OF k64] uint_of_nat_u64 [OF n64] by simp_all
  have n53: "int (length rs) \<le> 2 ^ 53" using assms(2) by (metis of_nat_le_iff of_nat_numeral of_nat_power)
  have ratio: "0 \<le> int ?k" "int ?k \<le> int (length rs)" "0 < int (length rs)" using c(3) by simp_all
  define q where "q = rnd (of_int (int ?k) / of_int (int (length rs)))"
  have q: "0 \<le> q" "q \<le> 1" using rnd_ratio(1,2) [OF ratio n53] by (simp_all add: q_def)
  have d: "f_div (f_of_int (uint (Counts h ! i))) (f_of_int (uint (Total h))) = Fin q"
    unfolding u q_def by (rule f_div_ratio [OF ratio n53])
  have r: "0 \<le> rnd (q * 75)" "\<bar>rnd (q * 75)\<bar> \<le> of_int 75" using q rnd_nonneg [of "q * 75"] rnd_abs_le [of "q * 75" 75] by simp_all
  then have "\<bar>rnd (q * 75)\<bar> \<le> 2 ^ 53" by simp
  then have "f_mul (Fin q) (Fin 75) = Fin (rnd (q * 75))" using f_round_bounded by (simp add: f_mul_def)
  moreover have "0 \<le> sint (f_to_i64 (Fin (rnd (q * 75))))" using r by (simp add: sint_f_to_i64)
  moreover obtain lo hi where "buckets_nth (Buckets h) i = Inr (lo, hi)" using c(2) h(1) by (cases "length bs \<le> i + 1") (auto simp: buckets_nth_def)
  ultimately show ?thesis by (simp add: histogram_line_def d repeat_string_def Let_def)
qed

lemma histogram_lines_total:
  assumes "\<And>i. i < length (Counts h) \<Longrightarrow> \<not> isl (histogram_line h i (Counts h ! i))" and "cs = drop i (Counts h)"
  shows "\<not> isl (snd (histogram_lines write flush h i cs tw))"
  using assms(2)
proof (induction cs arbitrary: i tw)
  case Nil
  then show ?case by (cases "flush tw") (simp add: finish_def)
next
  case (Cons c cs)
  then have i: "i < length (Counts h)" by (metis drop_all linorder_not_le list.distinct(1))
  then have c: "c = Counts h ! i" "cs = drop (i + 1) (Counts h)" using Cons.prems by (metis Cons_nth_drop_Suc list.inject Suc_eq_plus1)+
  obtain s where "histogram_line h i c = Inr s" using assms(1) [OF i] c(1) by (cases "histogram_line h i c") simp_all
  then show ?case using Cons.IH [OF c(2)] by (auto split: prod.splits option.splits)
qed

lemma histogram_reporter_total:
  assumes "bs \<noteq> []" and "length rs \<le> 2 ^ 53" and "histogram_add_all (new_histogram bs) rs = Inr h"
  shows "\<not> isl (snd (histogram_reporter write flush h tw))"
proof -
  have "\<not> isl (snd (histogram_lines write flush h 0 (Counts h) tw'))" for tw'
    by (rule histogram_lines_total) (simp_all add: histogram_line_total [OF assms])
  then show ?thesis by (simp add: histogram_reporter_def then_do_def split: prod.splits option.splits)
qed

text \<open>
  The histogram report of any results counted into at least one bucket never panics, whatever
  the writer does: no bucket bound is out of range and no bar has a negative length. But when
  writing a line fails the report stops and returns no error.
\<close>

theorem histogram_report_no_panic:
  assumes "bs \<noteq> []" and "length rs \<le> 2 ^ 53" and "histogram_add_all (new_histogram bs) rs = Inr h"
  shows "\<not> isl (snd (histogram_reporter write flush h tw)) \<and>
    (\<forall>tw1 line tw2 e. write tw histogram_header = (tw1, None) \<and> Counts h \<noteq> [] \<and>
      histogram_line h 0 (hd (Counts h)) = Inr line \<and> write tw1 line = (tw2, Some e) \<longrightarrow>
      histogram_reporter write flush h tw = (tw2, Inr None))"
proof
  show "\<not> isl (snd (histogram_reporter write flush h tw))" using assms by (rule histogram_reporter_total)
  show "\<forall>tw1 line tw2 e. write tw histogram_header = (tw1, None) \<and> Counts h \<noteq> [] \<and>
      histogram_line h 0 (hd (Counts h)) = Inr line \<and> write tw1 line = (tw2, Some e) \<longrightarrow>
      histogram_reporter write flush h tw = (tw2, Inr None)"
    by (cases "Counts h") (auto simp: histogram_reporter_def then_do_def)
qed

theorem histogram_report_no_panic_witness:
  "\<exists>h. histogram_add_all (new_histogram [0, 10]) [zero_result\<lparr>Latency := 12\<rparr>] = Inr h \<and>
    \<not> isl (snd (histogram_reporter (\<lambda>tw s. (tw @ s, None)) (\<lambda>tw. (tw, None)) h []))"
proof -
  let ?rs = "[zero_result\<lparr>Latency := 12\<rparr>]"
  obtain h where h: "histogram_add_all (new_histogram [0, 10]) ?rs = Inr h"
    using histogram_add_all_fresh [of "[0, 10]" ?rs] by auto
  have "[0, 10 :: duration] \<noteq> []" "length ?rs \<le> 2 ^ 53" by simp_all
  then show ?thesis
    using h by (intro exI [of _ h] conjI histogram_report_no_panic [OF _ _ h, THEN conjunct1]) simp_all
qed

end
