(* ===== verification/Downsampling.thy ===== *)
theory Downsampling
  imports Float64 "HOL-Library.Sublist"
begin

text \<open>
  \<open>lib/lttb/lttb.go\<close>: Largest-Triangle-Three-Buckets downsampling of a line chart. The points
  come from an iterator; \<open>point_source\<close> is the interface of one that hands out a list in
  order. The bucket boundaries are computed in floating point; the first section of lemmas
  shows that for up to \<open>2\<^sup>2\<^sup>2\<close> points rounding never empties a bucket, so that no bucket access
  panics. A Go \<open>int\<close> is an \<open>int\<close> here: counts are lengths of slices.
\<close>

section \<open>Points and iterators\<close>

record point =
  pt_X :: float64
  pt_Y :: float64

datatype failure = Panicked panic | Failed string

type_synonym 's iter = "'s \<Rightarrow> int \<Rightarrow> 's \<times> (failure + point list)"

definition f_int :: "float64 \<Rightarrow> int" where
  "f_int a = sint (f_to_i64 a)"

section \<open>sample\<close>

definition centroid :: "point list \<Rightarrow> point" where
  "centroid next =
    (let c = foldl (\<lambda>c p. \<lparr>pt_X = f_add (pt_X c) (pt_X p), pt_Y = f_add (pt_Y c) (pt_Y p)\<rparr>)
               \<lparr>pt_X = Fin 0, pt_Y = Fin 0\<rparr> next;
         n = f_of_int (int (length next)) in
     \<lparr>pt_X = f_div (pt_X c) n, pt_Y = f_div (pt_Y c) n\<rparr>)"

definition triangle_area :: "point \<Rightarrow> point \<Rightarrow> point \<Rightarrow> float64" where
  "triangle_area a c p =
    (let area = f_sub (f_mul (f_sub (pt_X a) (pt_X c)) (f_sub (pt_Y p) (pt_Y a)))
                  (f_mul (f_sub (pt_X a) (pt_X p)) (f_sub (pt_Y c) (pt_Y a))) in
     f_mul area area)"

fun largest_index :: "(point \<Rightarrow> float64) \<Rightarrow> nat \<Rightarrow> float64 \<Rightarrow> nat \<Rightarrow> point list \<Rightarrow> nat" where
  "largest_index area i largest index [] = index"
| "largest_index area i largest index (p # ps) =
    (if f_less largest (area p) then largest_index area (i + 1) (area p) i ps
     else largest_index area (i + 1) largest index ps)"

definition sample :: "point \<Rightarrow> point list \<Rightarrow> point list \<Rightarrow> point go" where
  "sample a current next =
    (let index = largest_index (triangle_area a (centroid next)) 0 (Fin 0) 0 current in
     if index < length current then Inr (current ! index) else Inl IndexOutOfRange)"

section \<open>Downsample\<close>

text \<open>The upper bucket boundary, and the loop over the buckets: \<open>n\<close> rounds from \<open>i\<close> on.\<close>

definition bucket_bound :: "float64 \<Rightarrow> nat \<Rightarrow> int" where
  "bucket_bound width k = f_int (f_mul (f_of_int (int k)) width)"

fun downsample_loop :: "'s iter \<Rightarrow> float64 \<Rightarrow> nat \<Rightarrow> nat \<Rightarrow> 's \<Rightarrow> point list \<Rightarrow> point list \<Rightarrow>
    's \<times> (failure + point list \<times> point list)" where
  "downsample_loop it width i 0 s samples current = (s, Inr (samples, current))"
| "downsample_loop it width i (Suc n) s samples current =
    (let lo = bucket_bound width (i + 1) + 1; hi = bucket_bound width (i + 2) + 1 in
     case it s (hi - lo) of
       (s', Inl e) \<Rightarrow> (s', Inl e)
     | (s', Inr next) \<Rightarrow>
         (case sample (last samples) current next of
            Inl p \<Rightarrow> (s', Inl (Panicked p))
          | Inr b \<Rightarrow> downsample_loop it width (i + 1) n s' (samples @ [b]) next))"

definition bucket_size :: "int \<Rightarrow> int \<Rightarrow> float64" where
  "bucket_size count threshold = f_div (f_of_int (count - 2)) (f_of_int (threshold - 2))"

definition downsample_last :: "'s iter \<Rightarrow> int \<Rightarrow> 's \<Rightarrow> point list \<Rightarrow> point list \<Rightarrow> 's \<times> (failure + point list)" where
  "downsample_last it count s samples current =
    (case it s (count - int (length samples)) of
       (s', Inl e) \<Rightarrow> (s', Inl e)
     | (s', Inr points) \<Rightarrow>
         let points = (if points = [] then current else points) in
         (s', Inr (if points = [] then samples else samples @ [last points])))"

definition downsample :: "'s iter \<Rightarrow> int \<Rightarrow> int \<Rightarrow> 's \<Rightarrow> 's \<times> (failure + point list)" where
  "downsample it count threshold s =
    (if count \<le> threshold \<or> threshold = 0 then it s count
     else if threshold < 3 then (s, Inl (Failed ''lttb: min threshold is 3''))
     else
       let width = bucket_size count threshold in
       case it s (f_int (f_add (Fin 1) width)) of
         (s', Inl e) \<Rightarrow> (s', Inl e)
       | (s', Inr []) \<Rightarrow> (s', Inl (Panicked IndexOutOfRange))
       | (s', Inr (p # current)) \<Rightarrow>
           (case downsample_loop it width 0 (nat (threshold - 2)) s' [p] current of
              (s'', Inl e) \<Rightarrow> (s'', Inl e)
            | (s'', Inr (samples, current')) \<Rightarrow> downsample_last it count s'' samples current'))"

section \<open>Selection\<close>

lemma largest_index_range:
  "largest_index area i largest index ps = index \<or>
   (i \<le> largest_index area i largest index ps \<and> largest_index area i largest index ps < i + length ps)"
proof (induction area i largest index ps rule: largest_index.induct)
  case (2 area i largest index p ps)
  then show ?case by (cases "f_less largest (area p)") auto
qed simp

lemma sample_in: "current \<noteq> [] \<Longrightarrow> \<exists>b \<in> set current. sample a current next = Inr b"
  using largest_index_range [of "triangle_area a (centroid next)" 0 "Fin 0" 0 current]
  by (auto simp: sample_def Let_def)

section \<open>Reading a list through an iterator\<close>

locale point_source =
  fixes it :: "'s iter" and pending :: "'s \<Rightarrow> point list" and ok :: "'s \<Rightarrow> bool"
  assumes reads: "ok s \<Longrightarrow> 0 \<le> n \<Longrightarrow>
    \<exists>s'. it s n = (s', Inr (take (nat n) (pending s))) \<and> pending s' = drop (nat n) (pending s) \<and> ok s'"
begin

text \<open>
  The loop, for boundaries \<open>b\<close> that are strictly increasing and leave a point in every bucket:
  it picks one point of each bucket, so the samples stay a subsequence of what was read.
\<close>

lemma loop_samples:
  assumes "ok s" and "\<And>k. k < n \<Longrightarrow> bucket_bound width (i + k + 1) < bucket_bound width (i + k + 2)"
    and "n \<noteq> 0 \<Longrightarrow> bucket_bound width (i + n) - bucket_bound width (i + 1) < int (length (pending s))"
    and "current \<noteq> []" and "samples \<noteq> []" and "subseq samples done" and "pts = done @ current @ pending s"
  shows "\<exists>s' samples' done' current'.
    downsample_loop it width i n s samples current = (s', Inr (samples', current')) \<and>
    pts = done' @ current' @ pending s' \<and> subseq samples' done' \<and> current' \<noteq> [] \<and>
    samples' \<noteq> [] \<and> hd samples' = hd samples \<and> length samples' = length samples + n \<and>
    length (pending s') + n \<le> length (pending s) \<and> ok s'"
  using assms
proof (induction n arbitrary: i s samples current "done")
  case (Suc n)
  let ?k = "bucket_bound width (i + 2) - bucket_bound width (i + 1)"
  have k: "0 < ?k" using Suc.prems(2) [of 0] by simp
  obtain s' where s': "it s ?k = (s', Inr (take (nat ?k) (pending s)))" "pending s' = drop (nat ?k) (pending s)" "ok s'"
    using reads [OF Suc.prems(1), of ?k] k by auto
  let ?next = "take (nat ?k) (pending s)"
  obtain b where b: "b \<in> set current" "sample (last samples) current ?next = Inr b"
    using sample_in [OF Suc.prems(4)] by blast
  note increasing = Suc.prems(2)
  have mono: "j \<le> n \<Longrightarrow> bucket_bound width (i + 1) \<le> bucket_bound width (i + j + 1)" for j
  proof (induction j)
    case (Suc j)
    then show ?case using increasing [of j] by simp
  qed simp
  have "bucket_bound width (i + n + 1) - bucket_bound width (i + 1) < int (length (pending s))"
    using Suc.prems(3) by simp
  then have "0 < int (length (pending s))" using mono [of n, OF le_refl] by linarith
  then have len: "0 < length (pending s)" by linarith
  then have ne: "?next \<noteq> []" using k by simp
  have sub: "subseq (samples @ [b]) (done @ current)"
    using Suc.prems(6) b(1) by (intro list_emb_append_mono) (simp_all add: subseq_singleton_left)
  have room: "bucket_bound width (i + 1 + n) - bucket_bound width (i + 1 + 1) < int (length (pending s'))" if "n \<noteq> 0"
    using Suc.prems(3) k s'(2) by (simp add: of_nat_diff)
  have ex: "\<exists>s'' samples' done' current'.
    downsample_loop it width (i + 1) n s' (samples @ [b]) ?next = (s'', Inr (samples', current')) \<and>
    pts = done' @ current' @ pending s'' \<and> subseq samples' done' \<and> current' \<noteq> [] \<and>
    samples' \<noteq> [] \<and> hd samples' = hd (samples @ [b]) \<and> length samples' = length (samples @ [b]) + n \<and>
    length (pending s'') + n \<le> length (pending s') \<and> ok s''"
  proof (rule Suc.IH [OF s'(3) _ room ne _ sub])
    show "bucket_bound width (i + 1 + k + 1) < bucket_bound width (i + 1 + k + 2)" if "k < n" for k
      using increasing [of "Suc k"] that by simp
    show "pts = (done @ current) @ ?next @ pending s'" using Suc.prems(7) s'(2) by simp
  qed simp_all
  have step: "downsample_loop it width i (Suc n) s samples current = downsample_loop it width (i + 1) n s' (samples @ [b]) ?next"
    using s'(1) b(2) by (simp add: Let_def algebra_simps)
  have "0 < nat ?k" "length (pending s') = length (pending s) - nat ?k" using s'(2) k by simp_all
  then have "length (pending s') + 1 \<le> length (pending s)" using len by linarith
  with ex Suc.prems(5) show ?case unfolding step by fastforce
qed auto

lemma downsample_samples:
  fixes threshold :: int and s :: 's
  defines "width \<equiv> bucket_size (int (length (pending s))) threshold"
  assumes ok: "ok s" and t: "3 \<le> threshold" "threshold < int (length (pending s))"
    and first: "2 \<le> f_int (f_add (Fin 1) width)" "f_int (f_add (Fin 1) width) \<le> bucket_bound width 1 + 1"
    and inc: "\<And>k. k < nat (threshold - 2) \<Longrightarrow> bucket_bound width (k + 1) < bucket_bound width (k + 2)"
    and room: "bucket_bound width (nat (threshold - 2)) + 2 \<le> int (length (pending s))"
  shows "\<exists>s' ps. downsample it (int (length (pending s))) threshold s = (s', Inr ps) \<and>
    subseq ps (pending s) \<and> ps \<noteq> [] \<and> hd ps = hd (pending s) \<and> last ps = last (pending s) \<and>
    int (length ps) = threshold"
proof -
  let ?f = "f_int (f_add (Fin 1) width)" and ?n = "nat (threshold - 2)" and ?pts = "pending s"
  have "\<exists>s'. it s ?f = (s', Inr (take (nat ?f) ?pts)) \<and> pending s' = drop (nat ?f) ?pts \<and> ok s'"
    using first(1) by (intro reads ok) simp
  then obtain s1 where s1: "it s ?f = (s1, Inr (take (nat ?f) ?pts))" "pending s1 = drop (nat ?f) ?pts" "ok s1" by blast
  obtain p rest where pts: "?pts = p # rest" using t by (cases ?pts) auto
  have rest: "rest \<noteq> []" using t pts by auto
  define current where "current = take (nat ?f - 1) rest"
  have take: "take (nat ?f) ?pts = p # current" using first(1) by (simp add: pts take_Cons' current_def)
  have cur: "current \<noteq> []" using first(1) rest by (simp add: current_def)
  have "bucket_bound width (0 + ?n) - bucket_bound width (0 + 1) < int (length (pending s1))" if "?n \<noteq> 0"
    using room first s1(2) by (simp add: of_nat_diff)
  moreover have "?pts = [p] @ current @ pending s1" using take s1(2) append_take_drop_id [of "nat ?f" ?pts] by simp
  ultimately obtain s2 samples "done" current' where loop:
    "downsample_loop it width 0 ?n s1 [p] current = (s2, Inr (samples, current'))"
    "?pts = done @ current' @ pending s2" "subseq samples done" "current' \<noteq> []" "samples \<noteq> []" "hd samples = p"
    "length samples = 1 + ?n" "length (pending s2) + ?n \<le> length (pending s1)" "ok s2"
    using loop_samples [OF s1(3), of ?n width 0 current "[p]" "[p]" ?pts] inc cur by auto
  have n: "int (length samples) = threshold - 1" using loop(7) t(1) by simp
  have "\<exists>s'. it s2 (int (length ?pts) - int (length samples)) = (s', Inr (take (nat (int (length ?pts) - int (length samples))) (pending s2)))"
    using reads [OF loop(9), of "int (length ?pts) - int (length samples)"] n t(2) by auto
  moreover have "length (pending s2) \<le> nat (int (length ?pts) - int (length samples))"
    using loop(8) s1(2) first(1) n t by simp
  ultimately obtain s3 where s3: "it s2 (int (length ?pts) - int (length samples)) = (s3, Inr (pending s2))"
    by auto
  define z where "z = last (current' @ pending s2)"
  have "downsample_last it (int (length ?pts)) s2 samples current' = (s3, Inr (samples @ [z]))"
    using s3 loop(4) by (simp add: downsample_last_def Let_def z_def)
  then have "downsample it (int (length ?pts)) threshold s = (s3, Inr (samples @ [z]))"
    using t s1(1) take loop(1) by (simp add: downsample_def Let_def flip: width_def)
  moreover have "subseq (samples @ [z]) (done @ current' @ pending s2)"
    using loop(3,4) last_in_set [of "current' @ pending s2"]
    by (intro list_emb_append_mono) (simp_all add: subseq_singleton_left z_def)
  moreover have "last ?pts = z" using loop(2,4) by (simp add: z_def)
  moreover have "hd (samples @ [z]) = hd ?pts" using loop(5,6) pts by simp
  moreover have "int (length (samples @ [z])) = threshold" using n by simp
  ultimately show ?thesis
    by (intro exI [of _ s3] exI [of _ "samples @ [z]"]) (simp add: loop(2) flip: append_assoc)
qed

lemma downsample_all:
  assumes "ok s" and "int (length (pending s)) \<le> threshold \<or> threshold = 0"
  shows "\<exists>s'. downsample it (int (length (pending s))) threshold s = (s', Inr (pending s))"
  using assms(2) reads [OF assms(1), of "int (length (pending s))"] by (auto simp: downsample_def)

end


section \<open>Bucket boundaries\<close>

text \<open>The rounding of quotients and products of counts up to \<open>2\<^sup>2\<^sup>2\<close> is off by far less than the
  distance of the quotients from the integers.\<close>

lemma rnd_error_small:
  assumes "0 \<le> x" and "x \<le> 2 ^ 27" and "x = 0 \<or> 1 \<le> x"
  shows "\<bar>rnd x - x\<bar> \<le> 1 / 2 ^ 26"
proof (cases "x = 0")
  case False
  then have "\<bar>rnd x - x\<bar> \<le> x / 2 ^ 53" using assms(3) by (intro rnd_error_ge1) simp
  also have "\<dots> \<le> 2 ^ 27 / 2 ^ 53" using assms by (intro divide_right_mono) simp_all
  finally show ?thesis by simp
qed simp

lemma f_int_Fin: "0 \<le> x \<Longrightarrow> x \<le> 2 ^ 53 \<Longrightarrow> f_int (Fin x) = \<lfloor>x\<rfloor>"
  by (simp only: f_int_def sint_f_to_i64)

lemma f_round_nonneg: "0 \<le> x \<Longrightarrow> x \<le> 2 ^ 53 \<Longrightarrow> f_round x = Fin (rnd x) \<and> 0 \<le> rnd x \<and> rnd x \<le> 2 ^ 53"
  using rnd_abs_le [of x "2 ^ 53"] rnd_nonneg [of x] by (simp add: f_round_bounded)

text \<open>
  \<open>p\<close> points between the first and the last, \<open>q\<close> buckets: the exact bucket size is \<open>x\<close>, the code
  computes \<open>rnd x\<close>, and the boundaries it computes from that are within \<open>1 / 2\<^sup>2\<^sup>5\<close> of the exact ones.
\<close>

lemma quotient_bounds:
  fixes p q :: int
  assumes "1 \<le> q" and "q < p" and "p \<le> 2 ^ 22"
  defines "x \<equiv> of_int p / of_int q :: rat"
  shows "x * of_int q = of_int p" and "1 + 1 / of_int q \<le> x" and "1 / 2 ^ 22 \<le> (1 / of_int q :: rat)"
    and "1 \<le> x" and "x \<le> 2 ^ 22"
proof -
  define P Q :: rat where "P = of_int p" and "Q = of_int q"
  have "(of_int (q + 1) :: rat) \<le> of_int p" "(of_int p :: rat) \<le> of_int (2 ^ 22)" "(of_int 1 :: rat) \<le> of_int q"
    using assms(1-3) by (simp_all only: of_int_le_iff)
  then have PQ: "1 \<le> Q" "Q + 1 \<le> P" "P \<le> 2 ^ 22" by (simp_all add: P_def Q_def)
  have x: "x = P / Q" by (simp add: x_def P_def Q_def)
  show "x * of_int q = of_int p" using PQ by (simp add: x flip: P_def Q_def)
  have "(Q + 1) / Q \<le> x" unfolding x using PQ by (intro divide_right_mono) simp_all
  then show low: "1 + 1 / of_int q \<le> x" using PQ by (simp add: add_divide_distrib flip: Q_def)
  show "1 / 2 ^ 22 \<le> (1 / of_int q :: rat)" using PQ by (simp add: frac_le flip: Q_def)
  have "0 \<le> 1 / Q" using PQ by simp
  then show "1 \<le> x" using low unfolding Q_def by linarith
  have "P / Q \<le> P / 1" using PQ by (intro divide_left_mono) simp_all
  then show "x \<le> 2 ^ 22" using PQ by (simp add: x)
qed

lemma bucket_width:
  fixes p q :: int
  assumes "1 \<le> q" and "q < p" and "p \<le> 2 ^ 22"
  defines "x \<equiv> of_int p / of_int q :: rat"
  shows "bucket_size (p + 2) (q + 2) = Fin (rnd x)" and "1 \<le> rnd x" and "\<bar>rnd x - x\<bar> \<le> x / 2 ^ 53"
    and "rnd x \<le> x + 1 / 2 ^ 31" and "rnd x \<le> 2 ^ 23"
proof -
  have x: "1 \<le> x" "x \<le> 2 ^ 22" using quotient_bounds(4,5) [OF assms(1-3)] by (simp_all add: x_def)
  have e: "f_of_int p = Fin (of_int p)" "f_of_int q = Fin (of_int q)" using assms(1-3) by (simp_all add: f_of_int_exact)
  have "f_round x = Fin (rnd x)" using f_round_nonneg [of x] x by simp
  then show "bucket_size (p + 2) (q + 2) = Fin (rnd x)" using assms(1) by (simp add: bucket_size_def e f_div_def x_def)
  show "1 \<le> rnd x" using rnd_mono [of 1 x] rnd_of_int [of 1] x(1) by simp
  show err: "\<bar>rnd x - x\<bar> \<le> x / 2 ^ 53" using x(1) by (rule rnd_error_ge1)
  have "x / 2 ^ 53 \<le> 1 / 2 ^ 31" using x(2) by simp
  then show up: "rnd x \<le> x + 1 / 2 ^ 31" using err by linarith
  have "(2 :: rat) ^ 22 + 1 / 2 ^ 31 \<le> 2 ^ 23" by simp
  then show "rnd x \<le> 2 ^ 23" using up x(2) by linarith
qed

lemma boundary_error:
  fixes p q :: int
  assumes q: "1 \<le> q" "q < p" and p: "p \<le> 2 ^ 22" and k: "int k \<le> q + 1"
  defines "x \<equiv> of_int p / of_int q :: rat"
  shows "bucket_bound (bucket_size (p + 2) (q + 2)) k = \<lfloor>rnd (of_nat k * rnd x)\<rfloor> \<and>
    \<bar>rnd (of_nat k * rnd x) - of_nat k * x\<bar> \<le> 1 / 2 ^ 25"
proof -
  note x = quotient_bounds [OF q p, folded x_def] and w = bucket_width [OF q p, folded x_def]
  have "(of_int (int k) :: rat) \<le> of_int (q + 1)" using k by (simp only: of_int_le_iff)
  then have "of_nat k * x \<le> (of_int q + 1) * x" using x(4) by (intro mult_right_mono) simp_all
  moreover have "(of_int p :: rat) \<le> of_int (2 ^ 22)" using p by (simp only: of_int_le_iff)
  ultimately have kx: "of_nat k * x \<le> 2 ^ 23" using x(1,5) by (simp add: algebra_simps)
  have "\<bar>of_nat k * (rnd x - x)\<bar> = of_nat k * \<bar>rnd x - x\<bar>" by (simp add: abs_mult)
  also have "\<dots> \<le> of_nat k * (x / 2 ^ 53)" using w(3) by (intro mult_left_mono) simp_all
  also have "\<dots> = of_nat k * x / 2 ^ 53" by simp
  also have "\<dots> \<le> 2 ^ 23 / 2 ^ 53" using kx by (intro divide_right_mono) simp_all
  also have "\<dots> \<le> 1 / 2 ^ 26" by simp
  finally have e1: "\<bar>of_nat k * rnd x - of_nat k * x\<bar> \<le> 1 / 2 ^ 26" by (simp add: right_diff_distrib)
  have "(2 :: rat) ^ 23 + 1 / 2 ^ 26 \<le> 2 ^ 27" by simp
  then have kw: "0 \<le> of_nat k * rnd x" "of_nat k * rnd x \<le> 2 ^ 27" using e1 kx w(2) by (simp, linarith)
  have "of_nat k * rnd x = 0 \<or> 1 \<le> of_nat k * rnd x"
  proof (cases "k = 0")
    case False
    then have "1 * 1 \<le> of_nat k * rnd x" using w(2) by (intro mult_mono) simp_all
    then show ?thesis by simp
  qed simp
  then have e2: "\<bar>rnd (of_nat k * rnd x) - of_nat k * rnd x\<bar> \<le> 1 / 2 ^ 26" by (rule rnd_error_small [OF kw])
  have fk: "f_of_int (int k) = Fin (of_nat k)" using k q p f_of_int_exact [of "int k"] by simp
  have "of_nat k * rnd x \<le> 2 ^ 53" using kw(2) by (rule order_trans) simp
  from f_round_nonneg [OF kw(1) this] f_int_Fin [of "rnd (of_nat k * rnd x)"]
  have "bucket_bound (bucket_size (p + 2) (q + 2)) k = \<lfloor>rnd (of_nat k * rnd x)\<rfloor>" by (simp add: bucket_bound_def w(1) fk f_mul_def)
  moreover have "(1 :: rat) / 2 ^ 26 + 1 / 2 ^ 26 = 1 / 2 ^ 25" by simp
  then have "\<bar>rnd (of_nat k * rnd x) - of_nat k * x\<bar> \<le> 1 / 2 ^ 25" using e1 e2 by linarith
  ultimately show ?thesis by simp
qed

text \<open>The first bucket, whose beginning is computed differently from its end.\<close>

lemma first_bucket:
  fixes p q :: int
  assumes q: "1 \<le> q" "q < p" and p: "p \<le> 2 ^ 22"
  defines "width \<equiv> bucket_size (p + 2) (q + 2)"
  shows "2 \<le> f_int (f_add (Fin 1) width)" and "f_int (f_add (Fin 1) width) \<le> bucket_bound width 1 + 1"
proof -
  define x :: rat where "x = of_int p / of_int q"
  note xs = quotient_bounds [OF q p, folded x_def] and w = bucket_width [OF q p, folded x_def]
  have f1: "f_int (f_add (Fin 1) width) = \<lfloor>rnd (1 + rnd x)\<rfloor>"
    using f_round_nonneg [of "1 + rnd x"] f_int_Fin [of "rnd (1 + rnd x)"] w(2,5) by (simp add: width_def w(1))
  have "rnd (of_int 2) \<le> rnd (1 + rnd x)" using w(2) by (intro rnd_mono) simp
  then have "2 \<le> rnd (1 + rnd x)" using rnd_of_int [of 2] by simp
  then show "2 \<le> f_int (f_add (Fin 1) width)" by (simp add: f1 le_floor_iff)
  define N where "N = p div q"
  have Nq: "N * q \<le> p" "p + 1 \<le> (N + 1) * q"
    using q pos_mod_bound [of q p] pos_mod_sign [of q p] div_mult_mod_eq [of p q]
    unfolding N_def distrib_right by linarith+
  then have "(of_int (N * q) :: rat) \<le> of_int p" "(of_int (p + 1) :: rat) \<le> of_int ((N + 1) * q)"
    by (simp_all only: of_int_le_iff)
  then have N: "of_int N \<le> x" "x + 1 / of_int q \<le> of_int N + 1"
    using q by (simp_all add: x_def field_simps)
  have "\<bar>N\<bar> \<le> 2 ^ 53"
    using q p Nq(1) zdiv_mono2 [of p 1 q] by (simp add: N_def pos_imp_zdiv_nonneg_iff)
  then have "of_int N \<le> rnd (rnd x)" using rnd_mono [of "of_int N"] rnd_of_int [of N] N(1) by metis
  moreover have "bucket_bound width 1 = \<lfloor>rnd (rnd x)\<rfloor>"
    using boundary_error [OF q p, of 1, folded x_def width_def] q by simp
  ultimately have low: "N + 1 \<le> bucket_bound width 1 + 1" by (simp add: le_floor_iff)
  have "\<bar>rnd (1 + rnd x) - (1 + rnd x)\<bar> \<le> 1 / 2 ^ 26" using w(2,5) by (intro rnd_error_small) simp_all
  moreover have "(1 :: rat) / 2 ^ 26 + 1 / 2 ^ 31 < 1 / 2 ^ 22" by simp
  ultimately have "rnd (1 + rnd x) < of_int N + 2" using w(4) N(2) xs(3) by linarith
  then have "\<lfloor>rnd (1 + rnd x)\<rfloor> < N + 2" unfolding floor_less_iff by simp
  with low show "f_int (f_add (Fin 1) width) \<le> bucket_bound width 1 + 1" by (simp add: f1)
qed

lemma bucket_boundaries:
  fixes p q :: int
  assumes q: "1 \<le> q" "q < p" and p: "p \<le> 2 ^ 22"
  defines "width \<equiv> bucket_size (p + 2) (q + 2)"
  shows "2 \<le> f_int (f_add (Fin 1) width)"
    and "f_int (f_add (Fin 1) width) \<le> bucket_bound width 1 + 1"
    and "k < nat q \<Longrightarrow> bucket_bound width (k + 1) < bucket_bound width (k + 2)"
    and "bucket_bound width (nat q) \<le> p"
proof -
  define x :: rat where "x = of_int p / of_int q"
  note xs = quotient_bounds [OF q p, folded x_def] and bound = boundary_error [OF q p, folded x_def width_def]
  show "2 \<le> f_int (f_add (Fin 1) width)" "f_int (f_add (Fin 1) width) \<le> bucket_bound width 1 + 1"
    unfolding width_def by (rule first_bucket [OF q p])+
  show "bucket_bound width (k + 1) < bucket_bound width (k + 2)" if "k < nat q"
  proof -
    have "int (k + 1) \<le> q + 1" "int (k + 2) \<le> q + 1" using that by simp_all
    note b = bound [OF this(1), THEN conjunct1] bound [OF this(1), THEN conjunct2]
      bound [OF this(2), THEN conjunct1] bound [OF this(2), THEN conjunct2]
    have "(1 :: rat) / 2 ^ 25 + 1 / 2 ^ 25 \<le> 1 / 2 ^ 22" by simp
    moreover have "of_nat (k + 2) * x = of_nat (k + 1) * x + (x :: rat)" by (simp add: algebra_simps)
    ultimately have "rnd (of_nat (k + 1) * rnd x) + 1 \<le> rnd (of_nat (k + 2) * rnd x)"
      using b(2,4) xs(2,3) by linarith
    then show ?thesis unfolding b(1,3) by linarith
  qed
  have nq: "int (nat q) \<le> q + 1" using q by simp
  note bq = bound [OF nq, THEN conjunct1] bound [OF nq, THEN conjunct2]
  have "of_nat (nat q) * x = of_int p" using q xs(1) by (simp add: mult.commute)
  moreover have "(1 :: rat) / 2 ^ 25 < 1" by simp
  ultimately have "rnd (of_nat (nat q) * rnd x) < of_int p + 1" using bq(2) by linarith
  then have "\<lfloor>rnd (of_nat (nat q) * rnd x)\<rfloor> < p + 1" unfolding floor_less_iff by simp
  then show "bucket_bound width (nat q) \<le> p" unfolding bq(1) by simp
qed

section \<open>Downsampling a list\<close>

context point_source begin

lemma downsample_shape:
  assumes "ok s" and "3 \<le> threshold" and "threshold < int (length (pending s))"
    and "int (length (pending s)) \<le> 2 ^ 22"
  shows "\<exists>s' ps. downsample it (int (length (pending s))) threshold s = (s', Inr ps) \<and>
    subseq ps (pending s) \<and> ps \<noteq> [] \<and> hd ps = hd (pending s) \<and> last ps = last (pending s) \<and>
    int (length ps) = threshold"
proof -
  have "1 \<le> threshold - 2" "threshold - 2 < int (length (pending s)) - 2" "int (length (pending s)) - 2 \<le> 2 ^ 22"
    using assms by simp_all
  note b = bucket_boundaries [OF this]
  show ?thesis
    by (rule downsample_samples [OF assms(1-3)]) (use b in simp_all)
qed

end

end
