(* ===== verification/Plots.thy ===== *)
theory Plots
  imports Downsampling Http_Types "HOL-Library.AList" "HOL-Library.Multiset" "HOL-Library.List_Lexorder" "HOL-Library.Char_ord"
begin

text \<open>
  \<open>lib/plot\<close>: time series (\<open>timeseries.go\<close>) and the plot (\<open>plot.go\<close>), which groups the
  latencies of results by attack and label, after putting them back into the order of their
  sequence numbers.

  The compressed series is a third-party package: \<open>push\<close> appends a point to one, \<open>new\<close> is an
  empty one, and \<open>read\<close> gives what its iterator yields, a list of points and the error it ends
  with. A pointer to a series is its label: entries of the map of series are never replaced.
  A Go map is an association list in the order of some iteration over it.
\<close>

section \<open>Time series\<close>

record 'd time_series =
  ts_attack :: string
  ts_label :: string
  ts_prev :: u64
  ts_data :: 'd
  ts_len :: int

definition new_time_series :: "'d \<Rightarrow> string \<Rightarrow> string \<Rightarrow> 'd time_series" where
  "new_time_series new attack label = \<lparr>ts_attack = attack, ts_label = label, ts_prev = 0, ts_data = new, ts_len = 0\<rparr>"

type_synonym 'd pusher = "'d \<Rightarrow> u64 \<Rightarrow> float64 \<Rightarrow> 'd"

definition ts_add :: "'d pusher \<Rightarrow> 'd time_series \<Rightarrow> u64 \<Rightarrow> float64 \<Rightarrow> 'd time_series option" where
  "ts_add push ts t v =
    (if t < ts_prev ts then None
     else Some (ts\<lparr>ts_data := push (ts_data ts) t v, ts_prev := t, ts_len := ts_len ts + 1\<rparr>))"

text \<open>The iterator: what is left of the points, and the error at their end.\<close>

type_synonym series_state = "(u64 \<times> float64) list \<times> string option"

definition ts_point :: "u64 \<times> float64 \<Rightarrow> point" where
  "ts_point = (\<lambda>(t, v). \<lparr>pt_X = duration_seconds (t * 1000000), pt_Y = v\<rparr>)"

definition ts_iter :: "series_state iter" where
  "ts_iter st n =
    (case st of (xs, err) \<Rightarrow>
       if n < 0 then (st, Inl (Panicked MakeSliceRange))
       else ((drop (nat n) xs, err),
         (case err of
            Some e \<Rightarrow> if int (length xs) < n then Inl (Failed e) else Inr (map ts_point (take (nat n) xs))
          | None \<Rightarrow> Inr (map ts_point (take (nat n) xs)))))"

interpretation series: point_source ts_iter "\<lambda>st. map ts_point (fst st)" "\<lambda>st. snd st = None"
  by unfold_locales (auto simp: ts_iter_def take_map drop_map)

section \<open>Labeled series\<close>

record plot_point =
  pp_ts :: string
  pp_seq :: u64
  pp_t :: time
  pp_v :: float64

record 'd labeled_series =
  ls_began :: time
  ls_seq :: u64
  ls_buf :: "(u64 \<times> plot_point) list"
  ls_series :: "(string \<times> 'd time_series) list"

type_synonym labeler = "result \<Rightarrow> string"

definition error_labeler :: labeler where
  "error_labeler r = (if Error r = [] then ''OK'' else ''ERROR'')"

definition new_labeled_series :: "'d labeled_series" where
  "new_labeled_series = \<lparr>ls_began = 0, ls_seq = 0, ls_buf = [], ls_series = []\<rparr>"

text \<open>Milliseconds since the beginning, in unsigned arithmetic; the loop that empties the buffer.
  An error leaves the state as it is at that point.\<close>

definition plot_ms :: "time \<Rightarrow> time \<Rightarrow> u64" where
  "plot_ms began t = time_sub t began div 1000000"

definition sequence_error :: "u64 \<Rightarrow> string" where
  "sequence_error n =
    ''point with sequence number '' @ format_uint n @ '' in timeseries: non monotonically increasing timestamp''"

function drain :: "'d pusher \<Rightarrow> 'd labeled_series \<Rightarrow> 'd labeled_series \<times> string option" where
  "drain push ls =
    (case map_of (ls_buf ls) (ls_seq ls) of
       None \<Rightarrow> (ls, None)
     | Some p \<Rightarrow>
         let ls1 = ls\<lparr>ls_buf := AList.delete (ls_seq ls) (ls_buf ls)\<rparr> in
         case ts_add push (the (map_of (ls_series ls1) (pp_ts p))) (plot_ms (ls_began ls1) (pp_t p)) (pp_v p) of
           None \<Rightarrow> (ls1, Some (sequence_error (pp_seq p)))
         | Some ts \<Rightarrow> drain push (ls1\<lparr>ls_series := AList.update (pp_ts p) ts (ls_series ls1), ls_seq := ls_seq ls1 + 1\<rparr>))"
  by pat_completeness auto
termination
proof (relation "measure (\<lambda>(push, ls). length (ls_buf ls))")
  fix push :: "'d pusher" and ls :: "'d labeled_series" and p ls1 ts
  assume "map_of (ls_buf ls) (ls_seq ls) = Some p" and ls1: "ls1 = ls\<lparr>ls_buf := AList.delete (ls_seq ls) (ls_buf ls)\<rparr>"
  then have "(ls_seq ls, p) \<in> set (ls_buf ls)" by (simp add: map_of_SomeD)
  then have "length (AList.delete (ls_seq ls) (ls_buf ls)) < length (ls_buf ls)"
    unfolding AList.delete_eq by (intro length_filter_less) auto
  then show "((push, ls1\<lparr>ls_series := AList.update (pp_ts p) ts (ls_series ls1), ls_seq := ls_seq ls1 + 1\<rparr>), push, ls)
    \<in> measure (\<lambda>(push, ls). length (ls_buf ls))"
    by (simp add: ls1)
qed simp

declare drain.simps [simp del]

definition plot_value :: "result \<Rightarrow> float64" where
  "plot_value r = f_mul (duration_seconds (Latency r)) (Fin 1000)"

definition ls_add :: "'d pusher \<Rightarrow> 'd \<Rightarrow> labeler \<Rightarrow> 'd labeled_series \<Rightarrow> result \<Rightarrow> 'd labeled_series \<times> string option" where
  "ls_add push new label ls r =
    (let l = label r;
         ls1 = (if map_of (ls_series ls) l = None
                then ls\<lparr>ls_series := AList.update l (new_time_series new (Attack r) l) (ls_series ls)\<rparr> else ls);
         p = \<lparr>pp_ts = l, pp_seq = Seq r, pp_t = Timestamp r, pp_v = plot_value r\<rparr>;
         ls2 = ls1\<lparr>ls_buf := AList.update (pp_seq p) p (ls_buf ls1)\<rparr> in
     if pp_seq p \<noteq> ls_seq ls2 then (ls2, None)
     else drain push (if ls_seq ls2 = 0 then ls2\<lparr>ls_began := Timestamp r\<rparr> else ls2))"

text \<open>Adding results until one fails, as the commands do.\<close>

fun ls_add_all :: "'d pusher \<Rightarrow> 'd \<Rightarrow> labeler \<Rightarrow> 'd labeled_series \<Rightarrow> result list \<Rightarrow> 'd labeled_series \<times> string option" where
  "ls_add_all push new label ls [] = (ls, None)"
| "ls_add_all push new label ls (r # rs) =
    (case ls_add push new label ls r of
       (ls', None) \<Rightarrow> ls_add_all push new label ls' rs
     | (ls', Some e) \<Rightarrow> (ls', Some e))"

section \<open>Reordering\<close>

text \<open>
  A compressed series that gives back the points pushed to it (what the package documents), and
  the results of one attack in sequence order: numbered from 0, with timestamps that do not
  decrease.
\<close>

definition lossless :: "'d pusher \<Rightarrow> 'd \<Rightarrow> ('d \<Rightarrow> series_state) \<Rightarrow> bool" where
  "lossless push new read \<longleftrightarrow>
    read new = ([], None) \<and> (\<forall>d t v. read (push d t v) = (fst (read d) @ [(t, v)], snd (read d)))"

definition in_sequence :: "result list \<Rightarrow> bool" where
  "in_sequence ss \<longleftrightarrow>
    length ss < 2 ^ 64 \<and> map Seq ss = map of_nat [0..<length ss] \<and> sorted (map Timestamp ss)"

definition plotted :: "result list \<Rightarrow> result \<Rightarrow> u64 \<times> float64" where
  "plotted ss r = (plot_ms (Timestamp (hd ss)) (Timestamp r), plot_value r)"

text \<open>
  The state after the results with indices \<open>A\<close> of \<open>ss\<close> arrived: the first \<open>k\<close> are in their
  series, the others in the buffer.
\<close>

definition point_of :: "labeler \<Rightarrow> result \<Rightarrow> plot_point" where
  "point_of label r = \<lparr>pp_ts = label r, pp_seq = Seq r, pp_t = Timestamp r, pp_v = plot_value r\<rparr>"

definition buffered :: "labeler \<Rightarrow> result list \<Rightarrow> nat set \<Rightarrow> nat \<Rightarrow> (u64 \<rightharpoonup> plot_point) \<Rightarrow> bool" where
  "buffered label ss A k buf \<longleftrightarrow>
    (\<forall>i < length ss. buf (of_nat i) = (if i \<in> A \<and> k \<le> i then Some (point_of label (ss ! i)) else None)) \<and>
    (\<forall>w. length ss \<le> unat w \<longrightarrow> buf w = None)"

definition holds_series ::
    "('d \<Rightarrow> series_state) \<Rightarrow> labeler \<Rightarrow> result list \<Rightarrow> nat set \<Rightarrow> nat \<Rightarrow> string \<Rightarrow> 'd time_series option \<Rightarrow> bool" where
  "holds_series read label ss A k l x \<longleftrightarrow>
    (case x of
       None \<Rightarrow> \<forall>i \<in> A. label (ss ! i) \<noteq> l
     | Some ts \<Rightarrow> (\<exists>i \<in> A. label (ss ! i) = l) \<and>
         read (ts_data ts) = (map (plotted ss) (filter (\<lambda>r. label r = l) (take k ss)), None) \<and>
         ts_len ts = int (length (filter (\<lambda>r. label r = l) (take k ss))) \<and>
         (\<forall>j. k \<le> j \<and> j < length ss \<longrightarrow> ts_prev ts \<le> plot_ms (Timestamp (hd ss)) (Timestamp (ss ! j))))"

definition reorder_inv :: "('d \<Rightarrow> series_state) \<Rightarrow> labeler \<Rightarrow> result list \<Rightarrow> nat set \<Rightarrow> nat \<Rightarrow> 'd labeled_series \<Rightarrow> bool" where
  "reorder_inv read label ss A k ls \<longleftrightarrow>
    A \<subseteq> {..<length ss} \<and> {..<k} \<subseteq> A \<and> ls_seq ls = of_nat k \<and>
    (0 < k \<longrightarrow> ls_began ls = Timestamp (hd ss)) \<and>
    buffered label ss A k (map_of (ls_buf ls)) \<and>
    (\<forall>l. holds_series read label ss A k l (map_of (ls_series ls) l))"

lemma in_sequence_nth:
  assumes "in_sequence ss" and "i < length ss"
  shows "Seq (ss ! i) = of_nat i" and "unat (of_nat i :: u64) = i"
proof -
  have "map Seq ss ! i = (map of_nat [0..<length ss] ! i :: u64)" using assms by (simp add: in_sequence_def)
  then show "Seq (ss ! i) = of_nat i" using assms(2) by simp
  have "i < 2 ^ 64" using assms by (simp add: in_sequence_def)
  then show "unat (of_nat i :: u64) = i" by (simp add: unat_of_nat)
qed

lemma of_nat_eq_index:
  assumes "in_sequence ss" and "i < length ss" and "j \<le> length ss"
  shows "(of_nat i :: u64) = of_nat j \<longleftrightarrow> i = j"
proof -
  have "j < 2 ^ 64" using assms by (simp add: in_sequence_def)
  then have "unat (of_nat j :: u64) = j" by (simp add: unat_of_nat)
  then show ?thesis using in_sequence_nth(2) [OF assms(1,2)] by metis
qed

lemma plot_ms_mono:
  assumes "b \<le> t" and "t \<le> u"
  shows "plot_ms b t \<le> plot_ms b u"
proof -
  have "0 \<le> sint (time_sub t b)" "sint (time_sub t b) \<le> sint (time_sub u b)"
    using assms by (simp_all add: sint_time_sub)
  then have "unat (time_sub t b) \<le> unat (time_sub u b)"
    using unat_eq_sint_i64 [of "time_sub t b"] unat_eq_sint_i64 [of "time_sub u b"] by linarith
  then show ?thesis by (simp add: plot_ms_def word_le_nat_alt unat_div div_le_mono)
qed

lemma sequence_ms:
  assumes "in_sequence ss" and "i \<le> j" and "j < length ss"
  shows "plot_ms (Timestamp (hd ss)) (Timestamp (ss ! i)) \<le> plot_ms (Timestamp (hd ss)) (Timestamp (ss ! j))"
proof (rule plot_ms_mono)
  have s: "sorted (map Timestamp ss)" using assms(1) by (simp add: in_sequence_def)
  have "map Timestamp ss ! 0 \<le> map Timestamp ss ! i" using assms by (intro sorted_nth_mono [OF s]) simp_all
  moreover have "ss \<noteq> []" using assms by auto
  ultimately show "Timestamp (hd ss) \<le> Timestamp (ss ! i)" using assms by (simp add: hd_conv_nth)
  have "map Timestamp ss ! i \<le> map Timestamp ss ! j" using assms by (intro sorted_nth_mono [OF s]) simp_all
  then show "Timestamp (ss ! i) \<le> Timestamp (ss ! j)" using assms by simp
qed

text \<open>The buffer and the series when a point moves from one to the other.\<close>

lemma buffered_take:
  assumes "in_sequence ss" and "k < length ss" and "buffered label ss A k buf"
  shows "buffered label ss A (Suc k) (buf(of_nat k := None))"
  using assms of_nat_eq_index [OF assms(1) _ less_imp_le [OF assms(2)]] by (auto simp: buffered_def)

lemma buffered_insert:
  assumes "in_sequence ss" and "i < length ss" and "k \<le> i" and "buffered label ss A k buf"
  shows "buffered label ss (insert i A) k (buf(of_nat i \<mapsto> point_of label (ss ! i)))"
  using assms of_nat_eq_index [OF assms(1) _ less_imp_le [OF assms(2)]] in_sequence_nth(2) [OF assms(1,2)]
  by (auto simp: buffered_def)

lemma holds_series_other:
  assumes "k < length ss" and "label (ss ! k) \<noteq> l" and "holds_series read label ss A k l x"
  shows "holds_series read label ss A (Suc k) l x"
proof -
  have "filter (\<lambda>r. label r = l) (take (Suc k) ss) = filter (\<lambda>r. label r = l) (take k ss)"
    using assms(1,2) by (simp add: take_Suc_conv_app_nth)
  then show ?thesis using assms(3) by (auto simp: holds_series_def split: option.splits)
qed

lemma holds_series_push:
  assumes low: "lossless push new read" and seq: "in_sequence ss" and k: "k < length ss" "k \<in> A"
    and ts: "holds_series read label ss A k (label (ss ! k)) (Some ts)"
  defines "ms \<equiv> plot_ms (Timestamp (hd ss)) (Timestamp (ss ! k))"
  shows "holds_series read label ss A (Suc k) (label (ss ! k))
    (Some (ts\<lparr>ts_data := push (ts_data ts) ms (plot_value (ss ! k)), ts_prev := ms, ts_len := ts_len ts + 1\<rparr>))"
  using ts k low sequence_ms [OF seq, of k]
  by (auto simp: holds_series_def ms_def lossless_def take_Suc_conv_app_nth plotted_def)

lemma holds_series_insert:
  "holds_series read label ss A k l x \<Longrightarrow> x \<noteq> None \<or> label (ss ! i) \<noteq> l \<Longrightarrow> holds_series read label ss (insert i A) k l x"
  by (cases x) (auto simp: holds_series_def)

lemma holds_series_new:
  assumes "lossless push new read" and "{..<k} \<subseteq> A" and "holds_series read label ss A k l None" and "label (ss ! i) = l"
  shows "holds_series read label ss (insert i A) k l (Some (new_time_series new a l))"
proof -
  have "label (ss ! j) \<noteq> l" if "j < k" for j using assms(2,3) that by (auto simp: holds_series_def)
  then have "filter (\<lambda>r. label r = l) (take k ss) = []" unfolding filter_empty_conv all_set_conv_all_nth by simp
  then show ?thesis using assms(1,4) by (simp add: holds_series_def new_time_series_def lossless_def)
qed

lemma drain_step:
  assumes low: "lossless push new read" and seq: "in_sequence ss" and inv: "reorder_inv read label ss A k ls"
    and k: "k \<in> A" and began: "ls_began ls = Timestamp (hd ss)"
  shows "\<exists>ls'. drain push ls = drain push ls' \<and> reorder_inv read label ss A (Suc k) ls' \<and> ls_began ls' = Timestamp (hd ss)"
proof -
  have A: "A \<subseteq> {..<length ss}" and lt: "{..<k} \<subseteq> A" and sq: "ls_seq ls = of_nat k"
    and buf: "buffered label ss A k (map_of (ls_buf ls))"
    and ser: "\<And>l. holds_series read label ss A k l (map_of (ls_series ls) l)"
    using inv by (simp_all add: reorder_inv_def)
  have kn: "k < length ss" using A k by auto
  let ?r = "ss ! k"
  have p: "map_of (ls_buf ls) (ls_seq ls) = Some (point_of label ?r)" using buf kn k by (simp add: sq buffered_def)
  obtain ts where ts: "map_of (ls_series ls) (label ?r) = Some ts"
    using ser [of "label ?r"] k by (auto simp: holds_series_def split: option.splits)
  define ms where "ms = plot_ms (Timestamp (hd ss)) (Timestamp ?r)"
  have prev: "\<not> ms < ts_prev ts" using ser [of "label ?r"] kn by (simp add: ts holds_series_def ms_def not_less)
  define ts' where "ts' = ts\<lparr>ts_data := push (ts_data ts) ms (plot_value ?r), ts_prev := ms, ts_len := ts_len ts + 1\<rparr>"
  define ls' where "ls' = ls\<lparr>ls_buf := AList.delete (ls_seq ls) (ls_buf ls),
    ls_series := AList.update (label ?r) ts' (ls_series ls), ls_seq := ls_seq ls + 1\<rparr>"
  have "drain push ls = drain push ls'"
    using p ts prev by (subst drain.simps) (simp add: point_of_def Let_def ts_add_def began ls'_def ts'_def ms_def)
  moreover have "buffered label ss A (Suc k) (map_of (ls_buf ls'))"
    using buffered_take [OF seq kn buf] by (simp add: ls'_def sq delete_conv')
  moreover have "holds_series read label ss A (Suc k) l (map_of (ls_series ls') l)" for l
    using holds_series_other [OF kn _ ser [of l]] holds_series_push [OF low seq kn k ser [of "label ?r", unfolded ts]]
    by (simp add: ls'_def update_conv' ts'_def ms_def)
  moreover have "{..<Suc k} \<subseteq> A" using lt k by (auto simp: less_Suc_eq)
  ultimately show ?thesis using A began by (intro exI [of _ ls']) (simp add: reorder_inv_def ls'_def sq)
qed

lemma drain_done:
  assumes seq: "in_sequence ss" and inv: "reorder_inv read label ss A k ls" and k: "k \<notin> A"
  shows "drain push ls = (ls, None)"
proof -
  have buf: "buffered label ss A k (map_of (ls_buf ls))"
    and sq: "ls_seq ls = of_nat k" and A: "A \<subseteq> {..<length ss}" and lt: "{..<k} \<subseteq> A"
    using inv by (simp_all add: reorder_inv_def)
  have "map_of (ls_buf ls) (of_nat k) = None"
  proof (cases "k < length ss")
    case True
    then show ?thesis using buf k by (simp add: buffered_def)
  next
    case False
    have "{..<k} \<subseteq> {..<length ss}" using lt A by (rule order_trans)
    then have "k = length ss" using False by simp
    then have "unat (of_nat k :: u64) = length ss" using seq by (simp add: in_sequence_def unat_of_nat)
    then show ?thesis using buf by (simp add: buffered_def)
  qed
  then show ?thesis by (subst drain.simps) (simp add: sq)
qed

lemma drain_inv:
  assumes low: "lossless push new read" and seq: "in_sequence ss" and "reorder_inv read label ss A k ls"
    and "k \<in> A" and "ls_began ls = Timestamp (hd ss)"
  shows "\<exists>ls' k'. drain push ls = (ls', None) \<and> reorder_inv read label ss A k' ls' \<and> k' \<notin> A"
  using assms(3-5)
proof (induction "length ss - k" arbitrary: k ls)
  case 0
  then show ?case by (auto simp: reorder_inv_def)
next
  case (Suc n)
  obtain ls' where ls': "drain push ls = drain push ls'" "reorder_inv read label ss A (Suc k) ls'"
    "ls_began ls' = Timestamp (hd ss)"
    using drain_step [OF low seq Suc.prems] by blast
  show ?case
  proof (cases "Suc k \<in> A")
    case True
    then show ?thesis using Suc.hyps(1) [OF _ ls'(2) True ls'(3)] Suc.hyps(2) ls'(1) by simp
  next
    case False
    then show ?thesis using drain_done [OF seq ls'(2) False] ls' by auto
  qed
qed

text \<open>A new result goes to the buffer first.\<close>

definition ls_buffer :: "'d \<Rightarrow> labeler \<Rightarrow> 'd labeled_series \<Rightarrow> result \<Rightarrow> 'd labeled_series" where
  "ls_buffer new label ls r =
    ls\<lparr>ls_buf := AList.update (Seq r) (point_of label r) (ls_buf ls),
      ls_series := (if map_of (ls_series ls) (label r) = None
        then AList.update (label r) (new_time_series new (Attack r) (label r)) (ls_series ls) else ls_series ls)\<rparr>"

lemma ls_add_buffer:
  "ls_add push new label ls r =
    (if Seq r \<noteq> ls_seq ls then (ls_buffer new label ls r, None)
     else drain push (if ls_seq ls = 0 then (ls_buffer new label ls r)\<lparr>ls_began := Timestamp r\<rparr> else ls_buffer new label ls r))"
  by (cases ls) (simp add: ls_add_def ls_buffer_def point_of_def Let_def)

lemma ls_buffer_inv:
  assumes low: "lossless push new read" and seq: "in_sequence ss" and inv: "reorder_inv read label ss A k ls"
    and i: "i < length ss" "k \<le> i" and b: "0 < k \<longrightarrow> b = Timestamp (hd ss)"
  shows "reorder_inv read label ss (insert i A) k ((ls_buffer new label ls (ss ! i))\<lparr>ls_began := b\<rparr>)"
proof -
  let ?ls = "(ls_buffer new label ls (ss ! i))\<lparr>ls_began := b\<rparr>"
  have A: "A \<subseteq> {..<length ss}" and lt: "{..<k} \<subseteq> A" and sq: "ls_seq ls = of_nat k"
    and buf: "buffered label ss A k (map_of (ls_buf ls))"
    and ser: "\<And>l. holds_series read label ss A k l (map_of (ls_series ls) l)"
    using inv by (simp_all add: reorder_inv_def)
  have "buffered label ss (insert i A) k (map_of (ls_buf ?ls))"
    using buffered_insert [OF seq i buf] by (simp add: ls_buffer_def update_conv' in_sequence_nth(1) [OF seq i(1)])
  moreover have "holds_series read label ss (insert i A) k l (map_of (ls_series ?ls) l)" for l
  proof (cases "l = label (ss ! i) \<and> map_of (ls_series ls) l = None")
    case True
    then have "map_of (ls_series ?ls) l = Some (new_time_series new (Attack (ss ! i)) l)"
      by (auto simp: ls_buffer_def update_conv')
    moreover have "holds_series read label ss A k l None" using ser [of l] True by metis
    ultimately show ?thesis using holds_series_new [OF low lt] True by metis
  next
    case False
    then have "map_of (ls_series ?ls) l = map_of (ls_series ls) l" by (auto simp: ls_buffer_def update_conv')
    moreover have "map_of (ls_series ls) l \<noteq> None \<or> label (ss ! i) \<noteq> l" using False by metis
    ultimately show ?thesis using holds_series_insert [OF ser [of l], of i] by simp
  qed
  ultimately show ?thesis using A lt i b by (simp add: reorder_inv_def ls_buffer_def sq subset_insertI2)
qed

lemma ls_add_inv:
  assumes low: "lossless push new read" and seq: "in_sequence ss" and inv: "reorder_inv read label ss A k ls"
    and k: "k \<notin> A" and i: "i < length ss" "i \<notin> A"
  shows "\<exists>ls' k'. ls_add push new label ls (ss ! i) = (ls', None) \<and>
    reorder_inv read label ss (insert i A) k' ls' \<and> k' \<notin> insert i A"
proof -
  let ?r = "ss ! i" and ?ls = "ls_buffer new label ls (ss ! i)"
  have lt: "{..<k} \<subseteq> A" and sq: "ls_seq ls = of_nat k" and bg: "0 < k \<longrightarrow> ls_began ls = Timestamp (hd ss)"
    using inv by (simp_all add: reorder_inv_def)
  have ki: "k \<le> i" using lt i(2) by (meson lessThan_iff linorder_not_le subsetD)
  note buffer = ls_buffer_inv [OF low seq inv i(1) ki]
  have eq: "Seq ?r = ls_seq ls \<longleftrightarrow> i = k"
    using of_nat_eq_index [OF seq i(1), of k] ki i(1) by (simp add: sq in_sequence_nth(1) [OF seq i(1)])
  have began: "ls_began ?ls = ls_began ls" by (simp add: ls_buffer_def)
  show ?thesis
  proof (cases "i = k")
    case True
    have zero: "ls_seq ls = 0 \<longleftrightarrow> k = 0" using of_nat_eq_index [OF seq i(1), of 0] True by (simp add: sq)
    have hd: "k = 0 \<Longrightarrow> Timestamp ?r = Timestamp (hd ss)" using True i by (cases ss) simp_all
    have "(if k = 0 then ?ls\<lparr>ls_began := Timestamp ?r\<rparr> else ?ls) = ?ls\<lparr>ls_began := Timestamp (hd ss)\<rparr>"
      using bg began by (auto simp: hd)
    moreover have "ls_add push new label ls ?r = drain push (if k = 0 then ?ls\<lparr>ls_began := Timestamp ?r\<rparr> else ?ls)"
      unfolding ls_add_buffer zero using eq True by (simp only: if_False simp_thms)
    ultimately have "ls_add push new label ls ?r = drain push (?ls\<lparr>ls_began := Timestamp (hd ss)\<rparr>)" by simp
    moreover have "k \<in> insert i A" using True by simp
    ultimately show ?thesis using drain_inv [OF low seq buffer [of "Timestamp (hd ss)"]] by simp
  next
    case False
    have "?ls\<lparr>ls_began := ls_began ls\<rparr> = ?ls" by (simp flip: began)
    then show ?thesis using buffer [OF bg] eq False k by (auto simp: ls_add_buffer)
  qed
qed

lemma new_series_inv: "reorder_inv read label ss {} 0 new_labeled_series"
  by (simp add: reorder_inv_def buffered_def holds_series_def new_labeled_series_def)

lemma ls_add_all_inv:
  assumes low: "lossless push new read" and seq: "in_sequence ss"
  shows "reorder_inv read label ss A k ls \<Longrightarrow> k \<notin> A \<Longrightarrow> set is \<subseteq> {..<length ss} - A \<Longrightarrow> distinct is \<Longrightarrow>
    \<exists>ls' k'. ls_add_all push new label ls (map ((!) ss) is) = (ls', None) \<and>
      reorder_inv read label ss (A \<union> set is) k' ls' \<and> k' \<notin> A \<union> set is"
proof (induction "is" arbitrary: A k ls)
  case (Cons i "is")
  then obtain ls1 k1 where "ls_add push new label ls (ss ! i) = (ls1, None)"
    "reorder_inv read label ss (insert i A) k1 ls1" "k1 \<notin> insert i A"
    using ls_add_inv [OF low seq Cons.prems(1,2), of i] by auto
  then show ?case using Cons.IH [of "insert i A" k1 ls1] Cons.prems by auto
qed auto

text \<open>What the series of an attack promise: the points of the label's results in sequence order.\<close>

definition series_spec :: "labeler \<Rightarrow> result list \<Rightarrow> string \<Rightarrow> (series_state \<times> int) option" where
  "series_spec label ss l =
    (let own = filter (\<lambda>r. label r = l) ss in
     if own = [] then None else Some ((map (plotted ss) own, None), int (length own)))"

lemma ls_add_all_sequence:
  assumes low: "lossless push new read" and seq: "in_sequence ss" and perm: "mset rs = mset ss"
  obtains ls where "ls_add_all push new label new_labeled_series rs = (ls, None)"
    and "\<And>l. map_option (\<lambda>ts. (read (ts_data ts), ts_len ts)) (map_of (ls_series ls) l) = series_spec label ss l"
proof -
  define "is" where "is = map (\<lambda>r. unat (Seq r)) rs"
  have idx: "unat (Seq (ss ! i)) = i" if "i < length ss" for i using in_sequence_nth [OF seq that] by simp
  have ss: "map (\<lambda>r. unat (Seq r)) ss = [0..<length ss]" using idx by (intro nth_equalityI) simp_all
  have "mset is = mset [0..<length ss]" unfolding is_def ss [symmetric] using perm by (metis mset_map)
  then have is': "set is = {..<length ss}" "distinct is"
    by (metis set_mset_mset set_upt atLeast0LessThan, metis distinct_upt mset_eq_imp_distinct_iff)
  have "ss ! unat (Seq r) = r" if "r \<in> set rs" for r
  proof -
    have "r \<in> set ss" using that perm by (metis set_mset_mset)
    then obtain i where "i < length ss" "r = ss ! i" by (auto simp: in_set_conv_nth)
    then show ?thesis using idx by simp
  qed
  then have rs: "rs = map ((!) ss) is" by (simp add: is_def map_idI)
  have "\<exists>ls k. ls_add_all push new label new_labeled_series rs = (ls, None) \<and>
      reorder_inv read label ss ({} \<union> set is) k ls \<and> k \<notin> {} \<union> set is"
    unfolding rs by (rule ls_add_all_inv [OF low seq new_series_inv]) (simp_all add: is')
  then obtain ls k where ls: "ls_add_all push new label new_labeled_series rs = (ls, None)"
    "reorder_inv read label ss {..<length ss} k ls" "k \<notin> {..<length ss}"
    by (auto simp: is')
  have "{..<k} \<subseteq> {..<length ss}" using ls(2) by (simp add: reorder_inv_def)
  then have k: "k = length ss" using ls(3) by simp
  show ?thesis
  proof (rule that [OF ls(1)])
    fix l
    have "holds_series read label ss {..<length ss} k l (map_of (ls_series ls) l)" using ls(2) by (simp add: reorder_inv_def)
    moreover have "set ss = (!) ss ` {..<length ss}"
      using nth_image [of "length ss" ss] by (simp add: atLeast0LessThan)
    then have "l \<in> label ` set ss \<longleftrightarrow> (\<exists>i \<in> {..<length ss}. label (ss ! i) = l)" by auto
    ultimately show "map_option (\<lambda>ts. (read (ts_data ts), ts_len ts)) (map_of (ls_series ls) l) = series_spec label ss l"
      by (auto simp: holds_series_def k series_spec_def Let_def filter_empty_conv split: option.splits)
  qed
qed

section \<open>Plot\<close>

record 'd plot =
  p_title :: string
  p_threshold :: int
  p_series :: "(string \<times> 'd labeled_series) list"
  p_label :: "labeler option"

datatype plot_opt = Title string | Downsample int | Label labeler

fun apply_plot_opt :: "plot_opt \<Rightarrow> 'd plot \<Rightarrow> 'd plot" where
  "apply_plot_opt (Title t) p = p\<lparr>p_title := t\<rparr>"
| "apply_plot_opt (Downsample n) p = p\<lparr>p_threshold := n\<rparr>"
| "apply_plot_opt (Label l) p = p\<lparr>p_label := Some l\<rparr>"

definition new_plot :: "plot_opt list \<Rightarrow> 'd plot" where
  "new_plot opts =
    (let p = fold apply_plot_opt opts \<lparr>p_title = [], p_threshold = 0, p_series = [], p_label = None\<rparr> in
     if p_label p = None then p\<lparr>p_label := Some error_labeler\<rparr> else p)"

definition plot_add :: "'d pusher \<Rightarrow> 'd \<Rightarrow> 'd plot \<Rightarrow> result \<Rightarrow> 'd plot \<times> string option" where
  "plot_add push new p r =
    (let s = (case map_of (p_series p) (Attack r) of Some s \<Rightarrow> s | None \<Rightarrow> new_labeled_series) in
     case ls_add push new (the (p_label p)) s r of
       (s', err) \<Rightarrow> (p\<lparr>p_series := AList.update (Attack r) s' (p_series p)\<rparr>, err))"

fun plot_add_all :: "'d pusher \<Rightarrow> 'd \<Rightarrow> 'd plot \<Rightarrow> result list \<Rightarrow> 'd plot \<times> string option" where
  "plot_add_all push new p [] = (p, None)"
| "plot_add_all push new p (r # rs) =
    (case plot_add push new p r of
       (p', None) \<Rightarrow> plot_add_all push new p' rs
     | (p', Some e) \<Rightarrow> (p', Some e))"

text \<open>Attacks do not interfere: each labeled series sees its own results.\<close>

definition series_of :: "'d plot \<Rightarrow> string \<Rightarrow> 'd labeled_series" where
  "series_of p a = (case map_of (p_series p) a of Some s \<Rightarrow> s | None \<Rightarrow> new_labeled_series)"

lemma plot_add_all_split:
  assumes "\<forall>a. snd (ls_add_all push new (the (p_label p)) (series_of p a) (filter (\<lambda>r. Attack r = a) rs)) = None"
  shows "\<exists>p'. plot_add_all push new p rs = (p', None) \<and>
    (\<forall>a. map_of (p_series p') a =
      (if a \<in> Attack ` set rs
       then Some (fst (ls_add_all push new (the (p_label p)) (series_of p a) (filter (\<lambda>r. Attack r = a) rs)))
       else map_of (p_series p) a))"
  using assms
proof (induction rs arbitrary: p)
  case (Cons r rs)
  obtain s err where s: "ls_add push new (the (p_label p)) (series_of p (Attack r)) r = (s, err)"
    by (cases "ls_add push new (the (p_label p)) (series_of p (Attack r)) r") simp
  define p1 where "p1 = p\<lparr>p_series := AList.update (Attack r) s (p_series p)\<rparr>"
  have err: "err = None" using spec [OF Cons.prems, of "Attack r"] s by (cases err) simp_all
  have so: "series_of p1 a = (if a = Attack r then s else series_of p a)" for a
    by (simp add: p1_def series_of_def update_conv')
  have lab: "p_label p1 = p_label p" by (simp add: p1_def)
  have split: "ls_add_all push new (the (p_label p)) (series_of p a) (filter (\<lambda>r. Attack r = a) (r # rs)) =
      ls_add_all push new (the (p_label p1)) (series_of p1 a) (filter (\<lambda>r. Attack r = a) rs)" for a
    using s err by (auto simp: so lab)
  have "plot_add push new p r = (p1, None)"
    using s err by (simp add: plot_add_def p1_def series_of_def)
  moreover obtain p' where p': "plot_add_all push new p1 rs = (p', None)"
    "\<forall>a. map_of (p_series p') a =
      (if a \<in> Attack ` set rs
       then Some (fst (ls_add_all push new (the (p_label p1)) (series_of p1 a) (filter (\<lambda>r. Attack r = a) rs)))
       else map_of (p_series p1) a)"
    using Cons.IH [of p1] Cons.prems unfolding split by blast
  moreover have "ls_add_all push new (the (p_label p1)) (series_of p1 a) (filter (\<lambda>r. Attack r = a) rs) = (s, None)"
    if "a = Attack r" "a \<notin> Attack ` set rs" for a
  proof -
    have "filter (\<lambda>r. Attack r = a) rs = []" using that(2) by (auto simp: filter_empty_conv)
    then show ?thesis using that(1) by (simp add: so)
  qed
  moreover have "map_of (p_series p1) a = (if a = Attack r then Some s else map_of (p_series p) a)" for a
    by (simp add: p1_def update_conv')
  ultimately show ?case by (auto simp: split simp del: ls_add_all.simps filter.simps)
qed simp

text \<open>\<open>Close\<close> finishes every series, which is up to the compressed series.\<close>

definition plot_close :: "('d \<Rightarrow> 'd) \<Rightarrow> 'd plot \<Rightarrow> 'd plot" where
  "plot_close end_series p = p\<lparr>p_series := map (\<lambda>(a, ls). (a, ls\<lparr>ls_series :=
    map (\<lambda>(l, ts). (l, ts\<lparr>ts_data := end_series (ts_data ts)\<rparr>)) (ls_series ls)\<rparr>)) (p_series p)\<rparr>"

section \<open>The data of a plot\<close>

text \<open>
  \<open>sort.Slice\<close> on the keys (it is not stable, and the order of the map it starts from is any, so
  the order of series with equal keys is any); \<open>sort.Stable\<close> by the first column, as insertion
  after the rows that are not greater.
\<close>

definition series_key :: "'d time_series \<Rightarrow> string" where
  "series_key ts = ts_attack ts @ ts_label ts"

definition all_series :: "'d plot \<Rightarrow> 'd time_series list" where
  "all_series p = sort_key series_key (concat (map (\<lambda>(a, s). map snd (ls_series s)) (p_series p)))"

type_synonym data_row = "float64 list"

definition row_less :: "data_row \<Rightarrow> data_row \<Rightarrow> bool" where
  "row_less p q \<longleftrightarrow> f_less (p ! 0) (q ! 0)"

fun insert_row :: "data_row \<Rightarrow> data_row list \<Rightarrow> data_row list" where
  "insert_row x [] = [x]"
| "insert_row x (y # ys) = (if row_less y x then y # insert_row x ys else x # y # ys)"

definition sort_rows :: "data_row list \<Rightarrow> data_row list" where
  "sort_rows rows = foldr insert_row rows []"

definition point_row :: "nat \<Rightarrow> nat \<Rightarrow> point \<Rightarrow> data_row" where
  "point_row n i p = (replicate n NaN)[0 := pt_X p, i + 1 := pt_Y p]"

fun series_rows :: "('d \<Rightarrow> series_state) \<Rightarrow> int \<Rightarrow> nat \<Rightarrow> nat \<Rightarrow> 'd time_series list \<Rightarrow> failure + data_row list" where
  "series_rows read threshold n i [] = Inr []"
| "series_rows read threshold n i (s # ss) =
    (case downsample ts_iter (ts_len s) threshold (read (ts_data s)) of
       (_, Inl e) \<Rightarrow> Inl e
     | (_, Inr points) \<Rightarrow>
         go_bind (series_rows read threshold n (i + 1) ss) (\<lambda>rows. Inr (map (point_row n i) points @ rows)))"

definition series_label :: "'d time_series \<Rightarrow> string" where
  "series_label s = ts_attack s @ '': '' @ ts_label s"

definition plot_data :: "('d \<Rightarrow> series_state) \<Rightarrow> 'd plot \<Rightarrow> failure + data_row list \<times> string list" where
  "plot_data read p =
    (let series = all_series p in
     go_bind (series_rows read (p_threshold p) (1 + length series) 0 series) (\<lambda>data.
       Inr (sort_rows data, ''Seconds'' # map series_label series)))"

text \<open>\<open>dataPoints.Append\<close>; \<open>fmt\<close> is \<open>strconv.AppendFloat\<close> in its shortest form.\<close>

fun row_cells :: "(float64 \<Rightarrow> string) \<Rightarrow> data_row \<Rightarrow> string" where
  "row_cells fmt [] = []"
| "row_cells fmt (f # fs) =
    (if f = NaN then ''null'' else fmt f) @ (if fs \<noteq> [] then '','' else []) @ row_cells fmt fs"

fun append_rows :: "(float64 \<Rightarrow> string) \<Rightarrow> data_row list \<Rightarrow> string" where
  "append_rows fmt [] = []"
| "append_rows fmt (p # ps) =
    ''  ['' @ row_cells fmt p @ '']'' @ (if ps \<noteq> [] then '','' @ [CHR 0x0A] @ ''  '' else []) @ append_rows fmt ps"

definition data_append :: "(float64 \<Rightarrow> string) \<Rightarrow> data_row list \<Rightarrow> string \<Rightarrow> string" where
  "data_append fmt ps buf = buf @ ''['' @ [CHR 0x0A] @ ''  '' @ append_rows fmt ps @ ''  ]''"

text \<open>Colors of the series.\<close>

definition failure_colors :: "string list" where
  "failure_colors = [''#EE7860'', ''#DD624E'', ''#CA4E3E'', ''#B63A30'', ''#9F2823'', ''#881618'', ''#6F050E'']"

definition success_colors :: "string list" where
  "success_colors = [''#E9D758'', ''#297373'', ''#39393A'', ''#A1CDF4'', ''#593C8F'', ''#171738'', ''#A1674A'']"

fun color_loop :: "nat \<Rightarrow> nat \<Rightarrow> string list \<Rightarrow> string list" where
  "color_loop failure success [] = []"
| "color_loop failure success (label # labels) =
    (if sublist ''ERROR'' label
     then failure_colors ! (failure mod length failure_colors) # color_loop (failure + 1) success labels
     else success_colors ! (success mod length success_colors) # color_loop failure (success + 1) labels)"

definition label_colors :: "string list \<Rightarrow> string list" where
  "label_colors labels = color_loop 0 0 labels"

text \<open>
  \<open>WriteTo\<close>. The assets, \<open>json.MarshalIndent\<close> of the options and the HTML template are
  arguments; the template writes through the counting writer it is given.
\<close>

type_synonym 'w writer = "'w \<Rightarrow> string \<Rightarrow> 'w \<times> i64 \<times> string option"

definition counting_write :: "'w writer \<Rightarrow> (i64 \<times> 'w) writer" where
  "counting_write write cw p =
    (case cw of (n, w) \<Rightarrow> case write w p of (w', k, err) \<Rightarrow> ((n + k, w'), k, err))"

record ui_opts =
  ui_Title :: string
  ui_Labels :: "string list"
  ui_Colors :: "string list"

record plot_page =
  page_Title :: string
  page_UPlotCSS :: string
  page_UPlotJS :: string
  page_PluginsJS :: string
  page_Data :: string
  page_Opts :: string

definition plot_page_of :: "(float64 \<Rightarrow> string) \<Rightarrow> (ui_opts \<Rightarrow> string + string) \<Rightarrow> (string \<Rightarrow> string + string) \<Rightarrow>
    string \<Rightarrow> data_row list \<Rightarrow> string list \<Rightarrow> failure + plot_page" where
  "plot_page_of fmt marshal asset title dp labels =
    (let opts = \<lparr>ui_Title = title, ui_Labels = labels, ui_Colors = label_colors (tl labels)\<rparr>;
         try = (\<lambda>x f. case x of Inl e \<Rightarrow> Inl (Failed e) | Inr y \<Rightarrow> f y) in
     try (marshal opts) (\<lambda>optsJSON.
     try (asset ''uPlot.min.js'') (\<lambda>js.
     try (asset ''uPlot.min.css'') (\<lambda>css.
     try (asset ''uplot-plugins.js'') (\<lambda>plugins.
       Inr \<lparr>page_Title = title, page_UPlotCSS = css, page_UPlotJS = js, page_PluginsJS = plugins,
         page_Data = data_append fmt dp [], page_Opts = optsJSON\<rparr>)))))"

definition plot_write_to :: "('d \<Rightarrow> series_state) \<Rightarrow> (float64 \<Rightarrow> string) \<Rightarrow> (ui_opts \<Rightarrow> string + string) \<Rightarrow> (string \<Rightarrow> string + string) \<Rightarrow>
    ((i64 \<times> 'w) writer \<Rightarrow> plot_page \<Rightarrow> i64 \<times> 'w \<Rightarrow> (i64 \<times> 'w) \<times> string option) \<Rightarrow> 'w writer \<Rightarrow> 'd plot \<Rightarrow> 'w \<Rightarrow>
    'w \<times> i64 \<times> failure option" where
  "plot_write_to read fmt marshal asset execute write p w =
    (case go_bind (plot_data read p) (\<lambda>(dp, labels). plot_page_of fmt marshal asset (p_title p) dp labels) of
       Inl e \<Rightarrow> (w, 0, Some e)
     | Inr page \<Rightarrow>
         (case execute (counting_write write) page (0, w) of ((n, w'), err) \<Rightarrow> (w', n, map_option Failed err)))"

section \<open>Sorting the rows\<close>

lemma duration_seconds_not_NaN [simp]: "duration_seconds d \<noteq> NaN"
proof -
  have "\<bar>sint d smod 1000000000\<bar> < 1000000000"
    by (simp add: signed_modulo_int_def abs_mult abs_sgn_eq)
  moreover have "\<bar>sint d\<bar> \<le> 2 ^ 63" using i64_sint_lower [of d] i64_sint_upper [of d] by (simp add: abs_le_iff)
  then have "\<bar>sint d\<bar> div 1000000000 \<le> 2 ^ 63 div 1000000000" by (intro zdiv_mono1) simp_all
  then have "\<bar>sint d sdiv 1000000000\<bar> \<le> 10000000000"
    by (simp add: signed_divide_int_def abs_mult abs_sgn_eq)
  ultimately have e: "f_of_int (sint d sdiv 1000000000) = Fin (of_int (sint d sdiv 1000000000))"
    "f_of_int (sint d smod 1000000000) = Fin (of_int (sint d smod 1000000000))" "f_of_int 1000000000 = Fin 1000000000"
    using f_of_int_exact [of 1000000000] by (simp_all add: f_of_int_exact)
  have "f_div (Fin x) (Fin 1000000000) = f_round (x / 1000000000)" for x by (simp add: f_div_def)
  moreover have "f_add (Fin x) y \<noteq> NaN" if "y \<noteq> NaN" for x y using that by (cases y) simp_all
  ultimately show ?thesis unfolding duration_seconds_def e by simp
qed

lemma f_less_negative_trans: "\<not> f_less b a \<Longrightarrow> \<not> f_less c b \<Longrightarrow> b \<noteq> NaN \<Longrightarrow> \<not> f_less c a"
  by (cases a; cases b; cases c) auto

lemma f_less_asym: "f_less a b \<Longrightarrow> \<not> f_less b a"
  by (cases a; cases b) auto

definition in_order :: "data_row list \<Rightarrow> bool" where
  "in_order rows \<longleftrightarrow> sorted_wrt (\<lambda>a b. \<not> row_less b a) rows"

lemma insert_row_mset [simp]: "mset (insert_row x ys) = add_mset x (mset ys)"
  by (induction ys) auto

lemma insert_row_set [simp]: "set (insert_row x ys) = insert x (set ys)"
  by (metis insert_row_mset mset.simps(2) set_mset_mset list.set(2))

lemma insert_row_order:
  "in_order ys \<Longrightarrow> \<forall>r \<in> insert x (set ys). r ! 0 \<noteq> NaN \<Longrightarrow> in_order (insert_row x ys)"
proof (induction ys)
  case (Cons y ys)
  show ?case
  proof (cases "row_less y x")
    case True
    then show ?thesis using Cons f_less_asym by (auto simp: in_order_def row_less_def)
  next
    case False
    have "\<not> row_less z x" if "z \<in> set ys" for z
      using False that Cons.prems f_less_negative_trans [of "y ! 0" "x ! 0" "z ! 0"] by (auto simp: in_order_def row_less_def)
    then show ?thesis using False Cons.prems by (auto simp: in_order_def)
  qed
qed (simp add: in_order_def)

lemma sort_rows_mset [simp]: "mset (sort_rows rows) = mset rows"
  by (induction rows) (simp_all add: sort_rows_def)

lemma sort_rows_order: "\<forall>r \<in> set rows. r ! 0 \<noteq> NaN \<Longrightarrow> in_order (sort_rows rows)"
proof (induction rows)
  case (Cons x rows)
  then have "in_order (sort_rows rows)" by simp
  moreover have "set (sort_rows rows) = set rows" by (metis set_mset_mset sort_rows_mset)
  ultimately have "in_order (insert_row x (sort_rows rows))" using Cons.prems by (intro insert_row_order) simp_all
  then show ?case by (simp add: sort_rows_def)
qed (simp add: sort_rows_def in_order_def)

text \<open>Series that hold as many points as they say are read in full when nothing is downsampled.\<close>

definition complete_series :: "('d \<Rightarrow> series_state) \<Rightarrow> 'd time_series \<Rightarrow> bool" where
  "complete_series read s \<longleftrightarrow> snd (read (ts_data s)) = None \<and> ts_len s = int (length (fst (read (ts_data s))))"

definition rows_of :: "('d \<Rightarrow> series_state) \<Rightarrow> nat \<Rightarrow> nat \<Rightarrow> 'd time_series \<Rightarrow> data_row list" where
  "rows_of read n i s = map (\<lambda>x. point_row n i (ts_point x)) (fst (read (ts_data s)))"

lemma series_rows_complete:
  assumes "\<forall>s \<in> set ss. complete_series read s"
  shows "series_rows read 0 n i ss = Inr (concat (map2 (rows_of read n) [i..<i + length ss] ss))"
  using assms
proof (induction ss arbitrary: i)
  case (Cons s ss)
  obtain xs where xs: "read (ts_data s) = (xs, None)" "ts_len s = int (length xs)"
    using Cons.prems by (cases "read (ts_data s)") (auto simp: complete_series_def)
  have "\<exists>s'. downsample ts_iter (int (length xs)) 0 (xs, None) = (s', Inr (map ts_point xs))"
    using series.downsample_all [of "(xs, None)" 0] by simp
  then obtain s' where "downsample ts_iter (int (length xs)) 0 (xs, None) = (s', Inr (map ts_point xs))" by blast
  moreover have "[i..<i + length (s # ss)] = i # [i + 1..<i + 1 + length ss]" by (simp add: upt_rec)
  ultimately show ?case using Cons xs by (simp add: rows_of_def)
qed simp

lemma plot_add_all_in_sequence:
  fixes push :: "'d pusher"
  assumes "lossless push new read"
    and "\<forall>a. in_sequence (ss a) \<and> mset (filter (\<lambda>r. Attack r = a) rs) = mset (ss a)"
  shows "\<exists>p. plot_add_all push new (new_plot opts) rs = (p, None) \<and>
    (\<forall>a. case map_of (p_series p) a of
       None \<Rightarrow> ss a = []
     | Some s \<Rightarrow> ss a \<noteq> [] \<and>
         (\<forall>l. map_option (\<lambda>ts. (read (ts_data ts), ts_len ts)) (map_of (ls_series s) l) =
           series_spec (the (p_label (new_plot opts :: 'd plot))) (ss a) l))"
proof -
  let ?label = "the (p_label (new_plot opts :: 'd plot))"
  have "p_series (fold apply_plot_opt opts p) = p_series p" for p :: "'d plot"
  proof (induction opts arbitrary: p)
    case (Cons x xs)
    then show ?case by (cases x) simp_all
  qed simp
  then have empty: "p_series (new_plot opts :: 'd plot) = []"
    by (simp add: new_plot_def Let_def)
  then have so: "series_of (new_plot opts :: 'd plot) a = new_labeled_series" for a by (simp add: series_of_def)
  let ?run = "\<lambda>a. ls_add_all push new ?label new_labeled_series (filter (\<lambda>r. Attack r = a) rs)"
  have run: "snd (?run a) = None \<and>
      (\<forall>l. map_option (\<lambda>ts. (read (ts_data ts), ts_len ts)) (map_of (ls_series (fst (?run a))) l) = series_spec ?label (ss a) l)" for a
  proof -
    have s: "in_sequence (ss a)" "mset (filter (\<lambda>r. Attack r = a) rs) = mset (ss a)" using assms(2) by simp_all
    show ?thesis by (rule ls_add_all_sequence [OF assms(1) s, of ?label]) simp
  qed
  obtain p where p: "plot_add_all push new (new_plot opts) rs = (p, None)"
    "\<forall>a. map_of (p_series p) a = (if a \<in> Attack ` set rs then Some (fst (?run a)) else None)"
    using plot_add_all_split [of push new "new_plot opts" rs] run unfolding so empty by auto
  have "a \<in> Attack ` set rs \<longleftrightarrow> ss a \<noteq> []" for a
  proof -
    have "mset (filter (\<lambda>r. Attack r = a) rs) = mset (ss a)" using assms(2) by simp
    then have "filter (\<lambda>r. Attack r = a) rs = [] \<longleftrightarrow> ss a = []" by (metis mset_zero_iff)
    then show ?thesis by (auto simp: filter_empty_conv)
  qed
  then show ?thesis using p run by (intro exI [of _ p]) (auto split: option.splits)
qed

section \<open>Properties\<close>

text \<open>
  C12. Refinement: whatever order the results of any number of attacks arrive in, and however they
  are interleaved, \<open>Plot.Add\<close> never fails, and afterwards every attack has, under every label,
  exactly the series of its results in sequence order; results of different attacks and labels do
  not mix. Each attack's results must be numbered 0, 1, 2, ... without gaps, with timestamps that
  do not decrease; the compressed series must give back what was pushed to it.
\<close>

theorem plot_series_in_sequence:
  fixes push :: "'d pusher"
  assumes "lossless push new read"
    and "\<forall>a. in_sequence (ss a) \<and> mset (filter (\<lambda>r. Attack r = a) rs) = mset (ss a)"
  shows "\<exists>p. plot_add_all push new (new_plot opts) rs = (p, None) \<and>
    (\<forall>a. case map_of (p_series p) a of
       None \<Rightarrow> ss a = []
     | Some s \<Rightarrow> ss a \<noteq> [] \<and>
         (\<forall>l. map_option (\<lambda>ts. (read (ts_data ts), ts_len ts)) (map_of (ls_series s) l) =
           series_spec (the (p_label (new_plot opts :: 'd plot))) (ss a) l))"
  by (rule plot_add_all_in_sequence [OF assms])

definition plotted_result :: "string \<Rightarrow> nat \<Rightarrow> time \<Rightarrow> result" where
  "plotted_result a i t = zero_result\<lparr>Attack := a, Seq := of_nat i, Timestamp := t\<rparr>"

theorem plot_series_in_sequence_witness:
  "\<exists>p. plot_add_all (\<lambda>d t v. d @ [(t, v)]) [] (new_plot [])
    [plotted_result ''a'' 1 5, plotted_result ''b'' 0 7, plotted_result ''a'' 0 3] = (p, None)"
proof -
  let ?r = "plotted_result ''a'' 1 5" and ?s = "plotted_result ''b'' 0 7" and ?t = "plotted_result ''a'' 0 3"
  define ss where "ss = (\<lambda>a. if a = ''a'' then [?t, ?r] else if a = ''b'' then [?s] else [])"
  have "lossless (\<lambda>d t v. d @ [(t, v)]) [] (\<lambda>d. (d, None))" by (simp add: lossless_def)
  note low = this
  have "\<forall>a. in_sequence (ss a) \<and> mset (filter (\<lambda>r. Attack r = a) [?r, ?s, ?t]) = mset (ss a)"
    by (auto simp: ss_def in_sequence_def plotted_result_def zero_result_def)
  from plot_series_in_sequence [OF low this, of "[]"] show ?thesis by blast
qed


definition demo_series :: "(u64 \<times> float64) list time_series" where
  "demo_series = \<lparr>ts_attack = ''a'', ts_label = ''OK'', ts_prev = 9, ts_data = [(2, Fin 5), (9, Fin 3)], ts_len = 2\<rparr>"

definition demo_plot :: "(u64 \<times> float64) list plot" where
  "demo_plot = new_plot [Title ''t'']\<lparr>p_series := [(''a'', new_labeled_series\<lparr>ls_series := [(''OK'', demo_series)]\<rparr>)]\<rparr>"


text \<open>
  C25. Downsampling a series of up to \<open>2\<^sup>2\<^sup>2\<close> points. With a threshold of 0 or of at least the number
  of points all points are kept; a threshold below 3 is an error; otherwise exactly as many points
  as the threshold says are kept, in order, the first and the last among them. In particular no
  bucket is ever empty, although the bucket boundaries are computed in floating point.
\<close>

theorem downsample_keeps_shape:
  fixes xs :: "(u64 \<times> float64) list" and threshold :: int
  assumes "int (length xs) \<le> 2 ^ 22"
  defines "run \<equiv> snd (downsample ts_iter (int (length xs)) threshold (xs, None))"
  shows "if threshold = 0 \<or> int (length xs) \<le> threshold then run = Inr (map ts_point xs)
    else if threshold < 3 then run = Inl (Failed ''lttb: min threshold is 3'')
    else \<exists>ps. run = Inr ps \<and> subseq ps (map ts_point xs) \<and> int (length ps) = threshold \<and>
      hd ps = hd (map ts_point xs) \<and> last ps = last (map ts_point xs)"
proof -
  have all: "run = Inr (map ts_point xs)" if "threshold = 0 \<or> int (length xs) \<le> threshold"
    using series.downsample_all [of "(xs, None)" threshold] that by (auto simp: run_def)
  have less: "\<exists>ps. run = Inr ps \<and> subseq ps (map ts_point xs) \<and> int (length ps) = threshold \<and>
      hd ps = hd (map ts_point xs) \<and> last ps = last (map ts_point xs)"
    if "3 \<le> threshold" "threshold < int (length xs)"
    using series.downsample_shape [of "(xs, None)" threshold] that assms(1) by (auto simp: run_def)
  show ?thesis using all less by (auto simp: run_def downsample_def)
qed

theorem downsample_keeps_shape_witness:
  "\<exists>ps. snd (downsample ts_iter 4 3 ([(0, Fin 1), (1, Fin 5), (2, Fin 2), (3, Fin 4)], None)) = Inr ps \<and> length ps = 3"
proof -
  let ?xs = "[(0, Fin 1), (1, Fin 5), (2, Fin 2), (3, Fin 4)] :: (u64 \<times> float64) list"
  have "int (length ?xs) \<le> 2 ^ 22" by simp
  from downsample_keeps_shape [OF this, of 3] show ?thesis by auto
qed

end
