(* ===== verification/Commands.thy ===== *)
theory Commands
  imports Flags Reporters Plots
begin

text \<open>
  The commands: opening inputs (\<open>file.go\<close>), \<open>vegeta report\<close>, \<open>vegeta encode\<close>, \<open>vegeta plot\<close> and
  \<open>vegeta dump\<close>. The operating system (files, signals, the ticker) and the codecs are
  arguments. A run of a \<open>select\<close> loop is driven by the list of the cases it takes; it is \<open>None\<close>
  while the loop has not ended.
\<close>

section \<open>Files\<close>

datatype handle = Stdin | Stdout | OsFile string bool

definition open_file :: "(string \<Rightarrow> bool \<Rightarrow> string option) \<Rightarrow> string \<Rightarrow> bool \<Rightarrow> string + handle" where
  "open_file os name create =
    (if name = ''stdin'' then Inr Stdin
     else if name = ''stdout'' then Inr Stdout
     else case os name create of Some e \<Rightarrow> Inl e | None \<Rightarrow> Inr (OsFile name create))"

datatype cmd_error =
    Panic panic
  | OpenFailed string
  | CannotDetect string
  | DecodeFailed decode_error
  | WriteFailed string
  | BadReportType string
  | PlotDeprecated
  | BadBuckets string
  | UnknownEncoding string
  | PlotFailed failure
  | DumpDeprecated

text \<open>\<open>decoder(files)\<close>: the decoders and the files to close, also on an error.\<close>

fun open_decoders :: "(string \<Rightarrow> string + 'f) \<Rightarrow> ('f \<Rightarrow> 'dec option) \<Rightarrow> string list \<Rightarrow> 'dec list \<Rightarrow> 'f list \<Rightarrow>
    (cmd_error + 'dec list) \<times> 'f list" where
  "open_decoders open_in detect [] decs closer = (Inr decs, closer)"
| "open_decoders open_in detect (f # fs) decs closer =
    (case open_in f of
       Inl e \<Rightarrow> (Inl (OpenFailed e), closer)
     | Inr rc \<Rightarrow>
         (case detect rc of
            None \<Rightarrow> (Inl (CannotDetect f), closer)
          | Some dec \<Rightarrow> open_decoders open_in detect fs (decs @ [dec]) (closer @ [rc])))"

definition multi_close :: "('f \<Rightarrow> string option) \<Rightarrow> 'f list \<Rightarrow> string option" where
  "multi_close close mc =
    (let errs = List.map_filter close mc in if errs = [] then None else Some (join ''; '' errs))"

text \<open>The files of a command line, and what \<open>encode\<close> and \<open>plotRun\<close> open before their loops.\<close>

definition input_files :: "string list \<Rightarrow> string list" where
  "input_files files = (if files = [] then [''stdin''] else files)"

definition open_inputs_output :: "(string \<Rightarrow> string + 'f) \<Rightarrow> ('f \<Rightarrow> 'dec option) \<Rightarrow> (string \<Rightarrow> string + 'w) \<Rightarrow>
    string list \<Rightarrow> string \<Rightarrow> cmd_error + 'dec list \<times> 'w" where
  "open_inputs_output open_in detect create files output =
    go_bind (fst (open_decoders open_in detect files [] [])) (\<lambda>decs.
      case create output of Inl e \<Rightarrow> Inl (OpenFailed e) | Inr out \<Rightarrow> Inr (decs, out))"

section \<open>vegeta report\<close>

datatype report_kind = TextReport | JSONReport "duration list option" | HDRReport | HistReport "duration list"

definition select_report :: "string \<Rightarrow> string \<Rightarrow> cmd_error + report_kind" where
  "select_report typ bucketsStr =
    (if typ = ''plot'' then Inl PlotDeprecated
     else if typ = ''text'' then Inr TextReport
     else if typ = ''json'' then
       (if bucketsStr \<noteq> [] then
          (case unmarshal_buckets [] bucketsStr of Inl e \<Rightarrow> Inl (BadBuckets e) | Inr bs \<Rightarrow> Inr (JSONReport (Some bs)))
        else Inr (JSONReport None))
     else if typ = ''hdrplot'' then Inr HDRReport
     else if has_prefix typ ''hist'' then
       (if bucketsStr = [] \<and> length typ < 6 then Inl (BadBuckets (drop 4 typ))
        else case unmarshal_buckets [] (if bucketsStr = [] then drop 4 typ else bucketsStr) of
          Inl e \<Rightarrow> Inl (BadBuckets e)
        | Inr bs \<Rightarrow> Inr (HistReport bs))
     else Inl (BadReportType typ))"

datatype choice = Interrupted | TickerFired | Ready

text \<open>\<open>writeReport\<close>: close the report if it can be closed, then write it.\<close>

definition write_report :: "('m \<Rightarrow> 'm) option \<Rightarrow> ('m \<Rightarrow> 'w \<Rightarrow> 'w reported) \<Rightarrow> 'm \<Rightarrow> 'w \<Rightarrow> 'm \<times> 'w \<times> cmd_error option" where
  "write_report close report m w =
    (let m' = (case close of Some f \<Rightarrow> f m | None \<Rightarrow> m) in
     case report m' w of
       (w', Inl p) \<Rightarrow> (m', w', Some (Panic p))
     | (w', Inr None) \<Rightarrow> (m', w', None)
     | (w', Inr (Some e)) \<Rightarrow> (m', w', Some (WriteFailed e)))"

fun report_loop :: "('m \<Rightarrow> 'm) option \<Rightarrow> ('m \<Rightarrow> 'w \<Rightarrow> 'w reported) \<Rightarrow> ('w \<Rightarrow> 'w \<times> string option) \<Rightarrow> 's decoder \<Rightarrow>
    ('m \<Rightarrow> result \<Rightarrow> 'm go) \<Rightarrow> choice list \<Rightarrow> 's \<Rightarrow> 'm \<Rightarrow> 'w \<Rightarrow> ('m \<times> 'w \<times> cmd_error option) option" where
  "report_loop close report clear dec add [] s m w = None"
| "report_loop close report clear dec add (Interrupted # cs) s m w = Some (write_report close report m w)"
| "report_loop close report clear dec add (TickerFired # cs) s m w =
    (case clear w of
       (w', Some e) \<Rightarrow> Some (m, w', Some (WriteFailed e))
     | (w', None) \<Rightarrow>
         (case write_report close report m w' of
            (m', w'', Some e) \<Rightarrow> Some (m', w'', Some e)
          | (m', w'', None) \<Rightarrow> report_loop close report clear dec add cs s m' w''))"
| "report_loop close report clear dec add (Ready # cs) s m w =
    (case dec s zero_result of
       (s', r, Some e) \<Rightarrow>
         if e = EOF then Some (write_report close report m w) else Some (m, w, Some (DecodeFailed e))
     | (s', r, None) \<Rightarrow>
         (case add m r of
            Inl p \<Rightarrow> Some (m, w, Some (Panic p))
          | Inr m' \<Rightarrow> report_loop close report clear dec add cs s' m' w))"

text \<open>\<open>report(files, typ, ...)\<close> up to the loop; \<open>clear\<close> only clears a terminal.\<close>

definition report_setup :: "(string \<Rightarrow> string + 'f) \<Rightarrow> ('f \<Rightarrow> 'dec option) \<Rightarrow> (string \<Rightarrow> string + 'w) \<Rightarrow>
    string list \<Rightarrow> string \<Rightarrow> string \<Rightarrow> string \<Rightarrow> cmd_error + 'dec list \<times> 'w \<times> report_kind" where
  "report_setup open_in detect create files typ output bucketsStr =
    (if length typ < 4 then Inl (BadReportType typ)
     else go_bind (open_inputs_output open_in detect create files output) (\<lambda>(decs, out).
       go_bind (select_report typ bucketsStr) (\<lambda>kind. Inr (decs, out, kind))))"

definition clear_output :: "(handle \<Rightarrow> string option) \<Rightarrow> handle \<Rightarrow> string option" where
  "clear_output clear_screen out = (if out = Stdout then clear_screen out else None)"

section \<open>vegeta encode\<close>

datatype encoding = CSVEncoding | GobEncoding | JSONEncoding

definition select_encoder :: "string \<Rightarrow> cmd_error + encoding" where
  "select_encoder to =
    (if to = ''csv'' then Inr CSVEncoding else if to = ''gob'' then Inr GobEncoding
     else if to = ''json'' then Inr JSONEncoding else Inl (UnknownEncoding to))"

definition encode_setup :: "(string \<Rightarrow> string + 'f) \<Rightarrow> ('f \<Rightarrow> 'dec option) \<Rightarrow> (string \<Rightarrow> string + 'w) \<Rightarrow>
    string list \<Rightarrow> string \<Rightarrow> string \<Rightarrow> cmd_error + 'dec list \<times> 'w \<times> encoding" where
  "encode_setup open_in detect create files to output =
    go_bind (open_inputs_output open_in detect create files output) (\<lambda>(decs, out).
      go_bind (select_encoder to) (\<lambda>enc. Inr (decs, out, enc)))"

type_synonym 'w encoder = "'w \<Rightarrow> result \<Rightarrow> 'w \<times> string option"

fun encode_loop :: "'w encoder \<Rightarrow> 's decoder \<Rightarrow> choice list \<Rightarrow> 's \<Rightarrow> 'w \<Rightarrow> ('w \<times> cmd_error option) option" where
  "encode_loop enc dec [] s w = None"
| "encode_loop enc dec (c # cs) s w =
    (if c = Interrupted then Some (w, None)
     else case dec s zero_result of
       (s', r, Some e) \<Rightarrow> if e = EOF then Some (w, None) else Some (w, Some (DecodeFailed e))
     | (s', r, None) \<Rightarrow>
         (case enc w r of
            (w', Some e) \<Rightarrow> Some (w', Some (WriteFailed e))
          | (w', None) \<Rightarrow> encode_loop enc dec cs s' w'))"

section \<open>vegeta plot\<close>

fun plot_loop :: "'d pusher \<Rightarrow> 'd \<Rightarrow> 's decoder \<Rightarrow> choice list \<Rightarrow> 's \<Rightarrow> 'd plot \<Rightarrow> ('d plot \<times> cmd_error option) option" where
  "plot_loop push new dec [] s p = None"
| "plot_loop push new dec (c # cs) s p =
    (if c = Interrupted then Some (p, None)
     else case dec s zero_result of
       (s', r, Some e) \<Rightarrow> if e = EOF then Some (p, None) else Some (p, Some (DecodeFailed e))
     | (s', r, None) \<Rightarrow>
         (case plot_add push new p r of
            (p', Some e) \<Rightarrow> Some (p', Some (PlotFailed (Failed e)))
          | (p', None) \<Rightarrow> plot_loop push new dec cs s' p'))"

text \<open>\<open>plotRun\<close>: what it opens and the plot it starts with, then the loop, which it closes and writes.\<close>

definition plot_setup :: "(string \<Rightarrow> string + 'f) \<Rightarrow> ('f \<Rightarrow> 'dec option) \<Rightarrow> (string \<Rightarrow> string + 'w) \<Rightarrow>
    string list \<Rightarrow> int \<Rightarrow> string \<Rightarrow> string \<Rightarrow> cmd_error + 'dec list \<times> 'w \<times> 'd plot" where
  "plot_setup open_in detect create files threshold title output =
    go_bind (open_inputs_output open_in detect create files output) (\<lambda>(decs, out).
      Inr (decs, out, new_plot [Title title, Downsample threshold, Label error_labeler]))"

definition plot_run :: "'d pusher \<Rightarrow> 'd \<Rightarrow> ('d \<Rightarrow> 'd) \<Rightarrow> ('d plot \<Rightarrow> 'w \<Rightarrow> 'w \<times> i64 \<times> failure option) \<Rightarrow> 's decoder \<Rightarrow> choice list \<Rightarrow>
    's \<Rightarrow> 'd plot \<Rightarrow> 'w \<Rightarrow> ('w \<times> cmd_error option) option" where
  "plot_run push new end_series write_to dec cs s p w =
    (case plot_loop push new dec cs s p of
       None \<Rightarrow> None
     | Some (p, Some e) \<Rightarrow> Some (w, Some e)
     | Some (p, None) \<Rightarrow> (case write_to (plot_close end_series p) w of (w', n, err) \<Rightarrow> Some (w', map_option PlotFailed err)))"

definition dump_cmd :: "string list \<Rightarrow> cmd_error option" where
  "dump_cmd args = Some DumpDeprecated"

section \<open>Running a loop over a source\<close>

text \<open>What reading everything says of the first step of the decoder.\<close>

lemma decode_all_NilD: "decode_all dec s = Some ([], e) \<Longrightarrow> \<exists>s' r. dec s zero_result = (s', r, Some e)"
  by (subst (asm) decode_all.simps) (auto split: prod.splits option.splits simp: Option.bind_eq_Some_conv)

lemma decode_all_ConsD:
  "decode_all dec s = Some (r # rs, e) \<Longrightarrow> \<exists>s'. dec s zero_result = (s', r, None) \<and> decode_all dec s' = Some (rs, e)"
  by (subst (asm) decode_all.simps) (auto split: prod.splits option.splits simp: Option.bind_eq_Some_conv)

text \<open>A report's \<open>Add\<close> on one result after the other, until a panic.\<close>

fun add_all :: "('m \<Rightarrow> result \<Rightarrow> 'm go) \<Rightarrow> 'm \<Rightarrow> result list \<Rightarrow> 'm go" where
  "add_all add m [] = Inr m"
| "add_all add m (r # rs) = go_bind (add m r) (\<lambda>m'. add_all add m' rs)"

lemma metrics_add_all_eq: "metrics_add_all add m rs = add_all (metrics_add add) m rs"
  by (induction rs arbitrary: m) simp_all

lemma histogram_add_all_eq: "histogram_add_all h rs = add_all histogram_add h rs"
  by (induction rs arbitrary: h) simp_all

text \<open>The loops over a source that ends, not interrupted.\<close>

abbreviation whole :: "'a list \<Rightarrow> choice list" where
  "whole rs \<equiv> replicate (Suc (length rs)) Ready"

lemma encode_loop_all:
  "decode_all dec s = Some (rs, EOF) \<Longrightarrow> encode_all enc w rs = (w', None) \<Longrightarrow>
    encode_loop enc dec (whole rs) s w = Some (w', None)"
proof (induction rs arbitrary: s w)
  case Nil
  then show ?case by (auto dest: decode_all_NilD)
next
  case (Cons r rs)
  obtain s' where s': "dec s zero_result = (s', r, None)" "decode_all dec s' = Some (rs, EOF)"
    using decode_all_ConsD [OF Cons.prems(1)] by blast
  obtain w1 where w1: "enc w r = (w1, None)" "encode_all enc w1 rs = (w', None)"
    using Cons.prems(2) by (auto split: prod.splits option.splits)
  then show ?case using Cons.IH [OF s'(2) w1(2)] s'(1) by simp
qed

lemma encode_all_foldl:
  assumes "\<And>w r. snd (enc w r) = None"
  shows "encode_all enc w rs = (foldl (\<lambda>w r. fst (enc w r)) w rs, None)"
proof (induction rs arbitrary: w)
  case (Cons r rs)
  have "enc w r = (fst (enc w r), None)" using assms [of w r] by (metis prod.collapse)
  then show ?case using Cons.IH by (cases "enc w r") simp
qed simp

lemma plot_loop_all:
  "decode_all dec s = Some (rs, EOF) \<Longrightarrow> plot_add_all push new p rs = (p', None) \<Longrightarrow>
    plot_loop push new dec (whole rs) s p = Some (p', None)"
proof (induction rs arbitrary: s p)
  case Nil
  then show ?case by (auto dest: decode_all_NilD)
next
  case (Cons r rs)
  obtain s' where s': "dec s zero_result = (s', r, None)" "decode_all dec s' = Some (rs, EOF)"
    using decode_all_ConsD [OF Cons.prems(1)] by blast
  obtain p1 where p1: "plot_add push new p r = (p1, None)" "plot_add_all push new p1 rs = (p', None)"
    using Cons.prems(2) by (auto split: prod.splits option.splits)
  then show ?case using Cons.IH [OF s'(2) p1(2)] s'(1) by simp
qed

lemma report_loop_all:
  "decode_all dec s = Some (rs, EOF) \<Longrightarrow> add_all add m rs = Inr m' \<Longrightarrow>
    report_loop close report clear dec add (whole rs) s m w = Some (write_report close report m' w)"
proof (induction rs arbitrary: s m)
  case Nil
  then show ?case by (auto dest: decode_all_NilD)
next
  case (Cons r rs)
  obtain s' where s': "dec s zero_result = (s', r, None)" "decode_all dec s' = Some (rs, EOF)"
    using decode_all_ConsD [OF Cons.prems(1)] by blast
  obtain m1 where m1: "add m r = Inr m1" "add_all add m1 rs = Inr m'"
    using Cons.prems(2) by (auto simp: go_bind_Inr_iff)
  then show ?case using Cons.IH [OF s'(2) m1(2)] s'(1) by simp
qed

context result_source
begin

lemma encode_loop_yields:
  "yields s rs \<Longrightarrow> (\<And>w r. snd (enc w r) = None) \<Longrightarrow>
    encode_loop enc dec (whole rs) s w = Some (foldl (\<lambda>w r. fst (enc w r)) w rs, None)"
  by (rule encode_loop_all) (simp_all add: decode_all_yields encode_all_foldl)

lemma encode_loop_yields_all:
  "yields s rs \<Longrightarrow> encode_all enc w rs = (w', None) \<Longrightarrow> encode_loop enc dec (whole rs) s w = Some (w', None)"
  by (rule encode_loop_all) (simp add: decode_all_yields)

lemma plot_loop_yields:
  "yields s rs \<Longrightarrow> plot_add_all push new p rs = (p', None) \<Longrightarrow>
    plot_loop push new dec (whole rs) s p = Some (p', None)"
  by (rule plot_loop_all) (simp_all add: decode_all_yields)

lemma report_loop_yields:
  "yields s rs \<Longrightarrow> metrics_add_all add m rs = Inr m' \<Longrightarrow>
    report_loop close report clear dec (metrics_add add) (whole rs) s m w = Some (write_report close report m' w)"
  by (rule report_loop_all) (simp_all add: decode_all_yields flip: metrics_add_all_eq)

end

section \<open>Reports on the way\<close>

text \<open>
  What a report in between must not do: \<open>same n\<close> relates a report that was closed on the way to
  one that was not, while \<open>n\<close> more results may come.
\<close>

locale reported_on_the_way =
  fixes close :: "'m \<Rightarrow> 'm" and add :: "'m \<Rightarrow> result \<Rightarrow> 'm go"
    and same :: "nat \<Rightarrow> 'm \<Rightarrow> 'm \<Rightarrow> bool" and final :: "'m \<Rightarrow> 'm \<Rightarrow> bool"
  assumes same_close: "same n m m' \<Longrightarrow> same n (close m) m'"
    and same_add: "same (Suc n) m m' \<Longrightarrow> add m r = Inr m1 \<Longrightarrow> \<exists>m1'. add m' r = Inr m1' \<and> same n m1 m1'"
    and same_less: "same (Suc n) m m' \<Longrightarrow> same n m m'"
    and same_final: "same n m m' \<Longrightarrow> final (close m) (close m')"
begin

lemma ticks_change_nothing:
  assumes "report_loop (Some close) (\<lambda>m w. (w @ [m], Inr None)) (\<lambda>w. (w, None)) dec add cs s m w = Some (mf, ws, None)"
    and "same (length cs) m m'"
  shows "\<exists>mf'. report_loop (Some close) (\<lambda>m w. (w @ [m], Inr None)) (\<lambda>w. (w, None)) dec add
      (filter (\<lambda>c. c \<noteq> TickerFired) cs) s m' w' = Some (mf', w' @ [mf'], None) \<and> final mf mf'"
  using assms
proof (induction cs arbitrary: s m m' w)
  case (Cons c cs)
  show ?case
  proof (cases c)
    case Interrupted
    with Cons.prems show ?thesis using same_final by (auto simp: write_report_def Let_def)
  next
    case TickerFired
    with Cons.prems(1) have
      "report_loop (Some close) (\<lambda>m w. (w @ [m], Inr None)) (\<lambda>w. (w, None)) dec add cs s (close m) (w @ [close m]) =
        Some (mf, ws, None)"
      by (simp add: write_report_def Let_def)
    moreover have "same (length cs) (close m) m'" using Cons.prems(2) by (auto intro: same_close same_less)
    ultimately show ?thesis using Cons.IH TickerFired by simp
  next
    case Ready
    obtain s1 r e where d: "dec s zero_result = (s1, r, e)" by (metis prod_cases3)
    show ?thesis
    proof (cases e)
      case None
      obtain m1 where m1: "add m r = Inr m1"
        "report_loop (Some close) (\<lambda>m w. (w @ [m], Inr None)) (\<lambda>w. (w, None)) dec add cs s1 m1 w = Some (mf, ws, None)"
        using Cons.prems(1) Ready d None by (auto split: sum.splits)
      obtain m1' where m1': "add m' r = Inr m1'" "same (length cs) m1 m1'"
        using same_add [OF _ m1(1)] Cons.prems(2) by auto
      show ?thesis using Cons.IH [OF m1(2) m1'(2)] Ready d None m1'(1) by simp
    next
      case (Some x)
      with Cons.prems Ready d show ?thesis using same_final by (auto simp: write_report_def Let_def split: if_splits)
    qed
  qed
qed simp

end

text \<open>The metrics without the figures of \<open>Close\<close>, and without the estimated quantiles.\<close>

definition latency_core :: "'e \<Rightarrow> 'e latency_metrics \<Rightarrow> 'e latency_metrics" where
  "latency_core e l = l\<lparr>l_Mean := 0, l_P50 := 0, l_P90 := 0, l_P95 := 0, l_P99 := 0, l_estimator := e\<rparr>"

definition core :: "'e \<Rightarrow> 'e metrics \<Rightarrow> 'e metrics" where
  "core e m = m\<lparr>m_Latencies := latency_core e (m_Latencies m),
    m_BytesIn_Mean := Fin 0, m_BytesOut_Mean := Fin 0, m_Duration := 0, m_Wait := 0, m_Rate := Fin 0,
    m_Throughput := Fin 0, m_Success := Fin 0\<rparr>"

definition latency_figures :: "'e \<Rightarrow> 'e latency_metrics \<Rightarrow> 'e latency_metrics" where
  "latency_figures e l = l\<lparr>l_P50 := 0, l_P90 := 0, l_P95 := 0, l_P99 := 0, l_estimator := e\<rparr>"

definition but_quantiles :: "'e \<Rightarrow> 'e metrics \<Rightarrow> 'e metrics" where
  "but_quantiles e m = m\<lparr>m_Latencies := latency_figures e (m_Latencies m)\<rparr>"

lemma latency_core_close: "latency_core e (close_latencies get n l) = latency_core e l"
  by (cases l) (simp add: latency_core_def close_latencies_def latency_quantile_def Let_def split: prod.splits)

lemma core_close: "core e (metrics_close get m) = core e m"
  by (cases m) (simp add: core_def metrics_close_def latency_core_close Let_def)

lemma core_latency_add: "latency_core e (latency_add add (latency_core e l) d) = latency_core e (latency_add add l d)"
  by (cases l) (simp add: latency_core_def latency_add_def Let_def)

lemma core_add_times: "core e (metrics_add_times r m) = metrics_add_times r (core e m)"
  by (cases m) (simp add: core_def metrics_add_times_def Let_def)

lemma core_add_outcome: "core e (metrics_add_outcome r m) = metrics_add_outcome r (core e m)"
  by (cases m) (simp add: core_def metrics_add_outcome_def Let_def)

lemma core_count: "core e (metrics_count add m r) = core e (metrics_count add (core e m) r)"
  by (cases m) (simp add: metrics_count_def core_add_times core_add_outcome, simp add: core_def core_latency_add)

lemma core_histogram: "core e (m\<lparr>m_Histogram := h\<rparr>) = core e m\<lparr>m_Histogram := h\<rparr>"
  by (cases m) (simp add: core_def)

lemma core_fields: "m_Histogram (core e m) = m_Histogram m" "m_Requests (core e m) = m_Requests m"
  by (simp_all add: core_def)

lemma core_add:
  assumes "core e m = core e m'" and "metrics_add add m r = Inr m1"
  shows "\<exists>m1'. metrics_add add m' r = Inr m1' \<and> core e m1 = core e m1'"
proof -
  have h: "m_Histogram m = m_Histogram m'" using arg_cong [OF assms(1), of m_Histogram] by (simp add: core_fields)
  have c: "core e (metrics_count add m r) = core e (metrics_count add m' r)"
    using assms(1) core_count by metis
  show ?thesis
  proof (cases "m_Histogram m")
    case None
    then show ?thesis using assms(2) h c by (simp add: metrics_add_def Let_def)
  next
    case (Some x)
    then show ?thesis using assms(2) h c by (auto simp: metrics_add_def Let_def go_bind_Inr_iff core_histogram)
  qed
qed

lemma add_requests:
  assumes "metrics_add add m r = Inr m'"
  shows "m_Requests m' = m_Requests m + 1"
proof -
  have "m_Requests (metrics_count add m r\<lparr>m_Histogram := h\<rparr>) = m_Requests m + 1" for h
    by (simp add: metrics_count_def)
  then show ?thesis using metrics_add_Inr [OF assms] by metis
qed

lemma latency_figures_core:
  "latency_figures e (close_latencies get n (latency_core e l)) = latency_figures e (close_latencies get n l)"
  by (cases l)
    (simp add: latency_core_def latency_figures_def close_latencies_def latency_quantile_def Let_def split: prod.splits)

lemma close_of_core:
  assumes "m_Requests m \<noteq> 0"
  shows "but_quantiles e (metrics_close get m) = but_quantiles e (metrics_close get (core e m))"
  using assms
  by (cases m) (simp add: core_def but_quantiles_def metrics_close_def latency_figures_core Let_def)

lemma close_core:
  assumes "core e m = core e m'" and "m_Requests m \<noteq> 0"
  shows "but_quantiles e (metrics_close get m) = but_quantiles e (metrics_close get m')"
proof -
  have "m_Requests m' \<noteq> 0" using assms by (metis core_fields(2))
  then show ?thesis using close_of_core assms by metis
qed

lemma close_empty: "m_Requests m = 0 \<Longrightarrow> metrics_close get m = m"
  by (simp add: metrics_close_def)

definition same_counts :: "'e \<Rightarrow> nat \<Rightarrow> 'e metrics \<Rightarrow> 'e metrics \<Rightarrow> bool" where
  "same_counts e n m m' \<longleftrightarrow>
    core e m = core e m' \<and> unat (m_Requests m) + n < 2 ^ 64 \<and> (m_Requests m = 0 \<longrightarrow> m = m')"

interpretation ticking: reported_on_the_way "metrics_close get" "metrics_add add" "same_counts e"
    "\<lambda>m m'. but_quantiles e m = but_quantiles e m'" for get :: "'e query" and add and e :: 'e
proof
  fix n and m m' m1 :: "'e metrics" and r
  show "same_counts e n (metrics_close get m) m'" if "same_counts e n m m'"
    using that by (cases "m_Requests m = 0") (simp_all add: same_counts_def core_close close_empty)
  show "same_counts e n m m'" if "same_counts e (Suc n) m m'" using that by (simp add: same_counts_def)
  show "but_quantiles e (metrics_close get m) = but_quantiles e (metrics_close get m')" if "same_counts e n m m'"
  proof (cases "m_Requests m = 0")
    case True
    then show ?thesis using that by (simp add: same_counts_def)
  next
    case False
    then show ?thesis using that close_core [of e m m' get] by (simp add: same_counts_def)
  qed
  show "\<exists>m1'. metrics_add add m' r = Inr m1' \<and> same_counts e n m1 m1'"
    if s: "same_counts e (Suc n) m m'" and a: "metrics_add add m r = Inr m1"
  proof -
    obtain m1' where m1': "metrics_add add m' r = Inr m1'" "core e m1 = core e m1'"
      using core_add [OF _ a, of e m'] s unfolding same_counts_def by blast
    have "unat (m_Requests m) + 1 < 2 ^ 64" using s by (simp add: same_counts_def)
    then have "unat (m_Requests m + 1) = unat (m_Requests m) + 1" by (simp add: unat_word_ariths)
    then have "unat (m_Requests m1) = unat (m_Requests m) + 1" using add_requests [OF a] by simp
    moreover from this have "m_Requests m1 \<noteq> 0" by auto
    ultimately show ?thesis using m1' s by (simp add: same_counts_def)
  qed
qed

lemma close_histogram: "m_Histogram (metrics_close get m) = m_Histogram m"
  by (simp add: metrics_close_def Let_def)

lemma last_report:
  "report_loop (Some close) (\<lambda>m w. (w @ [m], Inr None)) clear dec add cs s m w = Some (m', w', None) \<Longrightarrow> last w' = m'"
proof (induction cs arbitrary: s m w)
  case (Cons c cs)
  then show ?case
    by (cases c) (auto simp: write_report_def Let_def split: prod.splits option.splits sum.splits if_splits)
qed simp

section \<open>Properties\<close>

text \<open>
  C22. Reports on the way are harmless: a run of \<open>vegeta report -every\<close> that ends well, wherever
  its ticks fall, ends with the report the same run without ticks writes, but for the estimated
  quantiles; the figures \<open>Close\<close> derives for a report in between never reach the final one. Both
  times the last report written is that of the closed metrics.
\<close>

theorem report_ticks_harmless:
  fixes get :: "'e query" and new :: 'e and dec :: "'s decoder" and add and h :: "histogram option"
  defines "run \<equiv> \<lambda>cs s w. report_loop (Some (metrics_close get)) (\<lambda>m w. (w @ [m], Inr None)) (\<lambda>w. (w, None)) dec
    (metrics_add add) cs s (new_metrics new h) w"
  assumes "run cs s [] = Some (m, reports, None)" and "length cs < 2 ^ 64"
  shows "\<exists>m'. run (filter (\<lambda>c. c \<noteq> TickerFired) cs) s [] = Some (m', [m'], None) \<and>
    but_quantiles new m' = but_quantiles new m \<and> last reports = m"
proof -
  have "same_counts new (length cs) (new_metrics new h) (new_metrics new h)"
    using assms(3) by (simp add: same_counts_def new_metrics_def)
  from ticking.ticks_change_nothing [OF assms(2) [unfolded run_def] this, of "[]"]
  show ?thesis using last_report [OF assms(2) [unfolded run_def]] by (auto simp: run_def)
qed

definition list_decoder :: "result list decoder" where
  "list_decoder rs r = (case rs of [] \<Rightarrow> ([], r, Some EOF) | x # xs \<Rightarrow> (xs, x, None))"

theorem report_ticks_harmless_witness:
  "\<exists>m. report_loop (Some (metrics_close (\<lambda>e q. (q, e)))) (\<lambda>m w. (w @ [m], Inr None)) (\<lambda>w. (w, None)) list_decoder
    (metrics_add (\<lambda>e x. x # e)) [Ready, Ready, Ready] [zero_result, zero_result\<lparr>Code := 200\<rparr>] (new_metrics [] None) [] =
      Some (m, [m], None)"
proof -
  let ?cs = "[Ready, TickerFired, Ready, Ready]"
  obtain m reports where "report_loop (Some (metrics_close (\<lambda>e q. (q, e)))) (\<lambda>m w. (w @ [m], Inr None))
      (\<lambda>w. (w, None)) list_decoder (metrics_add (\<lambda>e x. x # e)) ?cs [zero_result, zero_result\<lparr>Code := 200\<rparr>]
      (new_metrics [] None) [] = Some (m, reports, None)"
    by (simp add: list_decoder_def write_report_def Let_def metrics_add_def new_metrics_def close_histogram)
  moreover have "length ?cs < 2 ^ 64" by simp
  ultimately show ?thesis using report_ticks_harmless [where cs = ?cs] by fastforce
qed

end
