(* ===== verification/Targets.thy ===== *)
theory Targets
  imports Http_Types
begin

text \<open>
  \<open>lib/targets.go\<close>: the targeters and \<open>ReadAllTargets\<close>. A targeter is a state passing
  function from its state (a scanner, a reader, a counter) to the new state and an error or
  a target. \<open>targeter_contract\<close> is what \<open>ReadAllTargets\<close> needs of a targeter to return.

  Parameters, for code outside the repository: \<open>parse_uri\<close> (\<open>url.ParseRequestURI\<close>: its
  error, if any), \<open>read_file\<close> (\<open>os.ReadFile\<close>), \<open>decode\<close> (the JSON decoding of one
  line, which theory \<open>Json_Codecs\<close> models) and \<open>new_request\<close> (\<open>http.NewRequest\<close>).
\<close>

section \<open>Errors\<close>

datatype target_error =
    ErrNoTargets
  | ErrNilTarget
  | ErrNoMethod
  | ErrNoURL
  | ErrText string

fun target_error_text :: "target_error \<Rightarrow> string" where
  "target_error_text ErrNoTargets = ''no targets to attack''"
| "target_error_text ErrNilTarget = ''nil target''"
| "target_error_text ErrNoMethod = ''target: required method is missing''"
| "target_error_text ErrNoURL = ''target: required url is missing''"
| "target_error_text (ErrText s) = s"

type_synonym 's targeter = "'s \<Rightarrow> 's \<times> (target_error + target)"

section \<open>Requests\<close>

record http_request =
  rq_Method :: string
  rq_URL :: string
  rq_Body :: string
  rq_Header :: header
  rq_Host :: string
  rq_ContentLength :: i64
  rq_TransferEncoding :: "string list"

text \<open>\<open>Target.Request\<close>: the header values are copied over those \<open>http.NewRequest\<close> set, and
  a \<open>Host\<close> header becomes the request's host. An empty body is a nil reader.\<close>

fun copy_headers :: "header \<Rightarrow> header \<Rightarrow> header" where
  "copy_headers dst [] = dst"
| "copy_headers dst ((k, vs) # src) = copy_headers (AList.update k vs dst) src"

definition header_first :: "header \<Rightarrow> string \<Rightarrow> string" where
  "header_first h k = (case header_get h k of [] \<Rightarrow> [] | v # _ \<Rightarrow> v)"

definition target_request ::
    "(string \<Rightarrow> string \<Rightarrow> string option \<Rightarrow> string + http_request) \<Rightarrow> target \<Rightarrow> string + http_request" where
  "target_request new_request t =
    go_bind (new_request (t_Method t) (t_URL t) (if t_Body t = [] then None else Some (t_Body t)))
      (\<lambda>req.
        let hdr = copy_headers (rq_Header req) (target_header t);
            req1 = req\<lparr>rq_Header := hdr\<rparr>;
            host = header_first hdr ''Host'' in
        Inr (if host \<noteq> [] then req1\<lparr>rq_Host := host\<rparr> else req1))"

lemma header_get_update: "header_get (AList.update k vs h) k' = (if k' = k then vs else header_get h k')"
  by (simp add: header_get_def update_conv)

lemma header_get_copy:
  "wf_header src \<Longrightarrow> header_get (copy_headers dst src) k =
    (if k \<in> set (map fst src) then header_get src k else header_get dst k)"
proof (induction dst src rule: copy_headers.induct)
  case (2 dst k' vs src)
  then have "k' \<notin> set (map fst src)" and "wf_header src" by (simp_all add: wf_header_def)
  with 2 show ?case by (auto simp: header_get_Cons header_get_update)
qed simp

section \<open>The static targeter\<close>

text \<open>\<open>NewStaticTargeter\<close> keeps a counter, incremented atomically before each use, and panics
  on an empty list of targets or once the counter has wrapped. The argument is the pointer
  to fill, \<open>None\<close> for nil.\<close>

definition static_targeter ::
    "target list \<Rightarrow> i64 \<Rightarrow> target option \<Rightarrow> (i64 \<times> (target_error + target)) go" where
  "static_targeter tgts i arg =
    (case arg of
       None \<Rightarrow> Inr (i, Inl ErrNilTarget)
     | Some _ \<Rightarrow>
         let i' = i + 1 in
         go_bind (i64_mod i' (word_of_nat (length tgts))) (\<lambda>k.
           if sint k < 0 \<or> int (length tgts) \<le> sint k then Inl IndexOutOfRange
           else Inr (i', Inr (tgts ! nat (sint k)))))"

text \<open>The targets of \<open>n\<close> calls in a row.\<close>

fun static_calls :: "target list \<Rightarrow> i64 \<Rightarrow> nat \<Rightarrow> target list go" where
  "static_calls tgts i 0 = Inr []"
| "static_calls tgts i (Suc n) =
    go_bind (static_targeter tgts i (Some zero_target)) (\<lambda>(i', r).
      go_bind (static_calls tgts i' n) (\<lambda>ts.
        case r of Inl _ \<Rightarrow> Inr ts | Inr t \<Rightarrow> Inr (t # ts)))"

lemma static_targeter_step:
  assumes "tgts \<noteq> []" and "length tgts < 2 ^ 63" and "n < 2 ^ 63" and "i + 1 = word_of_nat n"
  shows "static_targeter tgts i (Some t) = Inr (word_of_nat n, Inr (tgts ! (n mod length tgts)))"
proof -
  let ?l = "word_of_nat (length tgts) :: i64"
  have n: "sint (word_of_nat n :: i64) = int n"
    using sint_word_of_int_i64 [of "int n"] assms(3) by simp
  have l: "sint ?l = int (length tgts)"
    using sint_word_of_int_i64 [of "int (length tgts)"] assms(2) by simp
  have "?l \<noteq> 0" using l assms(1) by (metis length_0_conv of_nat_eq_0_iff i64_sint_eq_0)
  moreover have "int n smod int (length tgts) = int (n mod length tgts)"
    using assms(1) by (simp add: signed_modulo_int_def sgn_if zmod_int)
  moreover have m: "n mod length tgts < length tgts" using assms(1) by simp
  moreover have "sint (word_of_nat (n mod length tgts) :: i64) = int (n mod length tgts)"
    using sint_word_of_int_i64 [of "int (n mod length tgts)"] m assms(2) by simp
  ultimately show ?thesis
    using n l assms(4) by (simp add: static_targeter_def i64_mod_def Let_def)
qed

lemma static_calls_from:
  assumes "tgts \<noteq> []" and "length tgts < 2 ^ 63" and "k + n \<le> 2 ^ 63" and "i + 1 = word_of_nat k"
  shows "static_calls tgts i n = Inr (map (\<lambda>j. tgts ! (j mod length tgts)) [k..<k + n])"
  using assms(3,4)
proof (induction n arbitrary: i k)
  case (Suc n)
  have "static_targeter tgts i (Some zero_target) = Inr (word_of_nat k, Inr (tgts ! (k mod length tgts)))"
    by (rule static_targeter_step) (use assms(1,2) Suc.prems in simp_all)
  moreover have "static_calls tgts (word_of_nat k) n =
      Inr (map (\<lambda>j. tgts ! (j mod length tgts)) [Suc k..<Suc k + n])"
    by (rule Suc.IH) (use Suc.prems in \<open>simp_all add: add.commute\<close>)
  ultimately show ?case by (simp add: upt_rec)
qed simp

section \<open>ReadAllTargets\<close>

text \<open>The loop need not end (a static targeter never runs dry); \<open>None\<close> is not returning.\<close>

partial_function (option) read_all_loop ::
    "'s targeter \<Rightarrow> 's \<Rightarrow> target list \<Rightarrow> (target_error + target list) option" where
  "read_all_loop t s tgts =
    (case t s of (s', r) \<Rightarrow>
      (case r of
         Inl e \<Rightarrow>
           if e = ErrNoTargets then Some (if tgts = [] then Inl ErrNoTargets else Inr tgts)
           else Some (Inl e)
       | Inr tgt \<Rightarrow> read_all_loop t s' (tgts @ [tgt])))"

definition read_all_targets :: "'s targeter \<Rightarrow> 's \<Rightarrow> (target_error + target list) option" where
  "read_all_targets t s = read_all_loop t s []"

text \<open>What a finite source hands out: a target only ever comes with less input left.\<close>

locale targeter_contract =
  fixes next_target :: "'s targeter"
    and input_left :: "'s \<Rightarrow> nat"
  assumes consumes: "next_target s = (s', Inr t) \<Longrightarrow> input_left s' < input_left s"
begin

lemma read_all_loop_returns: "\<exists>r. read_all_loop next_target s acc = Some r"
proof (induction "input_left s" arbitrary: s acc rule: less_induct)
  case less
  obtain s' r where n: "next_target s = (s', r)" by force
  show ?case
  proof (cases r)
    case (Inl e)
    with n show ?thesis by (subst read_all_loop.simps) simp
  next
    case (Inr t)
    with n less consumes [of s s' t] show ?thesis by (subst read_all_loop.simps) simp
  qed
qed

lemma read_all_returns: "\<exists>r. read_all_targets next_target s = Some r"
  by (simp add: read_all_targets_def read_all_loop_returns)

end

section \<open>The peeking scanner\<close>

text \<open>
  \<open>peekingScanner\<close> over a \<open>bufio.Scanner\<close> that splits its input into lines (without the line
  end and one carriage return before it). \<open>s_text\<close> is the scanner's current token, \<open>s_done\<close>
  says that a scan has found no further line, after which \<open>Err\<close> reports \<open>s_err\<close> (a read
  error or an over-long line; \<open>None\<close> at the end of the input).
\<close>

record scanner =
  s_lines :: "string list"
  s_err :: "string option"
  s_text :: string
  s_done :: bool
  s_peeked :: string

definition new_scanner :: "string list \<Rightarrow> string option \<Rightarrow> scanner" where
  "new_scanner ls err = \<lparr>s_lines = ls, s_err = err, s_text = [], s_done = False, s_peeked = []\<rparr>"

definition src_scan :: "scanner \<Rightarrow> bool \<times> scanner" where
  "src_scan s =
    (case s_lines s of
       [] \<Rightarrow> (False, s\<lparr>s_text := [], s_done := True\<rparr>)
     | l # ls \<Rightarrow> (True, s\<lparr>s_lines := ls, s_text := l\<rparr>))"

definition scan_err :: "scanner \<Rightarrow> string option" where
  "scan_err s = (if s_done s then s_err s else None)"

definition peek :: "scanner \<Rightarrow> string \<times> scanner" where
  "peek s =
    (case src_scan s of (ok, s') \<Rightarrow>
      if \<not> ok then ([], s') else (s_text s', s'\<lparr>s_peeked := s_text s'\<rparr>))"

definition scan :: "scanner \<Rightarrow> bool \<times> scanner" where
  "scan s = (if s_peeked s = [] then src_scan s else (True, s))"

definition scan_text :: "scanner \<Rightarrow> string \<times> scanner" where
  "scan_text s = (if s_peeked s = [] then (s_text s, s) else (s_peeked s, s\<lparr>s_peeked := []\<rparr>))"

text \<open>The lines still to be handed out, a peeked one included. Every use of the scanner in the
  targeter scans and then takes the text at once.\<close>

definition pending :: "scanner \<Rightarrow> string list" where
  "pending s = (if s_peeked s = [] then s_lines s else s_peeked s # s_lines s)"

definition next_line :: "scanner \<Rightarrow> string option \<times> scanner" where
  "next_line s =
    (case scan s of (ok, s') \<Rightarrow>
      if ok then (case scan_text s' of (t, s'') \<Rightarrow> (Some t, s'')) else (None, s'))"

lemma next_line_pending:
  "next_line s =
    (case pending s of
       [] \<Rightarrow> (None, s\<lparr>s_text := [], s_done := True\<rparr>)
     | l # ls \<Rightarrow> (Some l, s\<lparr>s_lines := ls, s_text := (if s_peeked s = [] then l else s_text s), s_peeked := []\<rparr>))"
  by (cases s) (auto simp: next_line_def scan_def scan_text_def src_scan_def pending_def split: list.splits)

lemma next_line_Some: "next_line s = (Some l, s') \<Longrightarrow> pending s = l # pending s' \<and> s_peeked s' = []"
  by (auto simp: next_line_pending pending_def split: list.splits if_splits)

lemma next_line_None: "next_line s = (None, s') \<Longrightarrow> pending s = [] \<and> pending s' = []"
  by (auto simp: next_line_pending pending_def split: list.splits if_splits)

lemma peek_pending: "s_peeked s = [] \<Longrightarrow> peek s = (t, s') \<Longrightarrow>
    t = (case s_lines s of [] \<Rightarrow> [] | l # _ \<Rightarrow> l) \<and>
    pending s' = (case s_lines s of [] \<Rightarrow> [] | l # ls \<Rightarrow> if l = [] then ls else l # ls)"
  by (cases s) (auto simp: peek_def src_scan_def pending_def split: list.splits)

section \<open>The HTTP targeter\<close>

text \<open>\<open>startsWithHTTPMethod\<close>: the regular expression \<open>^[A-Z]+\s\<close>.\<close>

definition is_upper :: "char \<Rightarrow> bool" where
  "is_upper c \<longleftrightarrow> (let k = of_char c :: nat in 65 \<le> k \<and> k \<le> 90)"

definition starts_with_method :: "string \<Rightarrow> bool" where
  "starts_with_method l =
    (takeWhile is_upper l \<noteq> [] \<and>
     (case dropWhile is_upper l of
        [] \<Rightarrow> False
      | c # _ \<Rightarrow> c \<in> {CHR 0x20, CHR 0x09, CHR 0x0A, CHR 0x0C, CHR 0x0D}))"

text \<open>Skip empty lines and comments up to the request line.\<close>

function skip_blank :: "scanner \<Rightarrow> string option \<times> scanner" where
  "skip_blank s =
    (case next_line s of
       (None, s') \<Rightarrow> (None, s')
     | (Some t, s') \<Rightarrow>
         let line = trim_space t in
         if line \<noteq> [] \<and> hd line \<noteq> CHR ''#'' then (Some line, s') else skip_blank s')"
  by pat_completeness auto
termination
  by (relation "measure (\<lambda>s. length (pending s))") (auto dest!: next_line_Some [OF sym])

declare skip_blank.simps [simp del]

text \<open>The lines after the request line: comments, headers, and at most one body file. The
  value is the target with what was read so far when the loop ends.\<close>

function read_headers ::
    "(string \<Rightarrow> string + string) \<Rightarrow> scanner \<Rightarrow> target \<Rightarrow> scanner \<times> (target_error + target)" where
  "read_headers read_file s tgt =
    (case next_line s of
       (None, s') \<Rightarrow> (s', Inr tgt)
     | (Some t, s') \<Rightarrow>
         let line = trim_space t in
         if line = [] then (s', Inr tgt)
         else if has_prefix line ''#'' then read_headers read_file s' tgt
         else if has_prefix line ''@'' then
           (case read_file (tl line) of
              Inl e \<Rightarrow> (s', Inl (ErrText (''bad body: '' @ e)))
            | Inr body \<Rightarrow> (s', Inr (tgt\<lparr>t_Body := body\<rparr>)))
         else
           (case map trim_space (split_n2 CHR '':'' line) of
              [k, v] \<Rightarrow>
                if k = [] \<or> v = [] then (s', Inl (ErrText (''bad header: '' @ line)))
                else read_headers read_file s'
                  (tgt\<lparr>t_Header := Some (header_append k [v] (target_header tgt))\<rparr>)
            | _ \<Rightarrow> (s', Inl (ErrText (''bad header: '' @ line)))))"
  by pat_completeness auto
termination
  by (relation "measure (\<lambda>(rf, s, tgt). length (pending s))") (auto dest!: next_line_Some [OF sym])

declare read_headers.simps [simp del]

text \<open>\<open>NewHTTPTargeter\<close>'s closure. \<open>body\<close> and \<open>hdr\<close> are the defaults given to it; the values
  of \<open>hdr\<close> are put into each target's map.\<close>

definition http_targeter ::
    "(string \<Rightarrow> string option) \<Rightarrow> (string \<Rightarrow> string + string) \<Rightarrow> string \<Rightarrow> header \<Rightarrow>
     target option \<Rightarrow> scanner targeter" where
  "http_targeter parse_uri read_file body hdr arg s =
    (if arg = None then (s, Inl ErrNilTarget)
     else (case skip_blank s of
       (None, s1) \<Rightarrow> (s1, Inl ErrNoTargets)
     | (Some line, s1) \<Rightarrow>
        (case split_n2 CHR '' '' line of
           [method, url] \<Rightarrow>
             if \<not> starts_with_method line then (s1, Inl (ErrText (''bad method: '' @ method)))
             else (case parse_uri url of
                Some e \<Rightarrow> (s1, Inl (ErrText (''bad URL: '' @ url @ '', '' @ e)))
              | None \<Rightarrow>
                 let tgt = \<lparr>t_Method = method, t_URL = url, t_Body = body, t_Header = Some hdr\<rparr>;
                     (t, s2) = peek s1;
                     next = trim_space t in
                 if next = [] \<or> starts_with_method next then (s2, Inr tgt)
                 else (case read_headers read_file s2 tgt of
                    (s3, Inl e) \<Rightarrow> (s3, Inl e)
                  | (s3, Inr tgt') \<Rightarrow>
                      if scan_err s3 \<noteq> None then (s3, Inl ErrNoTargets) else (s3, Inr tgt')))
         | _ \<Rightarrow> (s1, Inl (ErrText (''bad target: '' @ line))))))"

text \<open>Every step of the targeter consumes lines.\<close>

lemma skip_blank_pending:
  "skip_blank s = (r, s') \<Longrightarrow> length (pending s') \<le> length (pending s) \<and>
    (r \<noteq> None \<longrightarrow> length (pending s') < length (pending s) \<and> s_peeked s' = [])"
proof (induction s rule: skip_blank.induct)
  case (1 s)
  obtain t s1 where n: "next_line s = (t, s1)" by force
  show ?case
  proof (cases t)
    case None
    with n "1.prems" show ?thesis
      by (auto simp: skip_blank.simps [of s] dest: next_line_None)
  next
    case (Some l)
    with n have p: "length (pending s1) < length (pending s)" "s_peeked s1 = []"
      by (auto dest: next_line_Some)
    show ?thesis
    proof (cases "trim_space l \<noteq> [] \<and> hd (trim_space l) \<noteq> CHR ''#''")
      case True
      with n Some p "1.prems" show ?thesis by (auto simp: skip_blank.simps [of s] Let_def)
    next
      case False
      with n Some "1.prems" have "skip_blank s1 = (r, s')"
        by (auto simp: skip_blank.simps [of s] Let_def)
      with "1.IH" [OF n [symmetric] Some refl False] p show ?thesis by auto
    qed
  qed
qed

lemma peek_length: "s_peeked s = [] \<Longrightarrow> peek s = (t, s') \<Longrightarrow> length (pending s') \<le> length (pending s)"
  by (drule (1) peek_pending) (auto simp: pending_def split: list.splits if_splits)

lemma read_headers_pending:
  "read_headers rf s tgt = (s', r) \<Longrightarrow> length (pending s') \<le> length (pending s)"
proof (induction rf s tgt rule: read_headers.induct)
  case (1 rf s tgt)
  obtain t s1 where n: "next_line s = (t, s1)" by force
  show ?case
  proof (cases t)
    case None
    with n "1.prems" show ?thesis by (auto simp: read_headers.simps [of rf s tgt] dest: next_line_None)
  next
    case (Some l)
    with n have p: "length (pending s1) < length (pending s)" by (auto dest: next_line_Some)
    have "s' = s1 \<or> (\<exists>tgt'. read_headers rf s1 tgt' = (s', r) \<and>
        (read_headers rf s1 tgt' = (s', r) \<longrightarrow> length (pending s') \<le> length (pending s1)))"
      using "1.prems" "1.IH" [OF n [symmetric] Some refl] n Some
      by (auto simp: read_headers.simps [of rf s tgt] Let_def split: if_splits list.splits sum.splits)
    with p show ?thesis by auto
  qed
qed

lemma http_targeter_consumes:
  assumes "http_targeter pu rf body hdr arg s = (s', Inr t)"
  shows "length (pending s') < length (pending s)"
proof -
  obtain r s1 where sb: "skip_blank s = (r, s1)" by force
  with assms obtain line where r: "r = Some line" by (cases r) (auto simp: http_targeter_def split: if_splits)
  obtain u s2 where pk: "peek s1 = (u, s2)" by force
  have "length (pending s1) < length (pending s)" "length (pending s2) \<le> length (pending s1)"
    using skip_blank_pending [OF sb] r peek_length [OF _ pk] by simp_all
  moreover have "s' = s2 \<or> (\<exists>tgt0 r'. read_headers rf s2 tgt0 = (s', r'))"
    using assms sb r pk
    by (auto simp: http_targeter_def Let_def split: if_splits list.splits option.splits prod.splits sum.splits)
  ultimately show ?thesis using read_headers_pending by fastforce
qed

interpretation http_src: targeter_contract "http_targeter pu rf body hdr arg" "\<lambda>s. length (pending s)"
  for pu rf body hdr arg
  by unfold_locales (rule http_targeter_consumes)

section \<open>The HTTP format, written out\<close>

text \<open>What a targets file means: a request line, header lines and an empty line for each
  target. \<open>parsed_target\<close> is the target such a block stands for, on top of the defaults.\<close>

type_synonym block = "string \<times> string \<times> (string \<times> string) list"

fun header_line :: "string \<times> string \<Rightarrow> string" where
  "header_line (k, v) = k @ '': '' @ v"

fun block_lines :: "block \<Rightarrow> string list" where
  "block_lines (m, u, hs) = (m @ '' '' @ u) # map header_line hs @ [[]]"

fun add_headers :: "header \<Rightarrow> (string \<times> string) list \<Rightarrow> header" where
  "add_headers h [] = h"
| "add_headers h ((k, v) # hs) = add_headers (header_append k [v] h) hs"

fun parsed_target :: "string \<Rightarrow> header \<Rightarrow> block \<Rightarrow> target" where
  "parsed_target body hdr (m, u, hs) =
    \<lparr>t_Method = m, t_URL = u, t_Body = body, t_Header = Some (add_headers hdr hs)\<rparr>"

fun wf_header_line :: "string \<times> string \<Rightarrow> bool" where
  "wf_header_line (k, v) \<longleftrightarrow>
    clean k \<and> clean v \<and> CHR '':'' \<notin> set k \<and> hd k \<noteq> CHR ''#'' \<and> hd k \<noteq> CHR ''@'' \<and>
    \<not> starts_with_method (header_line (k, v))"

fun wf_block :: "(string \<Rightarrow> string option) \<Rightarrow> block \<Rightarrow> bool" where
  "wf_block parse_uri (m, u, hs) \<longleftrightarrow>
    m \<noteq> [] \<and> list_all is_upper m \<and> clean u \<and> parse_uri u = None \<and> list_all wf_header_line hs"

lemma is_upper_graphic: "is_upper c \<Longrightarrow> ascii_graphic c \<and> c \<noteq> CHR '' '' \<and> c \<noteq> CHR ''#''"
  by (auto simp: is_upper_def ascii_graphic_def Let_def)

lemma clean_method: "m \<noteq> [] \<Longrightarrow> list_all is_upper m \<Longrightarrow> clean m"
  using is_upper_graphic by (auto simp: clean_def list_all_iff)

lemma method_prefix:
  "list_all is_upper m \<Longrightarrow> takeWhile is_upper (m @ '' '' @ u) = m \<and> dropWhile is_upper (m @ '' '' @ u) = '' '' @ u"
  by (induction m) (auto simp: is_upper_def)

lemma request_line:
  assumes "m \<noteq> []" "list_all is_upper m" "clean u"
  shows "trim_space (m @ '' '' @ u) = m @ '' '' @ u" "hd (m @ '' '' @ u) \<noteq> CHR ''#''"
    "split_n2 CHR '' '' (m @ '' '' @ u) = [m, u]" "starts_with_method (m @ '' '' @ u)"
proof -
  have up: "\<forall>c \<in> set m. is_upper c" using assms(2) by (simp add: list_all_iff)
  have "clean (m @ '' '' @ u)" using assms clean_method by (intro clean_append) simp_all
  then show "trim_space (m @ '' '' @ u) = m @ '' '' @ u" by simp
  show "hd (m @ '' '' @ u) \<noteq> CHR ''#''" using assms(1) up is_upper_graphic by (cases m) auto
  have "CHR '' '' \<notin> set m" using up is_upper_graphic by auto
  then show "split_n2 CHR '' '' (m @ '' '' @ u) = [m, u]" by (simp add: split_n2_sep)
  show "starts_with_method (m @ '' '' @ u)"
    using method_prefix [OF assms(2), of u] assms(1) by (simp add: starts_with_method_def)
qed

lemma header_line_facts:
  assumes "wf_header_line (k, v)"
  shows "trim_space (header_line (k, v)) = header_line (k, v)"
    "header_line (k, v) \<noteq> []"
    "\<not> has_prefix (header_line (k, v)) ''#''" "\<not> has_prefix (header_line (k, v)) ''@''"
    "map trim_space (split_n2 CHR '':'' (header_line (k, v))) = [k, v]" "k \<noteq> []" "v \<noteq> []"
proof -
  have c: "clean k" "clean v" "CHR '':'' \<notin> set k" using assms by simp_all
  then show "k \<noteq> []" "v \<noteq> []" by (simp_all add: clean_def)
  then show "header_line (k, v) \<noteq> []" by simp
  show "trim_space (header_line (k, v)) = header_line (k, v)" using clean_append [of k v "'': ''"] c by simp
  show "\<not> has_prefix (header_line (k, v)) ''#''" "\<not> has_prefix (header_line (k, v)) ''@''"
    using assms \<open>k \<noteq> []\<close> by (cases k; simp add: has_prefix_def)+
  have "split_n2 CHR '':'' (header_line (k, v)) = [k, CHR '' '' # v]"
    using split_n2_sep [OF c(3), of "CHR '' '' # v"] by simp
  then show "map trim_space (split_n2 CHR '':'' (header_line (k, v))) = [k, v]" using c by simp
qed

lemma next_line_take:
  "pending s = l # ls \<Longrightarrow> \<exists>s'. next_line s = (Some l, s') \<and> pending s' = ls \<and> s_done s' = s_done s \<and> s_peeked s' = []"
  by (auto simp: next_line_pending pending_def split: if_splits)

lemma read_headers_lines:
  assumes "list_all wf_header_line hs" and "pending s = map header_line hs @ [] # rest" and "t_Header tgt = Some h"
  shows "\<exists>s'. read_headers rf s tgt = (s', Inr (tgt\<lparr>t_Header := Some (add_headers h hs)\<rparr>)) \<and>
    pending s' = rest \<and> s_done s' = s_done s"
  using assms
proof (induction hs arbitrary: s tgt h)
  case Nil
  then obtain s' where "next_line s = (Some [], s')" "pending s' = rest" "s_done s' = s_done s"
    using next_line_take [of s "[]" rest] by auto
  moreover have "tgt\<lparr>t_Header := Some h\<rparr> = tgt" using Nil.prems(3) by (cases tgt) simp
  ultimately show ?case by (simp add: read_headers.simps [of rf s tgt])
next
  case (Cons kv hs)
  obtain k v where kv: "kv = (k, v)" by force
  obtain s1 where n: "next_line s = (Some (header_line kv), s1)"
    "pending s1 = map header_line hs @ [] # rest" "s_done s1 = s_done s"
    using next_line_take [of s "header_line kv"] Cons.prems(2) by auto
  have wf: "wf_header_line (k, v)" "list_all wf_header_line hs" using Cons.prems(1) kv by auto
  let ?tgt = "tgt\<lparr>t_Header := Some (header_append k [v] h)\<rparr>"
  have "read_headers rf s tgt = read_headers rf s1 ?tgt"
    using n(1) header_line_facts [OF wf(1)] Cons.prems(3) kv
    by (simp add: read_headers.simps [of rf s tgt] Let_def target_header_def del: header_line.simps)
  with Cons.IH [of s1 ?tgt "header_append k [v] h"] wf n(2,3) show ?case by (simp add: kv)
qed

lemma skip_blank_line:
  assumes "pending s = l # ls" and "trim_space l \<noteq> []" and "hd (trim_space l) \<noteq> CHR ''#''"
  shows "\<exists>s'. skip_blank s = (Some (trim_space l), s') \<and> pending s' = ls \<and> s_done s' = s_done s \<and> s_peeked s' = []"
  using next_line_take [OF assms(1)] assms(2,3) by (auto simp: skip_blank.simps [of s] Let_def)

lemma peek_line:
  assumes "pending s = l # ls" and "s_peeked s = []"
  shows "\<exists>s'. peek s = (l, s') \<and> pending s' = (if l = [] then ls else l # ls) \<and> s_done s' = s_done s"
  using assms by (auto simp: pending_def peek_def src_scan_def)

lemma http_targeter_block:
  assumes "wf_block pu (m, u, hs)" and "pending s = block_lines (m, u, hs) @ rest"
    and "s_done s = False" and "arg \<noteq> None"
  shows "\<exists>s'. http_targeter pu rf body hdr arg s = (s', Inr (parsed_target body hdr (m, u, hs))) \<and>
    pending s' = rest \<and> s_done s' = False"
proof -
  have wf: "m \<noteq> []" "list_all is_upper m" "clean u" "pu u = None" "list_all wf_header_line hs"
    using assms(1) by simp_all
  note rl = request_line [OF wf(1-3)]
  obtain s1 where s1: "skip_blank s = (Some (m @ '' '' @ u), s1)"
    "pending s1 = map header_line hs @ [] # rest" "s_done s1 = False" "s_peeked s1 = []"
    using skip_blank_line [of s "m @ '' '' @ u"] rl(1,2) assms(2,3) wf(1) by auto
  show ?thesis
  proof (cases hs)
    case Nil
    with s1 obtain s2 where "peek s1 = ([], s2)" "pending s2 = rest" "s_done s2 = False"
      using peek_line [of s1 "[]" rest] by auto
    with s1 rl(3,4) wf(4) assms(4) Nil show ?thesis
      by (simp add: http_targeter_def Let_def)
  next
    case (Cons kv hs')
    obtain k v where kv: "kv = (k, v)" by force
    from Cons kv wf(5) have wk: "wf_header_line (k, v)" by simp
    note hl = header_line_facts [OF wk]
    from s1 Cons kv obtain s2 where s2: "peek s1 = (header_line (k, v), s2)"
      "pending s2 = map header_line hs @ [] # rest" "s_done s2 = False"
      using peek_line [of s1 "header_line (k, v)"] hl(2) by auto
    let ?tgt = "\<lparr>t_Method = m, t_URL = u, t_Body = body, t_Header = Some hdr\<rparr>"
    obtain s3 where s3: "read_headers rf s2 ?tgt = (s3, Inr (?tgt\<lparr>t_Header := Some (add_headers hdr hs)\<rparr>))"
      "pending s3 = rest" "s_done s3 = False"
      using read_headers_lines [OF wf(5) s2(2), of ?tgt hdr rf] s2(3) by auto
    have "\<not> starts_with_method (header_line (k, v))" using wk by simp
    then have "http_targeter pu rf body hdr arg s = (s3, Inr (parsed_target body hdr (m, u, hs)))"
      using s1(1) s2(1) s3(1,3) rl(3,4) wf(4) assms(4) hl(1,2)
      by (simp add: http_targeter_def Let_def scan_err_def del: header_line.simps)
    with s3(2,3) show ?thesis by blast
  qed
qed

lemma http_targeter_dry:
  "pending s = [] \<Longrightarrow> \<exists>s'. http_targeter pu rf body hdr (Some t) s = (s', Inl ErrNoTargets)"
  by (auto simp: http_targeter_def skip_blank.simps [of s] next_line_pending)

lemma read_all_blocks:
  assumes "list_all (wf_block pu) bs" and "pending s = concat (map block_lines bs)" and "s_done s = False"
    and "acc @ bs' \<noteq> []" and "bs' = map (parsed_target body hdr) bs"
  shows "read_all_loop (http_targeter pu rf body hdr (Some t)) s acc = Some (Inr (acc @ bs'))"
  using assms
proof (induction bs arbitrary: s acc bs')
  case Nil
  then have "pending s = []" by simp
  then obtain s' where "http_targeter pu rf body hdr (Some t) s = (s', Inl ErrNoTargets)"
    using http_targeter_dry by blast
  with Nil show ?case by (subst read_all_loop.simps) simp
next
  case (Cons b bs)
  obtain m u hs where b: "b = (m, u, hs)" by (cases b) auto
  obtain s' where "http_targeter pu rf body hdr (Some t) s = (s', Inr (parsed_target body hdr b))"
    "pending s' = concat (map block_lines bs)" "s_done s' = False"
    using http_targeter_block [of pu m u hs s _ "Some t" rf body hdr] Cons.prems b by auto
  with Cons.IH [of s' "acc @ [parsed_target body hdr b]"] Cons.prems show ?case
    by (subst read_all_loop.simps) simp
qed

section \<open>The JSON targeter\<close>

text \<open>\<open>ReadBytes('\n')\<close> on the unread bytes: the line with its newline and the rest, or nothing
  (an error, with all bytes consumed) when no newline is left.\<close>

definition newline :: char where
  "newline = CHR 0x0A"

definition read_bytes_line :: "string \<Rightarrow> (string \<times> string) option" where
  "read_bytes_line src =
    (case dropWhile (\<lambda>c. c \<noteq> newline) src of
       [] \<Rightarrow> None
     | c # rest \<Rightarrow> Some (takeWhile (\<lambda>c. c \<noteq> newline) src @ [c], rest))"

lemma read_bytes_line_shorter: "read_bytes_line src = Some (l, rest) \<Longrightarrow> length rest < length src"
proof -
  assume "read_bytes_line src = Some (l, rest)"
  then obtain c where "dropWhile (\<lambda>c. c \<noteq> newline) src = c # rest"
    by (auto simp: read_bytes_line_def split: list.splits)
  moreover have "length (dropWhile (\<lambda>c. c \<noteq> newline) src) \<le> length src" by (rule length_dropWhile_le)
  ultimately show ?thesis by simp
qed

function next_json_line :: "string \<Rightarrow> string option \<times> string" where
  "next_json_line src =
    (case read_bytes_line src of
       None \<Rightarrow> (None, [])
     | Some (l, rest) \<Rightarrow>
         let data = trim_space l in if data \<noteq> [] then (Some data, rest) else next_json_line rest)"
  by pat_completeness auto
termination
  by (relation "measure length") (auto dest: read_bytes_line_shorter)

declare next_json_line.simps [simp del]

text \<open>\<open>NewJSONTargeter\<close>'s closure over the unread bytes; \<open>rd_err\<close> is the reader's error at the
  end of its bytes, \<open>None\<close> for \<open>io.EOF\<close>.\<close>

definition json_targeter ::
    "(string \<Rightarrow> string + target) \<Rightarrow> string option \<Rightarrow> string \<Rightarrow> header \<Rightarrow> target option \<Rightarrow> string targeter" where
  "json_targeter decode rd_err body hdr arg src =
    (case arg of
       None \<Rightarrow> (src, Inl ErrNilTarget)
     | Some tgt \<Rightarrow>
        (case next_json_line src of
           (None, src') \<Rightarrow>
             (src', Inl (case rd_err of None \<Rightarrow> ErrNoTargets | Some e \<Rightarrow> ErrText e))
         | (Some data, src') \<Rightarrow>
            (case decode data of
               Inl e \<Rightarrow> (src', Inl (ErrText e))
             | Inr t \<Rightarrow>
                 if t_Method t = [] then (src', Inl ErrNoMethod)
                 else if t_URL t = [] then (src', Inl ErrNoURL)
                 else (src', Inr \<lparr>t_Method = t_Method t, t_URL = t_URL t,
                   t_Body = (if t_Body t \<noteq> [] then t_Body t else body),
                   t_Header = Some (header_merge (header_merge (target_header tgt) hdr)
                     (target_header t))\<rparr>))))"

lemma next_json_line_Nil [simp]: "next_json_line [] = (None, [])"
  by (simp add: next_json_line.simps [of "[]"] read_bytes_line_def)

lemma next_json_line_shorter:
  "next_json_line src = (r, src') \<Longrightarrow> length src' \<le> length src \<and> (r \<noteq> None \<longrightarrow> length src' < length src)"
proof (induction src rule: next_json_line.induct)
  case (1 src)
  show ?case
  proof (cases "read_bytes_line src")
    case None
    with "1.prems" show ?thesis by (auto simp: next_json_line.simps [of src])
  next
    case (Some p)
    obtain l rest where p: "p = (l, rest)" by force
    with Some have "length rest < length src" by (simp add: read_bytes_line_shorter)
    with "1.prems" "1.IH" [OF Some p [symmetric] refl] Some p show ?thesis
      by (cases "trim_space l = []") (auto simp: next_json_line.simps [of src] Let_def)
  qed
qed

interpretation json_src: targeter_contract "json_targeter decode rd_err body hdr arg" length
  for decode rd_err body hdr arg
  by unfold_locales
     (auto simp: json_targeter_def dest: next_json_line_shorter
       split: option.splits prod.splits sum.splits if_splits)

text \<open>Bytes after the last newline are never read as a target.\<close>

definition newline_terminated :: "string \<Rightarrow> bool" where
  "newline_terminated src \<longleftrightarrow> src = [] \<or> last src = newline"

lemma read_bytes_line_append:
  assumes "newline_terminated src" and "newline \<notin> set tail"
  shows "case read_bytes_line src of
      None \<Rightarrow> src = [] \<and> read_bytes_line (src @ tail) = None
    | Some (l, rest) \<Rightarrow> read_bytes_line (src @ tail) = Some (l, rest @ tail) \<and> newline_terminated rest"
proof (cases "newline \<in> set src")
  case True
  then obtain l rest where src: "src = l @ newline # rest" and l: "newline \<notin> set l"
    by (meson split_list_first)
  then have "read_bytes_line src = Some (l @ [newline], rest)"
    "read_bytes_line (src @ tail) = Some (l @ [newline], rest @ tail)"
    by (simp_all add: read_bytes_line_def takeWhile_to_sep dropWhile_to_sep)
  moreover have "newline_terminated rest"
    using assms(1) src by (auto simp: newline_terminated_def split: if_splits)
  ultimately show ?thesis by simp
next
  case False
  then have "src = []" using assms(1) by (metis last_in_set newline_terminated_def)
  with assms(2) show ?thesis by (simp add: read_bytes_line_def dropWhile_no_sep)
qed

lemma next_json_line_append:
  assumes "newline \<notin> set tail"
  shows "newline_terminated src \<Longrightarrow> next_json_line src = (r, rest) \<Longrightarrow>
    newline_terminated rest \<and> next_json_line (src @ tail) = (r, case r of None \<Rightarrow> [] | Some _ \<Rightarrow> rest @ tail)"
proof (induction src rule: next_json_line.induct)
  case (1 src)
  note a = read_bytes_line_append [OF "1.prems"(1) assms]
  show ?case
  proof (cases "read_bytes_line src")
    case None
    have "src = []" and "read_bytes_line (src @ tail) = None"
      using a unfolding None option.case by blast+
    with None "1.prems" show ?thesis
      by (auto simp: next_json_line.simps [of src] next_json_line.simps [of "tail"] newline_terminated_def)
  next
    case (Some p)
    obtain l rest' where p: "p = (l, rest')" by force
    with a Some have b: "read_bytes_line (src @ tail) = Some (l, rest' @ tail)" "newline_terminated rest'"
      by simp_all
    show ?thesis
    proof (cases "trim_space l = []")
      case True
      with "1.IH" [OF Some p [symmetric] refl] "1.prems" Some p b show ?thesis
        by (simp add: next_json_line.simps [of src] next_json_line.simps [of "src @ tail"] Let_def)
    next
      case False
      with "1.prems" Some p b show ?thesis
        by (auto simp: next_json_line.simps [of src] next_json_line.simps [of "src @ tail"] Let_def)
    qed
  qed
qed

lemma read_all_json_append:
  assumes "newline \<notin> set tail"
  shows "newline_terminated src \<Longrightarrow>
    read_all_loop (json_targeter decode None body hdr (Some t)) (src @ tail) acc =
    read_all_loop (json_targeter decode None body hdr (Some t)) src acc"
proof (induction "length src" arbitrary: src acc rule: less_induct)
  case less
  obtain r rest where n: "next_json_line src = (r, rest)" by force
  note a = next_json_line_append [OF assms less.prems n]
  show ?case
  proof (cases r)
    case None
    with n a show ?thesis by (subst (1 2) read_all_loop.simps) (simp add: json_targeter_def)
  next
    case (Some data)
    then have "length rest < length src" using next_json_line_shorter [OF n] by simp
    with less.hyps [of rest] a n Some show ?thesis
      by (subst (1 2) read_all_loop.simps)
         (auto simp: json_targeter_def split: sum.splits)
  qed
qed

section \<open>Properties\<close>



text \<open>
  C31. \<open>ReadAllTargets\<close> returns on every finite input in either format, well-formed or not: each
  target the HTTP and the JSON targeter hand out uses up input, so the loop reaches an error
  or the end.
\<close>

theorem read_all_targets_terminates:
  "(\<exists>r. read_all_targets (http_targeter parse_uri read_file body hdr arg) s = Some r) \<and>
   (\<exists>r. read_all_targets (json_targeter decode rd_err body hdr arg) src = Some r)"
  by (intro conjI http_src.read_all_returns json_src.read_all_returns)

text \<open>
  \<open>NewStaticTargeter\<close> round-robins: from a new targeter, \<open>n\<close> calls in a row return the
  targets in order, starting over after the last, without a panic, for up to \<open>2\<^sup>6\<^sup>3\<close> calls;
  with no targets the first call panics with a division by zero.
\<close>

theorem static_targeter_round_robin:
  "(tgts \<noteq> [] \<and> length tgts < 2 ^ 63 \<and> n \<le> 2 ^ 63 \<longrightarrow>
      static_calls tgts (- 1) n = Inr (map (\<lambda>j. tgts ! (j mod length tgts)) [0..<n])) \<and>
   static_calls [] (- 1) (Suc n) = Inl DivideByZero"
  using static_calls_from [of tgts 0 n "- 1"]
  by (simp add: static_targeter_def i64_mod_def)

theorem static_targeter_round_robin_witness:
  "static_calls [zero_target, zero_target\<lparr>t_URL := ''b''\<rparr>] (- 1) 3 =
     Inr [zero_target, zero_target\<lparr>t_URL := ''b''\<rparr>, zero_target]"
  using static_targeter_round_robin [of "[zero_target, zero_target\<lparr>t_URL := ''b''\<rparr>]" 3]
  by (simp add: upt_rec)

text \<open>
  C38. The JSON targeter never reads the bytes after the last newline of its source: a final
  line that is not terminated is dropped, so \<open>ReadAllTargets\<close> gives the same result with and
  without it (and fails with "no targets" on a file whose only line has no newline).
\<close>

theorem json_targeter_drops_unterminated_line:
  assumes "newline_terminated src" and "newline \<notin> set tail"
  shows "read_all_targets (json_targeter decode None body hdr (Some zero_target)) (src @ tail) =
    read_all_targets (json_targeter decode None body hdr (Some zero_target)) src"
  using read_all_json_append [OF assms(2,1)] by (simp add: read_all_targets_def)

theorem json_targeter_drops_unterminated_line_witness:
  "read_all_targets (json_targeter (\<lambda>_. Inr zero_target) None [] [] (Some zero_target)) ''{}'' =
     Some (Inl ErrNoTargets)"
  using json_targeter_drops_unterminated_line [of "[]" "''{}''" "\<lambda>_. Inr zero_target" "[]" "[]"]
  by (simp add: newline_terminated_def newline_def read_all_targets_def)
     (subst read_all_loop.simps, simp add: json_targeter_def)

text \<open>
  What one JSON line becomes. A decoded target with a method and a URL is handed out with
  its own body, or the default one when it has none, and under every header key the values
  already in the target to fill, then the default's, then the line's; without a method or a
  URL the call fails, method first.
\<close>

theorem json_targeter_merges:
  assumes "next_json_line src = (Some data, src')" and "decode data = Inr t" and "wf_header hdr"
    and "wf_header (target_header t)"
  shows "case json_targeter decode rd_err body hdr (Some tgt) src of (s', r) \<Rightarrow>
    s' = src' \<and>
    (if t_Method t = [] then r = Inl ErrNoMethod
     else if t_URL t = [] then r = Inl ErrNoURL
     else (\<exists>u. r = Inr u \<and> t_Method u = t_Method t \<and> t_URL u = t_URL t \<and>
       t_Body u = (if t_Body t = [] then body else t_Body t) \<and>
       (\<forall>k. header_get (target_header u) k =
          header_get (target_header tgt) k @ header_get hdr k @ header_get (target_header t) k)))"
  using assms by (simp add: json_targeter_def header_get_merge)

theorem json_targeter_merges_witness:
  "\<exists>u. json_targeter (\<lambda>_. Inr \<lparr>t_Method = ''GET'', t_URL = ''u'', t_Body = [], t_Header = Some [(''A'', [''1''])]\<rparr>)
      None ''d'' [(''A'', [''0''])] (Some zero_target) [CHR ''{'', CHR ''}'', newline] = ([], Inr u) \<and>
    t_Body u = ''d'' \<and> header_get (target_header u) ''A'' = [''0'', ''1'']"
proof -
  let ?t = "\<lparr>t_Method = ''GET'', t_URL = ''u'', t_Body = [], t_Header = Some [(''A'', [''1''])]\<rparr>"
  have "trim_space [CHR ''{'', CHR ''}'', newline] = ''{}''"
    by (simp add: newline_def trim_space_def trim_left.simps space_runes_def has_prefix_def)
  then have n: "next_json_line [CHR ''{'', CHR ''}'', newline] = (Some ''{}'', [])"
    by (subst next_json_line.simps) (simp add: read_bytes_line_def newline_def)
  have "wf_header [(''A'', [''0''])]" "wf_header (target_header ?t)" by (simp_all add: wf_header_def)
  from json_targeter_merges [OF n _ this, where decode = "\<lambda>_. Inr ?t" and tgt = zero_target
      and rd_err = None and body = "''d''"]
  show ?thesis
    by (auto simp: header_get_def zero_target_def target_header_def split: prod.splits)
qed

end
