(* ===== verification/Attacker.thy ===== *)
theory Attacker
  imports Targets
begin

text \<open>
  \<open>lib/attack.go\<close> without the attack loop: the \<open>Attacker\<close> and its functional options, the
  redirect policy, the dial functions the options build (each dial closure is a value of
  \<open>dialer\<close>, run by \<open>dial_with\<close> of theory \<open>Dialing\<close>), \<open>firstOfEachIPFamily\<close> and \<open>hit\<close>, one request from
  the targeter to its \<open>Result\<close>.

  Parameters, for code outside the repository: \<open>new_request\<close> (\<open>http.NewRequest\<close>) and
  \<open>do_request\<close> (\<open>http.Client.Do\<close> with the server behind it), which gives an error or a
  response with the bytes its body yields before its end or an error.
\<close>

section \<open>The attacker and its options\<close>

datatype dialer =
    NetDialer                             \<comment> \<open>\<open>a.dialer.DialContext\<close>\<close>
  | UnixDialer string                     \<comment> \<open>\<open>UnixSocket\<close>\<close>
  | ConnectToDialer "(string \<times> string list) list" dialer
  | CachingDialer duration dialer         \<comment> \<open>\<open>DNSCaching\<close>\<close>

record tls_config =
  SessionTicketsDisabled :: bool
  ClientSessionCache :: bool
  InsecureSkipVerify :: bool
  Certificates :: "string list"
  RootCAs :: "string list option"       \<comment> \<open>the PEM texts of the pool\<close>

record http_transport =
  MaxIdleConnsPerHost :: i64
  MaxConnsPerHost :: i64
  DisableKeepAlives :: bool
  DialContext :: "dialer option"
  TLSClientConfig :: tls_config
  ForceAttemptHTTP2 :: bool
  HTTP2Configured :: bool
  ProxyConnectHeader :: header

datatype transport =
    HTTPTransport http_transport          \<comment> \<open>\<open>*http.Transport\<close>\<close>
  | HTTP2Transport "dialer option"        \<comment> \<open>\<open>*http2.Transport\<close>, for h2c\<close>
  | OtherTransport

record attacker =
  a_transport :: transport
  a_timeout :: duration
  a_check_redirect :: "i64 option"
  a_workers :: u64
  a_maxWorkers :: u64
  a_maxBody :: i64
  a_redirects :: i64
  a_chunked :: bool
  a_keepAlive :: duration
  a_localAddr :: string

definition default_transport :: http_transport where
  "default_transport = \<lparr>MaxIdleConnsPerHost = 10000, MaxConnsPerHost = 0, DisableKeepAlives = False,
    DialContext = Some NetDialer,
    TLSClientConfig = \<lparr>SessionTicketsDisabled = False, ClientSessionCache = False, InsecureSkipVerify = False,
      Certificates = [], RootCAs = None\<rparr>,
    ForceAttemptHTTP2 = False, HTTP2Configured = False, ProxyConnectHeader = []\<rparr>"

definition default_attacker :: attacker where
  "default_attacker = \<lparr>a_transport = HTTPTransport default_transport, a_timeout = 30000000000,
    a_check_redirect = None, a_workers = 10, a_maxWorkers = - 1, a_maxBody = - 1, a_redirects = 0,
    a_chunked = False, a_keepAlive = 30000000000, a_localAddr = ''0.0.0.0''\<rparr>"

datatype opt =
    Workers u64
  | MaxWorkers u64
  | Connections i64
  | MaxConnections i64
  | ChunkedBody bool
  | Redirects i64
  | Timeout duration
  | LocalAddr string
  | KeepAlive bool
  | TLSConfig tls_config
  | HTTP2 bool
  | H2C bool
  | MaxBody i64
  | UnixSocket string
  | SessionTickets bool
  | ProxyHeader header
  | ConnectTo "(string \<times> string list) list"
  | DNSCaching duration

text \<open>The type assertion \<open>a.client.Transport.(*http.Transport)\<close>, which panics on another
  transport.\<close>

definition with_transport :: "(http_transport \<Rightarrow> http_transport) \<Rightarrow> attacker \<Rightarrow> attacker go" where
  "with_transport f a =
    (case a_transport a of
       HTTPTransport tr \<Rightarrow> Inr (a\<lparr>a_transport := HTTPTransport (f tr)\<rparr>)
     | _ \<Rightarrow> Inl BadTypeAssertion)"

text \<open>The two-valued assertion \<open>tr, ok := ...\<close>, which leaves another transport alone.\<close>

definition if_transport :: "(http_transport \<Rightarrow> http_transport) \<Rightarrow> attacker \<Rightarrow> attacker go" where
  "if_transport f a =
    (case a_transport a of
       HTTPTransport tr \<Rightarrow> Inr (a\<lparr>a_transport := HTTPTransport (f tr)\<rparr>)
     | _ \<Rightarrow> Inr a)"

definition tr_dialer :: "http_transport \<Rightarrow> dialer" where
  "tr_dialer tr = (case DialContext tr of None \<Rightarrow> NetDialer | Some d \<Rightarrow> d)"

fun apply_opt :: "opt \<Rightarrow> attacker \<Rightarrow> attacker go" where
  "apply_opt (Workers n) a = Inr (a\<lparr>a_workers := n\<rparr>)"
| "apply_opt (MaxWorkers n) a = Inr (a\<lparr>a_maxWorkers := n\<rparr>)"
| "apply_opt (Connections n) a = with_transport (\<lambda>tr. tr\<lparr>MaxIdleConnsPerHost := n\<rparr>) a"
| "apply_opt (MaxConnections n) a = with_transport (\<lambda>tr. tr\<lparr>MaxConnsPerHost := n\<rparr>) a"
| "apply_opt (ChunkedBody b) a = Inr (a\<lparr>a_chunked := b\<rparr>)"
| "apply_opt (Redirects n) a = Inr (a\<lparr>a_redirects := n, a_check_redirect := Some n\<rparr>)"
| "apply_opt (Timeout d) a = Inr (a\<lparr>a_timeout := d\<rparr>)"
| "apply_opt (LocalAddr ip) a =
    with_transport (\<lambda>tr. tr\<lparr>DialContext := Some NetDialer\<rparr>) (a\<lparr>a_localAddr := ip\<rparr>)"
| "apply_opt (KeepAlive k) a =
    go_bind (with_transport (\<lambda>tr. tr\<lparr>DisableKeepAlives := \<not> k\<rparr>) a) (\<lambda>a'.
      if k then Inr a'
      else with_transport (\<lambda>tr. tr\<lparr>DialContext := Some NetDialer\<rparr>) (a'\<lparr>a_keepAlive := 0\<rparr>))"
| "apply_opt (TLSConfig c) a = with_transport (\<lambda>tr. tr\<lparr>TLSClientConfig := c\<rparr>) a"
| "apply_opt (HTTP2 b) a =
    with_transport (\<lambda>tr. if b then tr\<lparr>HTTP2Configured := True\<rparr>
      else tr\<lparr>ForceAttemptHTTP2 := False, HTTP2Configured := False\<rparr>) a"
| "apply_opt (H2C b) a =
    (case a_transport a of
       HTTPTransport tr \<Rightarrow>
         Inr (if b then a\<lparr>a_transport := HTTP2Transport (DialContext tr)\<rparr> else a)
     | _ \<Rightarrow> Inl BadTypeAssertion)"
| "apply_opt (MaxBody n) a = Inr (a\<lparr>a_maxBody := n\<rparr>)"
| "apply_opt (UnixSocket sock) a =
    (if sock = [] then Inr a else if_transport (\<lambda>tr. tr\<lparr>DialContext := Some (UnixDialer sock)\<rparr>) a)"
| "apply_opt (SessionTickets b) a =
    (if b then with_transport (\<lambda>tr. tr\<lparr>TLSClientConfig :=
       (TLSClientConfig tr)\<lparr>SessionTicketsDisabled := False, ClientSessionCache := True\<rparr>\<rparr>) a
     else Inr a)"
| "apply_opt (ProxyHeader h) a = if_transport (\<lambda>tr. tr\<lparr>ProxyConnectHeader := h\<rparr>) a"
| "apply_opt (ConnectTo m) a =
    (if m = [] then Inr a
     else if_transport (\<lambda>tr. tr\<lparr>DialContext := Some (ConnectToDialer m (tr_dialer tr))\<rparr>) a)"
| "apply_opt (DNSCaching ttl) a =
    (if ttl <s 0 then Inr a
     else if_transport (\<lambda>tr. tr\<lparr>DialContext := Some (CachingDialer ttl (tr_dialer tr))\<rparr>) a)"

fun apply_opts :: "opt list \<Rightarrow> attacker \<Rightarrow> attacker go" where
  "apply_opts [] a = Inr a"
| "apply_opts (x # xs) a = go_bind (apply_opt x a) (apply_opts xs)"

definition new_attacker :: "opt list \<Rightarrow> attacker go" where
  "new_attacker opts = apply_opts opts default_attacker"

text \<open>The options of \<open>vegeta attack\<close>, in the order of \<open>attack.go\<close>.\<close>

definition attack_options ::
    "[i64, duration, string, tls_config, u64, u64, bool, i64, i64, bool, bool, i64, string, header, bool, duration,
      (string \<times> string list) list, bool] \<Rightarrow> opt list" where
  "attack_options redirects timeout laddr tlsc workers maxWorkers keepalive connections maxConnections http2 h2c
      maxBody unixSocket proxyHdr chunked dnsTTL connectTo sessionTickets =
    [Redirects redirects, Timeout timeout, LocalAddr laddr, TLSConfig tlsc, Workers workers, MaxWorkers maxWorkers,
     KeepAlive keepalive, Connections connections, MaxConnections maxConnections, HTTP2 http2, H2C h2c,
     MaxBody maxBody, UnixSocket unixSocket, ProxyHeader proxyHdr, ChunkedBody chunked, DNSCaching dnsTTL,
     ConnectTo connectTo, SessionTickets sessionTickets]"

section \<open>Redirects\<close>

datatype redirect_verdict = UseLastResponse | StoppedAfter i64 | FollowRedirect

definition check_redirect :: "i64 \<Rightarrow> nat \<Rightarrow> redirect_verdict" where
  "check_redirect n via =
    (if n = - 1 then UseLastResponse
     else if n <s word_of_nat via then StoppedAfter n
     else FollowRedirect)"

text \<open>What \<open>http.Client.Do\<close> does with the verdicts, on a server that answers with \<open>redirects\<close>
  redirects in a row before a final response: the requests followed and whether it ends in an error.
  \<open>via\<close> counts the requests made so far.\<close>

fun follow_redirects :: "i64 \<Rightarrow> nat \<Rightarrow> nat \<Rightarrow> nat \<times> bool" where
  "follow_redirects n via 0 = (0, False)"
| "follow_redirects n via (Suc k) =
    (case check_redirect n via of
       UseLastResponse \<Rightarrow> (0, False)
     | StoppedAfter _ \<Rightarrow> (0, True)
     | FollowRedirect \<Rightarrow> (case follow_redirects n (Suc via) k of (f, e) \<Rightarrow> (Suc f, e)))"

lemma follow_redirects_from:
  assumes "0 \<le> sint n" and "via + k < 2 ^ 63"
  shows "follow_redirects n via k =
    (min k (nat (sint n + 1 - int via)), 0 < k \<and> sint n + 1 - int via < int k)"
  using assms(2)
proof (induction k arbitrary: via)
  case 0
  then show ?case by simp
next
  case (Suc k)
  have "sint (word_of_nat via :: i64) = int via"
    using sint_word_of_int_i64 [of "int via"] Suc.prems by simp
  moreover have "n \<noteq> - 1" using assms(1) by auto
  ultimately have "check_redirect n via = (if sint n < int via then StoppedAfter n else FollowRedirect)"
    by (simp add: check_redirect_def word_sless_alt)
  with Suc show ?case by (auto simp: min_def)
qed

section \<open>Dialing\<close>

text \<open>\<open>ConnectTo\<close>'s closure: the position \<open>n\<close> of each source address in its list of
  destinations, and the address dialed for a request to \<open>addr\<close>.\<close>

type_synonym round_robins = "string \<rightharpoonup> string list \<times> nat"

definition connect_to :: "round_robins \<Rightarrow> string \<Rightarrow> (round_robins \<times> string) go" where
  "connect_to m addr =
    (case m addr of
       None \<Rightarrow> Inr (m, addr)
     | Some (addrs, n) \<Rightarrow>
         if addrs = [] then Inl DivideByZero
         else let n' = (n + 1) mod length addrs in Inr (m(addr \<mapsto> (addrs, n')), addrs ! n'))"

definition new_round_robins :: "(string \<times> string list) list \<Rightarrow> round_robins" where
  "new_round_robins addr_map = map_option (\<lambda>addrs. (addrs, 0)) \<circ> map_of addr_map"

fun connect_to_many :: "round_robins \<Rightarrow> string \<Rightarrow> nat \<Rightarrow> string list go" where
  "connect_to_many m addr 0 = Inr []"
| "connect_to_many m addr (Suc k) =
    go_bind (connect_to m addr) (\<lambda>(m', a). go_bind (connect_to_many m' addr k) (\<lambda>as. Inr (a # as)))"

lemma connect_to_many_from:
  assumes "m addr = Some (addrs, n)" and "addrs \<noteq> []"
  shows "connect_to_many m addr k = Inr (map (\<lambda>j. addrs ! ((n + j) mod length addrs)) [1..<Suc k])"
  using assms(1)
proof (induction k arbitrary: m n)
  case (Suc k)
  let ?n = "(n + 1) mod length addrs"
  have "connect_to_many (m(addr \<mapsto> (addrs, ?n))) addr k =
      Inr (map (\<lambda>j. addrs ! ((?n + j) mod length addrs)) [1..<Suc k])"
    by (rule Suc.IH) simp
  moreover have "map (\<lambda>j. addrs ! ((?n + j) mod length addrs)) [1..<Suc k] =
      map (\<lambda>j. addrs ! ((n + j) mod length addrs)) [2..<Suc (Suc k)]"
    by (rule nth_equalityI) (simp_all add: mod_add_left_eq del: upt_Suc)
  moreover have "[1..<Suc (Suc k)] = 1 # [2..<Suc (Suc k)]"
    by (simp add: upt_conv_Cons numeral_2_eq_2 del: upt_Suc)
  ultimately show ?case using Suc.prems assms(2) by (simp add: connect_to_def Let_def del: upt_Suc)
qed simp

text \<open>
  \<open>firstOfEachIPFamily\<close> filters its slice in place: \<open>each\<close> is a prefix of length \<open>m\<close> of the
  array it is reading. \<open>family\<close> is \<open>net.ParseIP\<close> and \<open>To4\<close>: nothing for a string that is
  no IP address, otherwise whether it is an IPv4 one.
\<close>

function each_family_loop ::
    "(string \<Rightarrow> bool option) \<Rightarrow> nat \<Rightarrow> string list \<Rightarrow> nat \<Rightarrow> bool \<Rightarrow> string list" where
  "each_family_loop family i ips m lastV4 =
    (if i < length ips \<and> m < 2 then
       (case family (ips ! i) of
          None \<Rightarrow> each_family_loop family (Suc i) ips m lastV4
        | Some isV4 \<Rightarrow>
            if m = 0 \<or> isV4 \<noteq> lastV4
            then each_family_loop family (Suc i) (ips[m := ips ! i]) (Suc m) isV4
            else each_family_loop family (Suc i) ips m lastV4)
     else take m ips)"
  by pat_completeness auto
termination
  by (relation "measure (\<lambda>(f, i, ips, m, l). length ips - i)") auto

declare each_family_loop.simps [simp del]

definition first_of_each_ip_family :: "(string \<Rightarrow> bool option) \<Rightarrow> string list \<Rightarrow> string list" where
  "first_of_each_ip_family family ips =
    (if ips = [] then ips else each_family_loop family 0 ips 0 False)"

text \<open>What it computes, without the aliasing.\<close>

fun other_family :: "(string \<Rightarrow> bool option) \<Rightarrow> bool \<Rightarrow> string list \<Rightarrow> string list" where
  "other_family family v4 ips = (case find (\<lambda>ip. family ip = Some (\<not> v4)) ips of None \<Rightarrow> [] | Some ip \<Rightarrow> [ip])"

fun one_per_family :: "(string \<Rightarrow> bool option) \<Rightarrow> string list \<Rightarrow> string list" where
  "one_per_family family [] = []"
| "one_per_family family (ip # ips) =
    (case family ip of
       None \<Rightarrow> one_per_family family ips
     | Some v4 \<Rightarrow> ip # other_family family v4 ips)"

lemma each_family_loop_1:
  assumes "1 \<le> i" and "i \<le> length ips"
  shows "each_family_loop family i ips 1 v4 = take 1 ips @ other_family family v4 (drop i ips)"
  using assms
proof (induction "length ips - i" arbitrary: i)
  case 0
  then show ?case by (simp add: each_family_loop.simps [of family i])
next
  case (Suc n)
  then have i: "i < length ips" and d: "drop i ips = ips ! i # drop (Suc i) ips"
    by (simp_all add: Cons_nth_drop_Suc)
  show ?case
  proof (cases "family (ips ! i) = Some (\<not> v4)")
    case True
    have "each_family_loop family (Suc i) (ips[1 := ips ! i]) 2 (\<not> v4) = take 2 (ips[1 := ips ! i])"
      by (simp add: each_family_loop.simps [of family "Suc i"])
    also have "\<dots> = take 1 ips @ [ips ! i]"
      using i Suc.prems by (cases ips; cases "tl ips") auto
    finally show ?thesis
      using True i d by (simp add: each_family_loop.simps [of family i] numeral_2_eq_2)
  next
    case False
    then have "each_family_loop family i ips 1 v4 = each_family_loop family (Suc i) ips 1 v4"
      using i by (cases "family (ips ! i)") (auto simp: each_family_loop.simps [of family i])
    with Suc.hyps(1) [of "Suc i"] Suc.hyps(2) False i d show ?thesis by simp
  qed
qed

lemma each_family_loop_0:
  "i \<le> length ips \<Longrightarrow> each_family_loop family i ips 0 v4 = one_per_family family (drop i ips)"
proof (induction "length ips - i" arbitrary: i)
  case 0
  then show ?case by (simp add: each_family_loop.simps [of family i])
next
  case (Suc n)
  then have i: "i < length ips" and d: "drop i ips = ips ! i # drop (Suc i) ips"
    by (simp_all add: Cons_nth_drop_Suc)
  show ?case
  proof (cases "family (ips ! i)")
    case None
    with Suc.hyps(1) [of "Suc i"] Suc.hyps(2) i d show ?thesis
      by (simp add: each_family_loop.simps [of family i])
  next
    case (Some isV4)
    have "each_family_loop family (Suc i) (ips[0 := ips ! i]) 1 isV4 =
        take 1 (ips[0 := ips ! i]) @ other_family family isV4 (drop (Suc i) (ips[0 := ips ! i]))"
      by (rule each_family_loop_1) (use i in simp_all)
    moreover have "take 1 (ips[0 := ips ! i]) = [ips ! i]" using i by (cases ips) simp_all
    ultimately show ?thesis
      using Some i d by (simp add: each_family_loop.simps [of family i])
  qed
qed

section \<open>One hit\<close>

text \<open>A response: the bytes its body yields, and the error met after them, if any.\<close>

record http_response =
  rp_StatusCode :: i64
  rp_Status :: string
  rp_body :: string
  rp_err :: "string option"
  rp_Header :: "header option"

text \<open>\<open>io.ReadAll\<close> of the body, through \<open>io.LimitReader\<close> unless \<open>maxBody\<close> is negative: a limit
  that is reached hides what comes after it, an error included. \<open>io.Copy\<close> then drains the
  body and meets the error.\<close>

definition read_body :: "i64 \<Rightarrow> http_response \<Rightarrow> string \<times> string option" where
  "read_body maxBody r =
    (if maxBody <s 0 then (rp_body r, rp_err r)
     else let n = nat (sint maxBody) in
       if n \<le> length (rp_body r) then (take n (rp_body r), None) else (rp_body r, rp_err r))"

text \<open>The deferred function: the latency, and the error that ended the hit.\<close>

definition hit_done :: "time \<Rightarrow> result \<Rightarrow> string option \<Rightarrow> result" where
  "hit_done now res err =
    (let res' = res\<lparr>Latency := time_sub now (Timestamp res)\<rparr> in
     case err of None \<Rightarrow> res' | Some e \<Rightarrow> res'\<lparr>Error := e\<rparr>)"

definition hit_request :: "attacker \<Rightarrow> string \<Rightarrow> u64 \<Rightarrow> http_request \<Rightarrow> http_request" where
  "hit_request a name seq req =
    (let h0 = rq_Header req;
         h1 = (if name \<noteq> [] then header_set ''X-Vegeta-Attack'' name h0 else h0);
         h2 = header_set ''X-Vegeta-Seq'' (format_uint seq) h1 in
     req\<lparr>rq_Header := h2,
         rq_TransferEncoding := rq_TransferEncoding req @ (if a_chunked a then [''chunked''] else [])\<rparr>)"

definition http_ok :: "u16 \<Rightarrow> bool" where
  "http_ok code \<longleftrightarrow> \<not> (code < 200 \<or> 400 \<le> code)"

text \<open>
  \<open>Attacker.hit\<close> with the sequence number and the timestamp its critical section gave it (the
  attack loop models that section), the targeter's answer, and the time at its end. The
  second component says whether it stops the attack.
\<close>

definition hit ::
    "(string \<Rightarrow> string \<Rightarrow> string option \<Rightarrow> string + http_request) \<Rightarrow>
     (http_request \<Rightarrow> string + http_response) \<Rightarrow>
     attacker \<Rightarrow> string \<Rightarrow> u64 \<Rightarrow> time \<Rightarrow> target_error + target \<Rightarrow> time \<Rightarrow> result \<times> bool" where
  "hit new_request do_request a name seq ts tr now =
    (let res0 = zero_result\<lparr>Attack := name, Timestamp := ts, Seq := seq\<rparr> in
     case tr of
       Inl e \<Rightarrow> (hit_done now res0 (Some (target_error_text e)), True)
     | Inr tgt \<Rightarrow>
        let res1 = res0\<lparr>Method := t_Method tgt, URL := t_URL tgt\<rparr> in
        (case target_request new_request tgt of
           Inl e \<Rightarrow> (hit_done now res1 (Some e), False)
         | Inr req0 \<Rightarrow>
            let req = hit_request a name seq req0 in
            (case do_request req of
               Inl e \<Rightarrow> (hit_done now res1 (Some e), False)
             | Inr r \<Rightarrow>
                (case read_body (a_maxBody a) r of (body, err) \<Rightarrow>
                  let res2 = res1\<lparr>Body := body\<rparr> in
                  if err \<noteq> None then (hit_done now res2 err, False)
                  else if rp_err r \<noteq> None then (hit_done now res2 (rp_err r), False)
                  else
                    let res3 = res2\<lparr>BytesIn := word_of_nat (length body)\<rparr>;
                        res4 = (if rq_ContentLength req \<noteq> - 1 then res3\<lparr>BytesOut := rq_ContentLength req\<rparr> else res3);
                        code = ucast (rp_StatusCode r) :: u16;
                        res5 = res4\<lparr>Code := code\<rparr>;
                        res6 = (if \<not> http_ok code then res5\<lparr>Error := rp_Status r\<rparr> else res5) in
                    (hit_done now (res6\<lparr>Headers := rp_Header r\<rparr>) None, False)))))"

lemma hit_done_fields [simp]:
  "Attack (hit_done now res err) = Attack res" "Seq (hit_done now res err) = Seq res"
  "Timestamp (hit_done now res err) = Timestamp res" "Code (hit_done now res err) = Code res"
  "Method (hit_done now res err) = Method res" "URL (hit_done now res err) = URL res"
  "Body (hit_done now res err) = Body res" "BytesIn (hit_done now res err) = BytesIn res"
  "BytesOut (hit_done now res err) = BytesOut res" "Headers (hit_done now res err) = Headers res"
  "Latency (hit_done now res err) = time_sub now (Timestamp res)"
  "Error (hit_done now res err) = (case err of None \<Rightarrow> Error res | Some e \<Rightarrow> e)"
  by (simp_all add: hit_done_def Let_def split: option.split)

lemma hit_identity:
  "Seq (fst (hit nr dr a name seq ts tr now)) = seq"
  "Timestamp (fst (hit nr dr a name seq ts tr now)) = ts"
  "Attack (fst (hit nr dr a name seq ts tr now)) = name"
  "Latency (fst (hit nr dr a name seq ts tr now)) = time_sub now ts"
  by (simp_all add: hit_def Let_def split: sum.split prod.split)

lemma hit_stops_iff: "snd (hit nr dr a name seq ts tr now) \<longleftrightarrow> isl tr"
  by (simp add: hit_def Let_def split: sum.split prod.split)

lemma hit_request_header [simp]:
  "header_get (rq_Header (hit_request a name seq req)) k =
    (if k = ''X-Vegeta-Seq'' then [format_uint seq]
     else if k = ''X-Vegeta-Attack'' \<and> name \<noteq> [] then [name]
     else header_get (rq_Header req) k)"
  by (simp add: hit_request_def Let_def)

section \<open>Properties\<close>

text \<open>
  The option list \<open>vegeta attack\<close> builds (in the order of \<open>attack.go\<close>) configures an
  attacker without a panic, except when both \<open>-h2c\<close> and \<open>-session-tickets\<close> are given: then
  \<open>SessionTickets\<close> asserts the transport that \<open>H2C\<close> replaced, and the command panics.
\<close>

theorem attack_options_panic_iff:
  "new_attacker (attack_options redirects timeout laddr tlsc workers maxWorkers keepalive connections
      maxConnections http2 h2c maxBody unixSocket proxyHdr chunked dnsTTL connectTo sessionTickets) = Inl p
    \<longleftrightarrow> h2c \<and> sessionTickets \<and> p = BadTypeAssertion"
  by (cases h2c; cases sessionTickets)
     (auto simp: new_attacker_def attack_options_def default_attacker_def with_transport_def if_transport_def)

text \<open>
  With \<open>Redirects(n)\<close> and \<open>n\<close> not negative the client follows at most \<open>n\<close> redirects, all of
  them when there are no more, and fails exactly when there are more; with \<open>NoFollow\<close> (-1) it
  follows none and never fails.
\<close>

theorem redirects_followed:
  "(0 \<le> sint n \<and> k < 2 ^ 62 \<longrightarrow>
      follow_redirects n 1 k = (min k (nat (sint n)), nat (sint n) < k)) \<and>
   follow_redirects (- 1) 1 k = (0, False)"
proof (intro conjI impI)
  assume "0 \<le> sint n \<and> k < 2 ^ 62"
  then show "follow_redirects n 1 k = (min k (nat (sint n)), nat (sint n) < k)"
    using follow_redirects_from [of n 1 k] by (auto simp: nat_less_iff)
next
  show "follow_redirects (- 1) 1 k = (0, False)" by (cases k) (simp_all add: check_redirect_def)
qed

theorem redirects_followed_witness:
  "follow_redirects 10 1 11 = (10, True) \<and> follow_redirects 10 1 10 = (10, False)"
  using redirects_followed [of 10 11] redirects_followed [of 10 10] by simp

text \<open>
  \<open>ConnectTo\<close> spreads the dials to a mapped address evenly: from a new attacker, the dials
  go through the destinations in turn, starting with the second, so every run of as many
  dials as there are destinations uses each position once. An address that is not mapped is
  dialed as it is.
\<close>

theorem connect_to_round_robin:
  assumes "map_of addr_map addr = Some addrs" and "addrs \<noteq> []"
  shows "connect_to_many (new_round_robins addr_map) addr k =
      Inr (map (\<lambda>j. addrs ! (j mod length addrs)) [1..<Suc k]) \<and>
    (\<forall>other. map_of addr_map other = None \<longrightarrow>
      connect_to (new_round_robins addr_map) other = Inr (new_round_robins addr_map, other))"
  using connect_to_many_from [of "new_round_robins addr_map" addr addrs 0 k] assms
  by (simp add: new_round_robins_def connect_to_def del: upt_Suc)

theorem connect_to_round_robin_witness:
  "connect_to_many (new_round_robins [(''a:80'', [''b:1'', ''c:2''])]) ''a:80'' 2 = Inr [''c:2'', ''b:1'']"
  using connect_to_round_robin [of "[(''a:80'', [''b:1'', ''c:2''])]" "''a:80''" "[''b:1'', ''c:2'']" 2]
  by (simp add: upt_rec)

text \<open>
  \<open>firstOfEachIPFamily\<close>, which filters its argument in place, is the pure function that
  takes the first IP address and the first one after it of the other family, skipping what
  is no address: overwriting the prefix it has read never changes what it reads next.
\<close>

theorem first_of_each_ip_family_in_place:
  "first_of_each_ip_family family ips = one_per_family family ips"
  using each_family_loop_0 [of 0 ips family False] by (simp add: first_of_each_ip_family_def)

text \<open>
  C24. What a hit records. It keeps the sequence number, timestamp and name it was given and
  measures the latency to its end; it stops the attack exactly when the targeter fails; it
  records no error exactly when the targeter, the request, the exchange and the reading of
  the body all succeed and the status code (kept in 16 bits) is in 200..399; a recorded body
  is what the body limit lets through; and bytes in are the bytes recorded.
\<close>

theorem hit_records:
  assumes "\<And>e. tr = Inl e \<Longrightarrow> target_error_text e \<noteq> []"
    and "\<And>m u b. new_request m u b \<noteq> Inl []" and "\<And>q. do_request q \<noteq> Inl []"
    and "\<And>q r. do_request q = Inr r \<Longrightarrow> rp_err r \<noteq> Some [] \<and> rp_Status r \<noteq> []"
  shows "case hit new_request do_request a name seq ts tr now of (res, stopped) \<Rightarrow>
    Seq res = seq \<and> Timestamp res = ts \<and> Attack res = name \<and> Latency res = time_sub now ts \<and>
    (stopped \<longleftrightarrow> isl tr) \<and>
    (Error res = [] \<longleftrightarrow>
      (\<exists>tgt req r. tr = Inr tgt \<and> target_request new_request tgt = Inr req \<and>
        do_request (hit_request a name seq req) = Inr r \<and> rp_err r = None \<and>
        http_ok (ucast (rp_StatusCode r)) \<and> Code res = ucast (rp_StatusCode r) \<and>
        Body res = (if a_maxBody a <s 0 then rp_body r else take (nat (sint (a_maxBody a))) (rp_body r)) \<and>
        BytesIn res = word_of_nat (length (Body res)) \<and> Headers res = rp_Header r))"
proof -
  note sum.split [split] prod.split [split]
  have req: "target_request new_request tgt \<noteq> Inl []" for tgt
    using assms(2) by (auto simp: target_request_def Let_def go_bind_Inl_iff)
  have body: "fst (read_body m r) = (if m <s 0 then rp_body r else take (nat (sint m)) (rp_body r))" for m r
    by (simp add: read_body_def Let_def)
  have err: "snd (read_body m r) = None \<or> snd (read_body m r) = rp_err r" for m r
    by (simp add: read_body_def Let_def)
  let ?h = "hit new_request do_request a name seq ts tr now"
  have "Error (fst ?h) = [] \<longleftrightarrow>
      (\<exists>tgt req r. tr = Inr tgt \<and> target_request new_request tgt = Inr req \<and>
        do_request (hit_request a name seq req) = Inr r \<and> rp_err r = None \<and>
        http_ok (ucast (rp_StatusCode r)) \<and> Code (fst ?h) = ucast (rp_StatusCode r) \<and>
        Body (fst ?h) = fst (read_body (a_maxBody a) r) \<and>
        BytesIn (fst ?h) = word_of_nat (length (Body (fst ?h))) \<and> Headers (fst ?h) = rp_Header r)"
  proof (cases tr)
    case (Inl e)
    with assms(1) show ?thesis by (simp add: hit_def)
  next
    case tgt: (Inr tgt)
    show ?thesis
    proof (cases "target_request new_request tgt")
      case (Inl e)
      with tgt req [of tgt] show ?thesis by (auto simp: hit_def)
    next
      case rq: (Inr rq)
      show ?thesis
      proof (cases "do_request (hit_request a name seq rq)")
        case (Inl e)
        with tgt rq assms(3) show ?thesis by (auto simp: hit_def Let_def)
      next
        case (Inr r)
        obtain b e where rb: "read_body (a_maxBody a) r = (b, e)" by force
        with err [of "a_maxBody a" r] have e: "e = None \<or> e = rp_err r" by simp
        from tgt rq Inr rb assms(4) [OF Inr] e show ?thesis
          by (cases "rp_err r"; cases e; simp add: hit_def Let_def zero_result_def)
      qed
    qed
  qed
  then show ?thesis
    using hit_identity [of new_request do_request a name seq ts tr now]
      hit_stops_iff [of new_request do_request a name seq ts tr now] body
    by (simp add: case_prod_beta)
qed

theorem hit_records_witness:
  "Error (fst (hit (\<lambda>m u b. Inr \<lparr>rq_Method = m, rq_URL = u, rq_Body = [], rq_Header = [], rq_Host = [],
        rq_ContentLength = 0, rq_TransferEncoding = []\<rparr>)
      (\<lambda>q. Inr \<lparr>rp_StatusCode = 404, rp_Status = ''404 Not Found'', rp_body = ''gone'', rp_err = None, rp_Header = None\<rparr>)
      default_attacker ''a'' 7 100 (Inr zero_target) 150)) \<noteq> []"
  (is "Error (fst (hit ?nr ?dr ?a ?n ?q ?t ?g ?e)) \<noteq> []")
proof -
  have "\<not> http_ok (ucast (404 :: i64))" by (simp add: http_ok_def)
  then show ?thesis
    using hit_records [where tr = ?g and new_request = ?nr and do_request = ?dr and a = ?a and name = ?n
        and seq = ?q and ts = ?t and now = ?e] by (auto simp: case_prod_beta)
qed

end
