(* ===== verification/Attack_Loop.thy ===== *)
theory Attack_Loop
  imports Attacker Const_Pacer "HOL-Library.Multiset"
begin

text \<open>
  \<open>Attacker.Attack\<close> of \<open>lib/attack.go\<close>: the goroutine that paces the attack and starts
  workers, the workers (\<open>Attacker.attack\<close>, with \<open>hit\<close> split at its critical section), the
  channels between them and \<open>Stop\<close>, as a step relation. One step is one goroutine moving;
  which one moves is not determined.

  Worker goroutines have no identity, so they form a multiset of what each is doing. The
  channels are unbuffered: a send is a joint step with a receiver. \<open>clock\<close> is the time since
  \<open>atk.began\<close>; it only moves forward. \<open>history\<close>, which the code does not have, records the
  sequence number and timestamp of every hit in the order of the critical sections.
\<close>

section \<open>States\<close>

datatype pacer_pc =
    Looping             \<comment> \<open>at the top of the \<open>for\<close>\<close>
  | Sleeping int        \<comment> \<open>in \<open>time.Sleep\<close> until the given time\<close>
  | Selecting           \<comment> \<open>at the \<open>select\<close> with a \<open>default\<close>\<close>
  | Sending             \<comment> \<open>at the last \<open>select\<close>\<close>
  | Closing             \<comment> \<open>returned: in the deferred function, before \<open>close(ticks)\<close>\<close>
  | Draining            \<comment> \<open>at \<open>wg.Wait()\<close>\<close>
  | ClosingResults      \<comment> \<open>before \<open>close(results)\<close>\<close>
  | Stopping            \<comment> \<open>before \<open>a.Stop()\<close>\<close>
  | Finished

datatype worker =
    Idle                \<comment> \<open>on its way to the receive on \<open>ticks\<close>\<close>
  | Parked              \<comment> \<open>blocked in that receive\<close>
  | Ticked              \<comment> \<open>has a tick, before the critical section of \<open>hit\<close>\<close>
  | Hitting u64 time    \<comment> \<open>in \<open>hit\<close> with its sequence number and timestamp\<close>
  | Reporting result    \<comment> \<open>at the send on \<open>results\<close>\<close>
  | Done

record loop_state =
  clock :: int
  pc :: pacer_pc
  n_workers :: u64
  count :: u64
  stop_closed :: bool
  ticks_closed :: bool
  results_closed :: bool
  wg :: nat
  workers :: "worker multiset"
  next_seq :: u64
  delivered :: "result list"
  history :: "(u64 \<times> time) list"

record attack_config =
  c_attacker :: attacker
  c_name :: string
  c_began :: time
  c_du :: duration
  c_pace :: "duration \<Rightarrow> u64 \<Rightarrow> (duration \<times> bool) go"
  c_new_request :: "string \<Rightarrow> string \<Rightarrow> string option \<Rightarrow> string + http_request"

definition init_state :: "attack_config \<Rightarrow> bool \<Rightarrow> loop_state" where
  "init_state c stopped =
    (let n = (if a_maxWorkers (c_attacker c) < a_workers (c_attacker c)
              then a_maxWorkers (c_attacker c) else a_workers (c_attacker c)) in
     \<lparr>clock = 0, pc = Looping, n_workers = n, count = 0, stop_closed = stopped, ticks_closed = False,
      results_closed = False, wg = unat n, workers = replicate_mset (unat n) Idle, next_seq = 0,
      delivered = [], history = []\<rparr>)"

text \<open>\<open>time.Since(atk.began)\<close>, the time of day, and the timestamp of a hit.\<close>

definition now :: "attack_config \<Rightarrow> loop_state \<Rightarrow> time" where
  "now c s = c_began c + clock s"

definition elapsed :: "attack_config \<Rightarrow> loop_state \<Rightarrow> duration" where
  "elapsed c s = time_sub (now c s) (c_began c)"

definition timestamp :: "attack_config \<Rightarrow> loop_state \<Rightarrow> time" where
  "timestamp c s = time_add (c_began c) (elapsed c s)"

definition over :: "attack_config \<Rightarrow> loop_state \<Rightarrow> bool" where
  "over c s \<longleftrightarrow> 0 <s c_du c \<and> c_du c <s elapsed c s"

section \<open>Steps\<close>

text \<open>The steps of the program itself.\<close>

inductive act :: "attack_config \<Rightarrow> loop_state \<Rightarrow> loop_state \<Rightarrow> bool" for c where
  duration_over: "pc s = Looping \<Longrightarrow> over c s \<Longrightarrow> act c s (s\<lparr>pc := Closing\<rparr>)"
| pacer_stops: "pc s = Looping \<Longrightarrow> \<not> over c s \<Longrightarrow> c_pace c (elapsed c s) (count s) = Inr (w, True) \<Longrightarrow>
    act c s (s\<lparr>pc := Closing\<rparr>)"
| pacer_waits: "pc s = Looping \<Longrightarrow> \<not> over c s \<Longrightarrow> c_pace c (elapsed c s) (count s) = Inr (w, False) \<Longrightarrow>
    act c s (s\<lparr>pc := Sleeping (clock s + max 0 (sint w))\<rparr>)"
| wake_up: "pc s = Sleeping t \<Longrightarrow> t \<le> clock s \<Longrightarrow>
    act c s (s\<lparr>pc := (if n_workers s < a_maxWorkers (c_attacker c) then Selecting else Sending)\<rparr>)"
| send_tick: "pc s \<in> {Selecting, Sending} \<Longrightarrow> workers s = add_mset Parked W \<Longrightarrow>
    act c s (s\<lparr>workers := add_mset Ticked W, count := count s + 1, pc := Looping\<rparr>)"
| see_stop: "pc s \<in> {Selecting, Sending} \<Longrightarrow> stop_closed s \<Longrightarrow> act c s (s\<lparr>pc := Closing\<rparr>)"
| start_worker: "pc s = Selecting \<Longrightarrow> Parked \<notin># workers s \<Longrightarrow> \<not> stop_closed s \<Longrightarrow>
    act c s (s\<lparr>n_workers := n_workers s + 1, wg := wg s + 1, workers := add_mset Idle (workers s),
      pc := Sending\<rparr>)"
| close_ticks: "pc s = Closing \<Longrightarrow> act c s (s\<lparr>ticks_closed := True, pc := Draining\<rparr>)"
| wait_workers: "pc s = Draining \<Longrightarrow> wg s = 0 \<Longrightarrow> act c s (s\<lparr>pc := ClosingResults\<rparr>)"
| close_results: "pc s = ClosingResults \<Longrightarrow> act c s (s\<lparr>results_closed := True, pc := Stopping\<rparr>)"
| final_stop: "pc s = Stopping \<Longrightarrow> act c s (s\<lparr>stop_closed := True, pc := Finished\<rparr>)"
| park: "workers s = add_mset Idle W \<Longrightarrow> \<not> ticks_closed s \<Longrightarrow> act c s (s\<lparr>workers := add_mset Parked W\<rparr>)"
| leave: "workers s = add_mset w W \<Longrightarrow> w \<in> {Idle, Parked} \<Longrightarrow> ticks_closed s \<Longrightarrow>
    act c s (s\<lparr>workers := add_mset Done W, wg := wg s - 1\<rparr>)"
| begin_hit: "workers s = add_mset Ticked W \<Longrightarrow>
    act c s (s\<lparr>workers := add_mset (Hitting (next_seq s) (timestamp c s)) W, next_seq := next_seq s + 1,
      history := history s @ [(next_seq s, timestamp c s)]\<rparr>)"
| end_hit: "workers s = add_mset (Hitting q ts) W \<Longrightarrow>
    hit (c_new_request c) do_request (c_attacker c) (c_name c) q ts tr (now c s) = (r, stops) \<Longrightarrow>
    act c s (s\<lparr>workers := add_mset (Reporting r) W, stop_closed := stop_closed s \<or> stops\<rparr>)"
| deliver: "workers s = add_mset (Reporting r) W \<Longrightarrow> \<not> results_closed s \<Longrightarrow>
    act c s (s\<lparr>workers := add_mset Idle W, delivered := delivered s @ [r]\<rparr>)"

text \<open>The rest of the world: time passes, and anyone may call \<open>Stop\<close>.\<close>

inductive step :: "attack_config \<Rightarrow> loop_state \<Rightarrow> loop_state \<Rightarrow> bool" for c where
  program: "act c s s' \<Longrightarrow> step c s s'"
| time_passes: "clock s \<le> t \<Longrightarrow> step c s (s\<lparr>clock := t\<rparr>)"
| stop_called: "step c s (s\<lparr>stop_closed := True\<rparr>)"

inductive reachable :: "attack_config \<Rightarrow> loop_state \<Rightarrow> bool" for c where
  start: "reachable c (init_state c stopped)"
| more: "reachable c s \<Longrightarrow> step c s s' \<Longrightarrow> reachable c s'"

text \<open>The panics the code could meet: a division by zero in the pacer, a send on the closed
  results channel, a negative wait group.\<close>

definition pace_panics :: "attack_config \<Rightarrow> loop_state \<Rightarrow> bool" where
  "pace_panics c s \<longleftrightarrow>
    pc s = Looping \<and> \<not> over c s \<and> isl (c_pace c (elapsed c s) (count s))"

definition sends_on_closed :: "loop_state \<Rightarrow> bool" where
  "sends_on_closed s \<longleftrightarrow> results_closed s \<and> (\<exists>r. Reporting r \<in># workers s)"

inductive_cases actE: "act c s s'"
inductive_cases stepE: "step c s s'"

lemma reachable_induct [consumes 1, case_names start act time stop]:
  assumes "reachable c s"
    and "\<And>stopped. P (init_state c stopped)"
    and "\<And>s s'. reachable c s \<Longrightarrow> P s \<Longrightarrow> act c s s' \<Longrightarrow> P s'"
    and "\<And>s t. reachable c s \<Longrightarrow> P s \<Longrightarrow> clock s \<le> t \<Longrightarrow> P (s\<lparr>clock := t\<rparr>)"
    and "\<And>s. reachable c s \<Longrightarrow> P s \<Longrightarrow> P (s\<lparr>stop_closed := True\<rparr>)"
  shows "P s"
  using assms(1)
proof (induction rule: reachable.induct)
  case (start stopped)
  show ?case by (rule assms(2))
next
  case (more s s')
  from more.hyps(2) show ?case
    by (cases rule: step.cases) (use assms(3-5) more in blast)+
qed

section \<open>Workers and channels\<close>

definition live :: "worker multiset \<Rightarrow> nat" where
  "live W = size (filter_mset (\<lambda>w. w \<noteq> Done) W)"

definition chan_inv :: "attack_config \<Rightarrow> loop_state \<Rightarrow> bool" where
  "chan_inv c s \<longleftrightarrow>
    wg s = live (workers s) \<and>
    size (workers s) = unat (n_workers s) \<and>
    n_workers s \<le> a_maxWorkers (c_attacker c) \<and>
    (ticks_closed s \<longleftrightarrow> pc s \<in> {Draining, ClosingResults, Stopping, Finished}) \<and>
    (results_closed s \<longleftrightarrow> pc s \<in> {Stopping, Finished}) \<and>
    (pc s \<in> {ClosingResults, Stopping, Finished} \<longrightarrow> live (workers s) = 0) \<and>
    (pc s = Selecting \<longrightarrow> n_workers s < a_maxWorkers (c_attacker c)) \<and>
    (pc s = Sending \<longrightarrow> a_maxWorkers (c_attacker c) \<noteq> 0 \<longrightarrow> n_workers s \<noteq> 0) \<and>
    (\<not> ticks_closed s \<longrightarrow> Done \<notin># workers s)"

lemma live_simps [simp]:
  "live {#} = 0"
  "live (add_mset w W) = (if w = Done then live W else Suc (live W))"
  by (simp_all add: live_def)

lemma live_0_iff: "live W = 0 \<longleftrightarrow> (\<forall>w \<in># W. w = Done)"
  by (induction W) auto

lemma live_replicate: "live (replicate_mset n Idle) = n"
  by (induction n) simp_all

lemma chan_inv_init: "chan_inv c (init_state c stopped)"
  by (auto simp: chan_inv_def init_state_def Let_def live_replicate not_less dest: in_replicate_mset [THEN iffD1])

lemma live_0_size: "live W = 0 \<Longrightarrow> W = replicate_mset (size W) Done"
  by (induction W) (auto split: if_splits)

text \<open>Words: one more worker below the maximum.\<close>

lemma word_inc_below:
  fixes n m :: u64
  assumes "n < m"
  shows "unat (n + 1) = Suc (unat n)" and "n + 1 \<le> m" and "n + 1 \<noteq> 0"
proof -
  have "unat n < unat m" and "unat m < 2 ^ 64" using assms u64_unat_upper by (simp_all add: word_less_nat_alt)
  then have "unat n + 1 < 2 ^ 64" by linarith
  then show "unat (n + 1) = Suc (unat n)" by (simp add: unat_word_ariths)
  then show "n + 1 \<noteq> 0" by (metis nat.distinct(1) unsigned_0)
  show "n + 1 \<le> m" using assms by (rule inc_le)
qed

lemma chan_inv_step:
  assumes "chan_inv c s" and "act c s s'"
  shows "chan_inv c s'"
  using assms(2)
proof cases
  case duration_over
  with assms(1) show ?thesis by (simp add: chan_inv_def)
next
  case pacer_stops
  with assms(1) show ?thesis by (simp add: chan_inv_def)
next
  case pacer_waits
  with assms(1) show ?thesis by (simp add: chan_inv_def)
next
  case wake_up
  with assms(1) show ?thesis by (auto simp: chan_inv_def word_gt_0)
next
  case send_tick
  with assms(1) show ?thesis by (auto simp: chan_inv_def)
next
  case see_stop
  then show ?thesis using assms(1) by (elim insertE emptyE) (simp_all add: chan_inv_def)
next
  case start_worker
  then show ?thesis using assms(1) word_inc_below [of "n_workers s" "a_maxWorkers (c_attacker c)"]
    by (simp add: chan_inv_def)
next
  case close_ticks
  with assms(1) show ?thesis by (simp add: chan_inv_def)
next
  case wait_workers
  with assms(1) show ?thesis by (simp add: chan_inv_def)
next
  case close_results
  with assms(1) show ?thesis by (simp add: chan_inv_def)
next
  case final_stop
  with assms(1) show ?thesis by (simp add: chan_inv_def)
next
  case park
  show ?thesis unfolding park(1) using assms(1) park(2) by (simp add: chan_inv_def)
next
  case leave
  then show ?thesis using assms(1) by (elim insertE emptyE) (simp_all add: chan_inv_def, blast+)
next
  case begin_hit
  show ?thesis unfolding begin_hit(1) using assms(1) begin_hit(2) by (simp add: chan_inv_def)
next
  case end_hit
  show ?thesis unfolding end_hit(1) using assms(1) end_hit(2) by (simp add: chan_inv_def)
next
  case deliver
  show ?thesis unfolding deliver(1) using assms(1) deliver(2) by (simp add: chan_inv_def)
qed

lemma reachable_chan_inv: "reachable c s \<Longrightarrow> chan_inv c s"
proof (induction rule: reachable_induct)
  case (start stopped)
  show ?case by (rule chan_inv_init)
next
  case (act s s')
  then show ?case by (blast intro: chan_inv_step)
qed (simp_all add: chan_inv_def)

section \<open>Sequence numbers and timestamps\<close>

fun hit_of :: "worker \<Rightarrow> (u64 \<times> time) multiset" where
  "hit_of (Hitting q ts) = {#(q, ts)#}"
| "hit_of (Reporting r) = {#(Seq r, Timestamp r)#}"
| "hit_of _ = {#}"

definition hits_of :: "worker multiset \<Rightarrow> (u64 \<times> time) multiset" where
  "hits_of W = \<Sum>\<^sub># (image_mset hit_of W)"

definition result_ids :: "result list \<Rightarrow> (u64 \<times> time) multiset" where
  "result_ids rs = image_mset (\<lambda>r. (Seq r, Timestamp r)) (mset rs)"

lemma hits_of_simps [simp]:
  "hits_of {#} = {#}"
  "hits_of (add_mset w W) = hit_of w + hits_of W"
  by (simp_all add: hits_of_def)

lemma hits_of_replicate: "hit_of w = {#} \<Longrightarrow> hits_of (replicate_mset n w) = {#}"
  by (induction n) simp_all

lemma result_ids_simps [simp]:
  "result_ids [] = {#}"
  "result_ids (rs @ [r]) = add_mset (Seq r, Timestamp r) (result_ids rs)"
  by (simp_all add: result_ids_def)

definition numbered :: "(u64 \<times> time) list \<Rightarrow> bool" where
  "numbered h \<longleftrightarrow> map fst h = map of_nat [0..<length h] \<and> sorted (map snd h)"

definition seq_inv :: "attack_config \<Rightarrow> loop_state \<Rightarrow> bool" where
  "seq_inv c s \<longleftrightarrow>
    numbered (history s) \<and>
    (\<forall>t \<in> snd ` set (history s). t \<le> timestamp c s) \<and>
    next_seq s = of_nat (length (history s)) \<and>
    mset (history s) = result_ids (delivered s) + hits_of (workers s) \<and>
    count s = of_nat (length (history s) + Multiset.count (workers s) Ticked)"

lemma timestamp_clock: "timestamp c s = c_began c + max (- (2 ^ 63)) (min (2 ^ 63 - 1) (clock s))"
  by (simp add: timestamp_def time_add_def elapsed_def now_def sint_time_sub)

lemma timestamp_mono: "clock s \<le> clock s' \<Longrightarrow> timestamp c s \<le> timestamp c s'"
  by (simp add: timestamp_clock)

lemma timestamp_cong: "clock s = clock s' \<Longrightarrow> timestamp c s = timestamp c s'"
  by (simp add: timestamp_clock)

lemma act_clock: "act c s s' \<Longrightarrow> clock s' = clock s"
  by (erule act.cases) simp_all

lemma numbered_snoc:
  "numbered h \<Longrightarrow> \<forall>t \<in> snd ` set h. t \<le> ts \<Longrightarrow> numbered (h @ [(of_nat (length h), ts)])"
  by (auto simp: numbered_def sorted_append)

lemma seq_inv_act:
  assumes "seq_inv c s" and "act c s s'"
  shows "seq_inv c s'"
proof -
  have t: "timestamp c s' = timestamp c s" using act_clock [OF assms(2)] by (rule timestamp_cong)
  from assms(2) show ?thesis
  proof cases
    case send_tick
    with assms(1) t show ?thesis by (simp add: seq_inv_def)
  next
    case start_worker
    with assms(1) t show ?thesis by (simp add: seq_inv_def)
  next
    case park
    with assms(1) t show ?thesis by (simp add: seq_inv_def)
  next
    case leave
    then show ?thesis using assms(1) t by (elim insertE emptyE) (simp_all add: seq_inv_def)
  next
    case begin_hit
    with assms(1) t show ?thesis by (simp add: seq_inv_def numbered_snoc)
  next
    case (end_hit q ts W dr tr r stops)
    then have "Seq r = q" "Timestamp r = ts"
      using hit_identity(1,2) [of "c_new_request c" dr "c_attacker c" "c_name c" q ts tr "now c s"] by simp_all
    with end_hit assms(1) t show ?thesis by (simp add: seq_inv_def)
  next
    case deliver
    with assms(1) t show ?thesis by (simp add: seq_inv_def)
  qed (use assms(1) t in \<open>simp_all add: seq_inv_def\<close>)
qed

lemma reachable_seq_inv: "reachable c s \<Longrightarrow> seq_inv c s"
proof (induction rule: reachable_induct)
  case (start stopped)
  show ?case
    by (simp add: seq_inv_def init_state_def Let_def numbered_def hits_of_replicate)
next
  case (act s s')
  then show ?case by (blast intro: seq_inv_act)
next
  case (time s t)
  then have "timestamp c s \<le> timestamp c (s\<lparr>clock := t\<rparr>)" by (intro timestamp_mono) simp
  with time.IH show ?case by (auto simp: seq_inv_def intro: order_trans)
next
  case (stop s)
  then show ?case using timestamp_cong [of "s\<lparr>stop_closed := True\<rparr>" s c] by (simp add: seq_inv_def)
qed

section \<open>Rate\<close>

definition ticks_sent :: "loop_state \<Rightarrow> nat" where
  "ticks_sent s = length (history s) + Multiset.count (workers s) Ticked"

text \<open>Between the answer of the pacer and the tick.\<close>

fun committed :: "pacer_pc \<Rightarrow> bool" where
  "committed (Sleeping t) \<longleftrightarrow> True"
| "committed Selecting \<longleftrightarrow> True"
| "committed Sending \<longleftrightarrow> True"
| "committed _ \<longleftrightarrow> False"

lemma sint_elapsed: "0 \<le> clock s \<Longrightarrow> sint (elapsed c s) = min (2 ^ 63 - 1) (clock s)"
  by (simp add: elapsed_def now_def sint_time_sub)

lemma reachable_clock: "reachable c s \<Longrightarrow> 0 \<le> clock s"
  by (induction rule: reachable_induct) (simp_all add: init_state_def Let_def act_clock)

lemma unat_count:
  assumes "reachable c s" and "ticks_sent s < 2 ^ 64"
  shows "unat (count s) = ticks_sent s"
proof -
  have "count s = of_nat (ticks_sent s)"
    using reachable_seq_inv [OF assms(1)] unfolding seq_inv_def ticks_sent_def by blast
  then show ?thesis using assms(2) by (simp add: unat_of_nat)
qed

context pacer_contract
begin

definition rate_inv :: "attack_config \<Rightarrow> loop_state \<Rightarrow> bool" where
  "rate_inv c s \<longleftrightarrow>
    (ticks_sent s \<le> limit \<longrightarrow> enat (ticks_sent s) \<le> budget (clock s)) \<and>
    (\<forall>t. ticks_sent s < limit \<longrightarrow> pc s = Sleeping t \<longrightarrow> enat (ticks_sent s + 1) \<le> budget t \<and> 0 \<le> t) \<and>
    (ticks_sent s < limit \<longrightarrow> pc s \<in> {Selecting, Sending} \<longrightarrow> enat (ticks_sent s + 1) \<le> budget (clock s))"

lemma rate_inv_waits:
  assumes "reachable c s" and "c_pace c = pace" and "limit \<le> 2 ^ 64" and "ticks_sent s < limit"
    and "c_pace c (elapsed c s) (count s) = Inr (w, False)"
  shows "enat (ticks_sent s + 1) \<le> budget (clock s + max 0 (sint w))"
proof -
  have e: "0 \<le> sint (elapsed c s)" "sint (elapsed c s) \<le> clock s"
    using reachable_clock [OF assms(1)] by (simp_all add: sint_elapsed)
  have "unat (count s) = ticks_sent s" using assms(3,4) by (intro unat_count [OF assms(1)]) simp
  then show ?thesis
    using sent_after_wait_on_schedule [of "elapsed c s" "count s" w "clock s + max 0 (sint w)"] e assms
    by simp
qed

lemma rate_inv_act:
  assumes "reachable c s" and "c_pace c = pace" and "limit \<le> 2 ^ 64" and "rate_inv c s" and "act c s s'"
  shows "rate_inv c s'"
proof -
  have clk: "0 \<le> clock s" by (rule reachable_clock [OF assms(1)])
  from assms(5) show ?thesis
  proof cases
    case (pacer_waits w)
    then have "ticks_sent s' = ticks_sent s" "clock s' = clock s" by (simp_all add: ticks_sent_def)
    moreover have "ticks_sent s < limit \<Longrightarrow> enat (ticks_sent s + 1) \<le> budget (clock s + max 0 (sint w))"
      by (rule rate_inv_waits [OF assms(1-3) _ pacer_waits(4)])
    ultimately show ?thesis using assms(4) pacer_waits clk by (simp add: rate_inv_def)
  next
    case (wake_up t)
    then have "ticks_sent s' = ticks_sent s" "clock s' = clock s" by (simp_all add: ticks_sent_def)
    moreover have "ticks_sent s < limit \<Longrightarrow> enat (ticks_sent s + 1) \<le> budget (clock s)"
      using assms(4) wake_up budget_mono [of t "clock s"] by (auto simp: rate_inv_def)
    ultimately show ?thesis using assms(4) wake_up by (simp add: rate_inv_def)
  next
    case (send_tick W)
    then have "ticks_sent s' = ticks_sent s + 1" "clock s' = clock s" "pc s' = Looping"
      by (simp_all add: ticks_sent_def)
    with assms(4) send_tick(2) show ?thesis by (auto simp: rate_inv_def)
  next
    case start_worker
    then have "ticks_sent s' = ticks_sent s" "clock s' = clock s" by (simp_all add: ticks_sent_def)
    with assms(4) start_worker show ?thesis by (simp add: rate_inv_def)
  next
    case (leave w W)
    then have "ticks_sent s' = ticks_sent s" "clock s' = clock s" "pc s' = pc s"
      by (elim insertE emptyE; simp add: ticks_sent_def)+
    with assms(4) show ?thesis by (simp add: rate_inv_def)
  qed (use assms(4) in \<open>simp_all add: rate_inv_def ticks_sent_def\<close>)
qed

lemma reachable_rate_inv:
  assumes "reachable c s" and "c_pace c = pace" and "limit \<le> 2 ^ 64"
  shows "rate_inv c s"
  using assms(1)
proof (induction rule: reachable_induct)
  case (start stopped)
  show ?case by (simp add: rate_inv_def init_state_def Let_def ticks_sent_def zero_enat_def [symmetric])
next
  case (act s s')
  then show ?case using rate_inv_act assms(2,3) by blast
next
  case (time s t)
  have "budget (clock s) \<le> budget t" using reachable_clock [OF time.hyps(1)] time.hyps(2) by (rule budget_mono)
  with time.IH show ?case by (auto simp: rate_inv_def ticks_sent_def intro: order_trans)
next
  case (stop s)
  then show ?case by (simp add: rate_inv_def ticks_sent_def)
qed

lemma rate_bounded:
  assumes "reachable c s" and "c_pace c = pace" and "limit \<le> 2 ^ 64" and "ticks_sent s \<le> limit"
  shows "enat (ticks_sent s) \<le> budget (clock s)"
  using reachable_rate_inv [OF assms(1-3)] assms(4) by (simp add: rate_inv_def)

text \<open>With a duration, at most one hit more than its schedule.\<close>

lemma duration_bounded:
  assumes "reachable c s" and "c_pace c = pace" and "limit \<le> 2 ^ 64" and "ticks_sent s \<le> limit"
    and "0 < sint (c_du c)" and "sint (c_du c) < 2 ^ 63 - 1"
  shows "enat (ticks_sent s) \<le> budget (sint (c_du c)) + 1 \<and>
    (committed (pc s) \<longrightarrow> enat (ticks_sent s) \<le> budget (sint (c_du c)))"
  using assms(1,4)
proof (induction rule: reachable_induct)
  case (start stopped)
  show ?case by (simp add: init_state_def Let_def ticks_sent_def zero_enat_def [symmetric])
next
  case (act s s')
  let ?b = "budget (sint (c_du c))"
  have less: "enat n \<le> ?b \<Longrightarrow> enat (Suc n) \<le> ?b + 1" for n
    by (cases ?b) (simp_all add: one_enat_def)
  from act.hyps(2) show ?case
  proof cases
    case (pacer_waits w)
    then have same: "ticks_sent s' = ticks_sent s" by (simp add: ticks_sent_def)
    have "clock s \<le> sint (c_du c)"
      using pacer_waits(3) assms(5,6) reachable_clock [OF act.hyps(1)]
      by (auto simp: over_def word_sless_alt sint_elapsed)
    then have "enat (ticks_sent s) \<le> ?b"
      using rate_bounded [OF act.hyps(1) assms(2,3)] act.prems same reachable_clock [OF act.hyps(1)]
        budget_mono [of "clock s" "sint (c_du c)"] by (auto intro: order_trans)
    with act same show ?thesis by simp
  next
    case (send_tick W)
    then have "ticks_sent s' = Suc (ticks_sent s)" "pc s' = Looping" by (simp_all add: ticks_sent_def)
    with act send_tick(2) less [of "ticks_sent s"] show ?thesis by auto
  next
    case (wake_up t)
    then have "ticks_sent s' = ticks_sent s" by (simp add: ticks_sent_def)
    with act wake_up show ?thesis by auto
  next
    case start_worker
    then have "ticks_sent s' = ticks_sent s" by (simp add: ticks_sent_def)
    with act start_worker show ?thesis by auto
  next
    case (leave w W)
    then have "ticks_sent s' = ticks_sent s" "pc s' = pc s"
      by (elim insertE emptyE; simp add: ticks_sent_def)+
    with act show ?thesis by simp
  qed (use act in \<open>simp_all add: ticks_sent_def\<close>)
qed (simp_all add: ticks_sent_def)

end

section \<open>Progress and shutdown\<close>

lemma chan_inv_live_worker: "chan_inv c s \<Longrightarrow> 0 < wg s \<Longrightarrow> \<exists>w W. workers s = add_mset w W \<and> w \<noteq> Done"
proof -
  assume "chan_inv c s" and "0 < wg s"
  then have "live (workers s) \<noteq> 0" by (simp add: chan_inv_def)
  then obtain w where "w \<in># workers s" "w \<noteq> Done" by (auto simp: live_0_iff)
  then show ?thesis by (metis multi_member_split)
qed

text \<open>A worker that is not parked on an open channel, and not gone, can move.\<close>

lemma worker_moves:
  assumes "workers s = add_mset w W" and "w \<noteq> Done" and "\<not> results_closed s"
    and "w = Parked \<longrightarrow> ticks_closed s"
  shows "\<exists>s'. act c s s'"
proof (cases w)
  case Idle
  with assms(1) park [of s W c] leave [of s w W c] show ?thesis by blast
next
  case Parked
  with assms leave [of s w W c] show ?thesis by blast
next
  case Ticked
  with assms(1) begin_hit [of s W c] show ?thesis by blast
next
  case (Hitting q ts)
  with assms(1) show ?thesis using end_hit [of s q ts W c] by (metis surj_pair)
next
  case (Reporting r)
  with assms show ?thesis using deliver [of s r W c] by blast
qed (use assms in simp)

lemma looping_moves:
  assumes "pc s = Looping" and "\<not> pace_panics c s"
  shows "\<exists>s'. act c s s'"
proof (cases "over c s")
  case True
  with assms(1) duration_over show ?thesis by blast
next
  case False
  with assms obtain w b where "c_pace c (elapsed c s) (count s) = Inr (w, b)"
    by (cases "c_pace c (elapsed c s) (count s)") (auto simp: pace_panics_def)
  with assms(1) False show ?thesis using pacer_stops [of s c w] pacer_waits [of s c w] by (cases b) auto
qed

lemma sending_moves:
  assumes "chan_inv c s" and "pc s = Sending" and "a_maxWorkers (c_attacker c) \<noteq> 0"
  shows "\<exists>s'. act c s s'"
proof -
  have nd: "Done \<notin># workers s" and rc: "\<not> results_closed s" and "n_workers s \<noteq> 0"
    and sz: "size (workers s) = unat (n_workers s)"
    using assms by (simp_all add: chan_inv_def)
  then have "workers s \<noteq> {#}" by (auto simp: unat_eq_0)
  then obtain w W where w: "workers s = add_mset w W" by (meson multiset_cases)
  then show ?thesis
    using nd rc assms(2) send_tick [of s W c] worker_moves [of s w W c] by (cases "w = Parked") auto
qed

lemma selecting_moves: "pc s = Selecting \<Longrightarrow> \<exists>s'. act c s s'"
  using send_tick [of s _ c] see_stop [of s c] start_worker [of s c]
  by (metis insertI1 multi_member_split)

text \<open>The work left once the ticks are over: steps of the workers and of the deferred function.\<close>

fun worker_work :: "worker \<Rightarrow> nat" where
  "worker_work Idle = 2"
| "worker_work Parked = 1"
| "worker_work Ticked = 5"
| "worker_work (Hitting q ts) = 4"
| "worker_work (Reporting r) = 3"
| "worker_work Done = 0"

fun pacer_work :: "pacer_pc \<Rightarrow> nat" where
  "pacer_work Closing = 4"
| "pacer_work Draining = 3"
| "pacer_work ClosingResults = 2"
| "pacer_work Stopping = 1"
| "pacer_work _ = 0"

definition shutdown_work :: "loop_state \<Rightarrow> nat" where
  "shutdown_work s = pacer_work (pc s) + (\<Sum>w \<in># workers s. worker_work w)"

definition shutting_down :: "loop_state \<Rightarrow> bool" where
  "shutting_down s \<longleftrightarrow> pc s \<in> {Closing, Draining, ClosingResults, Stopping, Finished}"

lemma shutdown_step:
  assumes "shutting_down s" and "act c s s'"
  shows "shutting_down s' \<and> shutdown_work s' < shutdown_work s"
  using assms(2)
proof cases
  case (leave w W)
  then show ?thesis using assms(1)
    by (elim insertE emptyE) (simp_all add: shutting_down_def shutdown_work_def)
qed (use assms(1) in \<open>auto simp: shutting_down_def shutdown_work_def\<close>)

lemma shutdown_moves:
  assumes "chan_inv c s" and "shutting_down s" and "pc s \<noteq> Finished"
  shows "\<exists>s'. act c s s'"
proof (cases "pc s = Draining \<and> wg s \<noteq> 0")
  case True
  then obtain w W where "workers s = add_mset w W" "w \<noteq> Done"
    using chan_inv_live_worker [OF assms(1)] by auto
  with True assms(1) show ?thesis by (intro worker_moves) (auto simp: chan_inv_def)
next
  case False
  with assms show ?thesis
    using close_ticks [of s c] wait_workers [of s c] close_results [of s c] final_stop [of s c]
    by (auto simp: shutting_down_def)
qed

lemma shutdown_reaches_finish:
  assumes "chan_inv c s" and "shutting_down s"
  shows "\<exists>s'. (act c)\<^sup>*\<^sup>* s s' \<and> pc s' = Finished"
  using assms
proof (induction "shutdown_work s" arbitrary: s rule: less_induct)
  case less
  show ?case
  proof (cases "pc s = Finished")
    case False
    then obtain s1 where s1: "act c s s1" using shutdown_moves less.prems by blast
    then obtain s' where "(act c)\<^sup>*\<^sup>* s1 s'" "pc s' = Finished"
      using less.hyps [of s1] shutdown_step [OF less.prems(2) s1] chan_inv_step [OF less.prems(1) s1] by blast
    with s1 show ?thesis by (meson converse_rtranclp_into_rtranclp)
  qed blast
qed

lemma shutdown_run_length: "(act c ^^ n) s s' \<Longrightarrow> shutting_down s \<Longrightarrow> n + shutdown_work s' \<le> shutdown_work s"
proof (induction n arbitrary: s')
  case (Suc n)
  then obtain s1 where s1: "(act c ^^ n) s s1" "act c s1 s'" by auto
  have "shutting_down s1" using s1(1) Suc.prems(2)
  proof (induction n arbitrary: s1)
    case (Suc m)
    then show ?case using shutdown_step by (metis relpowp_Suc_E)
  qed simp
  with s1 Suc.IH [of s1] Suc.prems(2) shutdown_step [of s1 c s'] show ?case by simp
qed simp

lemma finished_complete:
  assumes "reachable c s" and "pc s = Finished"
  shows "mset (history s) = result_ids (delivered s)" and "count s = of_nat (length (history s))"
proof -
  have "live (workers s) = 0" using reachable_chan_inv [OF assms(1)] assms(2) by (simp add: chan_inv_def)
  then have W: "workers s = replicate_mset (size (workers s)) Done" by (rule live_0_size)
  then have "hits_of (workers s) = {#}" by (metis hits_of_replicate hit_of.simps(6))
  moreover have "Multiset.count (workers s) Ticked = 0" by (subst W) simp
  ultimately show "mset (history s) = result_ids (delivered s)" "count s = of_nat (length (history s))"
    using reachable_seq_inv [OF assms(1)] by (simp_all add: seq_inv_def)
qed

lemma names_act:
  assumes "act c s s'" and "\<forall>r. Reporting r \<in># workers s \<longrightarrow> Attack r = c_name c"
    and "\<forall>r \<in> set (delivered s). Attack r = c_name c"
  shows "(\<forall>r. Reporting r \<in># workers s' \<longrightarrow> Attack r = c_name c) \<and> (\<forall>r \<in> set (delivered s'). Attack r = c_name c)"
  using assms(1)
proof cases
  case (end_hit q ts W do_request tr r stops)
  then have "Attack r = c_name c"
    using hit_identity [of "c_new_request c" do_request "c_attacker c" "c_name c" q ts tr "now c s"] by simp
  with end_hit assms(2,3) show ?thesis by auto
qed (use assms(2,3) in auto)

lemma reachable_names:
  "reachable c s \<Longrightarrow>
    (\<forall>r. Reporting r \<in># workers s \<longrightarrow> Attack r = c_name c) \<and> (\<forall>r \<in> set (delivered s). Attack r = c_name c)"
proof (induction rule: reachable_induct)
  case (start stopped)
  show ?case by (simp add: init_state_def Let_def)
next
  case (act s s')
  then show ?case using names_act [OF act.hyps(2)] by blast
qed simp_all

section \<open>A short attack\<close>

text \<open>
  One worker, one hit, whose targeter has no target: the runs that witness the properties.
\<close>

definition demo_pace :: "duration \<Rightarrow> u64 \<Rightarrow> (duration \<times> bool) go" where
  "demo_pace e h = Inr (0, 0 < h)"

definition demo_config :: attack_config where
  "demo_config = \<lparr>c_attacker = default_attacker\<lparr>a_workers := 1, a_maxWorkers := 1\<rparr>, c_name = ''demo'',
    c_began = unix_epoch, c_du = 0, c_pace = demo_pace, c_new_request = (\<lambda>m u b. Inl ''no request'')\<rparr>"

definition demo_result :: result where
  "demo_result = zero_result\<lparr>Attack := ''demo'', Timestamp := unix_epoch, Error := ''no targets to attack''\<rparr>"

definition demo_state :: "pacer_pc \<Rightarrow> worker \<Rightarrow> loop_state" where
  "demo_state p w = \<lparr>clock = 0, pc = p, n_workers = 1, count = 1, stop_closed = True, ticks_closed = False,
    results_closed = False, wg = 1, workers = {#w#}, next_seq = 1, delivered = [], history = [(0, unix_epoch)]\<rparr>"

lemma demo_begins:
  "reachable demo_config ((demo_state Looping (Hitting 0 unix_epoch))\<lparr>stop_closed := False\<rparr>)"
proof -
  let ?c = demo_config
  let ?s0 = "init_state ?c False"
  have c [simp]: "c_pace ?c = demo_pace" "a_maxWorkers (c_attacker ?c) = 1" "c_du ?c = 0"
    "c_began ?c = unix_epoch" "demo_pace e h = Inr (0, 0 < h)" for e h
    by (simp_all add: demo_config_def demo_pace_def)
  have s0: "?s0 = \<lparr>clock = 0, pc = Looping, n_workers = 1, count = 0, stop_closed = False, ticks_closed = False,
    results_closed = False, wg = 1, workers = {#Idle#}, next_seq = 0, delivered = [], history = []\<rparr>"
    by (simp add: init_state_def demo_config_def Let_def)
  have "reachable ?c ?s0" by (rule reachable.start)
  then have "reachable ?c (?s0\<lparr>workers := {#Parked#}\<rparr>)"
    by (rule reachable.more) (intro step.program act.park, simp_all add: s0)
  then have "reachable ?c (?s0\<lparr>workers := {#Parked#}, pc := Sleeping 0\<rparr>)" (is "reachable _ ?s2")
    by (rule reachable.more)
      (use act.pacer_waits [of "?s0\<lparr>workers := {#Parked#}\<rparr>" ?c 0] in \<open>simp add: s0 over_def step.program\<close>)
  then have "reachable ?c (?s0\<lparr>workers := {#Parked#}, pc := Sending\<rparr>)" (is "reachable _ ?s3")
    by (rule reachable.more) (use act.wake_up [of ?s2 0 ?c] in \<open>simp add: s0 step.program\<close>)
  then have "reachable ?c (?s0\<lparr>workers := {#Ticked#}, count := 1, pc := Looping\<rparr>)" (is "reachable _ ?s4")
    by (rule reachable.more) (use act.send_tick [of ?s3 "{#}" ?c] in \<open>simp add: s0 step.program\<close>)
  then show ?thesis
    by (rule reachable.more)
      (use act.begin_hit [of ?s4 "{#}" ?c] in \<open>simp add: s0 step.program demo_state_def timestamp_clock\<close>)
qed

definition demo_closing :: loop_state where
  "demo_closing = (demo_state Closing (Reporting demo_result))"

definition demo_final :: loop_state where
  "demo_final = (demo_state Finished Done)\<lparr>ticks_closed := True, results_closed := True, wg := 0,
    delivered := [demo_result]\<rparr>"

lemma demo_closing_reachable: "reachable demo_config demo_closing"
proof -
  let ?c = demo_config
  have hit: "hit (c_new_request ?c) dr (c_attacker ?c) (c_name ?c) 0 unix_epoch (Inl ErrNoTargets) unix_epoch = (demo_result, True)" for dr
    by (simp add: hit_def hit_done_def demo_config_def demo_result_def zero_result_def time_sub_def Let_def)
  have "reachable ?c (demo_state Looping (Reporting demo_result))" (is "reachable _ ?s1")
    using demo_begins
    by (rule reachable.more)
      (use act.end_hit [of "(demo_state Looping (Hitting 0 unix_epoch))\<lparr>stop_closed := False\<rparr>" 0 unix_epoch "{#}" ?c undefined "Inl ErrNoTargets" demo_result True] hit
        in \<open>simp add: step.program demo_state_def now_def demo_config_def\<close>)
  then show ?thesis
    by (rule reachable.more)
      (use act.pacer_stops [of ?s1 ?c 0] in
        \<open>simp add: step.program demo_state_def demo_closing_def over_def demo_config_def demo_pace_def\<close>)
qed

lemma demo_shutdown: "(act demo_config)\<^sup>*\<^sup>* demo_closing demo_final"
proof -
  let ?c = demo_config
  let ?s = "demo_closing"
  let ?t = "demo_state Draining (Reporting demo_result)\<lparr>ticks_closed := True\<rparr>"
  let ?u = "demo_state Draining Idle\<lparr>ticks_closed := True, delivered := [demo_result]\<rparr>"
  let ?v = "demo_state Draining Done\<lparr>ticks_closed := True, wg := 0, delivered := [demo_result]\<rparr>"
  note defs = demo_state_def demo_closing_def demo_final_def
  have "act ?c ?s ?t" using act.close_ticks [of ?s ?c] by (simp add: defs)
  moreover have "act ?c ?t ?u" using act.deliver [of ?t demo_result "{#}" ?c] by (simp add: defs)
  moreover have "act ?c ?u ?v" using act.leave [of ?u Idle "{#}" ?c] by (simp add: defs)
  moreover have "act ?c ?v (?v\<lparr>pc := ClosingResults\<rparr>)" using act.wait_workers [of ?v ?c] by (simp add: defs)
  moreover have "act ?c (?v\<lparr>pc := ClosingResults\<rparr>) (?v\<lparr>pc := Stopping, results_closed := True\<rparr>)"
    using act.close_results [of "?v\<lparr>pc := ClosingResults\<rparr>" ?c] by (simp add: defs)
  moreover have "act ?c (?v\<lparr>pc := Stopping, results_closed := True\<rparr>) demo_final"
    using act.final_stop [of "?v\<lparr>pc := Stopping, results_closed := True\<rparr>" ?c] by (simp add: defs)
  ultimately show ?thesis by (meson converse_rtranclp_into_rtranclp rtranclp.rtrancl_refl)
qed

lemma reachable_acts: "(act c)\<^sup>*\<^sup>* s s' \<Longrightarrow> reachable c s \<Longrightarrow> reachable c s'"
  by (induction rule: rtranclp_induct) (auto intro: reachable.more step.program)

lemma demo_final_reachable: "reachable demo_config demo_final"
  using demo_shutdown demo_closing_reachable by (rule reachable_acts)

text \<open>The same worker at one hit per nanosecond, after its first hit.\<close>

definition paced_config :: attack_config where
  "paced_config = demo_config\<lparr>c_began := 0, c_pace := constant_pace \<lparr>Freq = 1, Per = 1\<rparr>, c_du := 20\<rparr>"

definition paced_state :: loop_state where
  "paced_state = \<lparr>clock = 1, pc = Looping, n_workers = 1, count = 1, stop_closed = False, ticks_closed = False,
    results_closed = False, wg = 1, workers = {#Hitting 0 1#}, next_seq = 1, delivered = [], history = [(0, 1)]\<rparr>"

lemma paced_state_reachable: "reachable paced_config paced_state"
proof -
  let ?c = paced_config
  let ?s0 = "init_state ?c False"
  have c [simp]: "a_maxWorkers (c_attacker ?c) = 1" "c_du ?c = 20" "c_began ?c = 0"
    by (simp_all add: paced_config_def demo_config_def)
  have p [simp]: "c_pace ?c 0 0 = Inr (1, False)"
    by (simp add: paced_config_def constant_pace_def i64_div_def u64_div_def max_int64_def signed_divide_int_def word_sless_alt)
  have s0: "?s0 = \<lparr>clock = 0, pc = Looping, n_workers = 1, count = 0, stop_closed = False, ticks_closed = False,
    results_closed = False, wg = 1, workers = {#Idle#}, next_seq = 0, delivered = [], history = []\<rparr>"
    by (simp add: init_state_def paced_config_def demo_config_def Let_def)
  have [simp]: "clock s = 0 \<Longrightarrow> elapsed ?c s = 0" for s
    by (simp add: elapsed_def now_def time_sub_def)
  have "reachable ?c (?s0\<lparr>workers := {#Parked#}\<rparr>)" (is "reachable _ ?s1")
    using reachable.start [of ?c False] by (rule reachable.more) (intro step.program act.park, simp_all add: s0)
  then have "reachable ?c (?s0\<lparr>workers := {#Parked#}, pc := Sleeping 1\<rparr>)" (is "reachable _ ?s2")
    by (rule reachable.more)
      (use act.pacer_waits [of ?s1 ?c 1] in \<open>simp add: s0 over_def step.program word_sless_alt\<close>)
  then have "reachable ?c (?s2\<lparr>clock := 1\<rparr>)" (is "reachable _ ?s3")
    by (rule reachable.more) (rule step.time_passes, simp add: s0)
  then have "reachable ?c (?s3\<lparr>pc := Sending\<rparr>)" (is "reachable _ ?s4")
    by (rule reachable.more) (use act.wake_up [of ?s3 1 ?c] in \<open>simp add: s0 step.program\<close>)
  then have "reachable ?c (?s4\<lparr>workers := {#Ticked#}, count := 1, pc := Looping\<rparr>)" (is "reachable _ ?s5")
    by (rule reachable.more) (use act.send_tick [of ?s4 "{#}" ?c] in \<open>simp add: s0 step.program\<close>)
  then show ?thesis
    by (rule reachable.more)
      (use act.begin_hit [of ?s5 "{#}" ?c] in \<open>simp add: s0 step.program paced_state_def timestamp_clock\<close>)
qed

text \<open>Two workers whose results arrive out of order: the second hit, begun 5 ns later, ends first.\<close>

definition pair_config :: attack_config where
  "pair_config = demo_config\<lparr>c_attacker := default_attacker\<lparr>a_workers := 2, a_maxWorkers := 2\<rparr>,
    c_began := 0, c_pace := (\<lambda>e h. Inr (0, 1 < h))\<rparr>"

definition pair_result :: "u64 \<Rightarrow> time \<Rightarrow> duration \<Rightarrow> result" where
  "pair_result q ts lat = demo_result\<lparr>Seq := q, Timestamp := ts, Latency := lat\<rparr>"

definition pair_state :: "int \<Rightarrow> pacer_pc \<Rightarrow> u64 \<Rightarrow> bool \<Rightarrow> worker multiset \<Rightarrow> result list \<Rightarrow>
    (u64 \<times> time) list \<Rightarrow> loop_state" where
  "pair_state t p n st W ds hs = \<lparr>clock = t, pc = p, n_workers = 2, count = n, stop_closed = st, ticks_closed = False,
    results_closed = False, wg = 2, workers = W, next_seq = of_nat (length hs), delivered = ds, history = hs\<rparr>"

definition pair_final :: loop_state where
  "pair_final = pair_state 5 Looping 2 True {#Idle, Idle#} [pair_result 1 5 0, pair_result 0 0 5] [(0, 0), (1, 5)]"

lemma pair_final_reachable: "reachable pair_config pair_final"
proof -
  let ?c = pair_config
  let ?h = "[(0, 0), (1, 5)] :: (u64 \<times> time) list"
  have c: "c_du ?c = 0" "c_pace ?c = (\<lambda>e h. Inr (0, 1 < h))" "a_maxWorkers (c_attacker ?c) = 2" "c_began ?c = 0"
    by (simp_all add: pair_config_def demo_config_def)
  note d = pair_state_def over_def c timestamp_clock step.program
  have two: "replicate_mset 2 Idle = {#Idle, Idle#}" by (simp add: numeral_2_eq_2)
  have start: "init_state ?c False = pair_state 0 Looping 0 False {#Idle, Idle#} [] []"
    by (simp add: init_state_def pair_config_def demo_config_def pair_state_def Let_def two)
  have hit: "hit (c_new_request ?c) dr (c_attacker ?c) (c_name ?c) q ts (Inl ErrNoTargets) 5 =
      (pair_result q ts (time_sub 5 ts), True)" for dr q ts
    by (simp add: hit_def hit_done_def pair_config_def demo_config_def demo_result_def pair_result_def zero_result_def Let_def)
  have lat: "time_sub 5 0 = 5" "time_sub 5 5 = 0" by (simp_all add: time_sub_def)
  have "reachable ?c (pair_state 0 Looping 0 False {#Idle, Idle#} [] [])" (is "reachable _ ?s")
    using reachable.start [of ?c False] by (simp only: start)
  then have "reachable ?c (pair_state 0 Looping 0 False {#Parked, Idle#} [] [])" (is "reachable _ ?s1")
    by (rule reachable.more) (use act.park [of ?s "{#Idle#}" ?c] in \<open>simp add: d\<close>)
  then have "reachable ?c (pair_state 0 Looping 0 False {#Parked, Parked#} [] [])" (is "reachable _ ?s2")
    by (rule reachable.more) (use act.park [of ?s1 "{#Parked#}" ?c] in \<open>simp add: d add_mset_commute\<close>)
  then have "reachable ?c (pair_state 0 (Sleeping 0) 0 False {#Parked, Parked#} [] [])" (is "reachable _ ?s3")
    by (rule reachable.more) (use act.pacer_waits [of ?s2 ?c 0] in \<open>simp add: d\<close>)
  then have "reachable ?c (pair_state 0 Sending 0 False {#Parked, Parked#} [] [])" (is "reachable _ ?s4")
    by (rule reachable.more) (use act.wake_up [of ?s3 0 ?c] in \<open>simp add: d\<close>)
  then have "reachable ?c (pair_state 0 Looping 1 False {#Ticked, Parked#} [] [])" (is "reachable _ ?s5")
    by (rule reachable.more) (use act.send_tick [of ?s4 "{#Parked#}" ?c] in \<open>simp add: d\<close>)
  then have "reachable ?c (pair_state 0 (Sleeping 0) 1 False {#Ticked, Parked#} [] [])" (is "reachable _ ?s6")
    by (rule reachable.more) (use act.pacer_waits [of ?s5 ?c 0] in \<open>simp add: d\<close>)
  then have "reachable ?c (pair_state 0 Sending 1 False {#Ticked, Parked#} [] [])" (is "reachable _ ?s7")
    by (rule reachable.more) (use act.wake_up [of ?s6 0 ?c] in \<open>simp add: d\<close>)
  then have "reachable ?c (pair_state 0 Looping 2 False {#Ticked, Ticked#} [] [])" (is "reachable _ ?s8")
    by (rule reachable.more) (use act.send_tick [of ?s7 "{#Ticked#}" ?c] in \<open>simp add: d add_mset_commute\<close>)
  then have "reachable ?c (pair_state 0 Looping 2 False {#Hitting 0 0, Ticked#} [] [(0, 0)])" (is "reachable _ ?s9")
    by (rule reachable.more) (use act.begin_hit [of ?s8 "{#Ticked#}" ?c] in \<open>simp add: d\<close>)
  then have "reachable ?c (pair_state 5 Looping 2 False {#Hitting 0 0, Ticked#} [] [(0, 0)])" (is "reachable _ ?s10")
    by (rule reachable.more) (use step.time_passes [of ?s9 5 ?c] in \<open>simp add: pair_state_def\<close>)
  then have "reachable ?c (pair_state 5 Looping 2 False {#Hitting 1 5, Hitting 0 0#} [] ?h)" (is "reachable _ ?s11")
    by (rule reachable.more) (use act.begin_hit [of ?s10 "{#Hitting 0 0#}" ?c] in \<open>simp add: d add_mset_commute\<close>)
  then have "reachable ?c (pair_state 5 Looping 2 True {#Reporting (pair_result 1 5 0), Hitting 0 0#} [] ?h)" (is "reachable _ ?s12")
    by (rule reachable.more)
      (use act.end_hit [of ?s11 1 5 "{#Hitting 0 0#}" ?c undefined "Inl ErrNoTargets" _ True] hit lat in \<open>simp add: d now_def\<close>)
  then have "reachable ?c (pair_state 5 Looping 2 True {#Idle, Hitting 0 0#} [pair_result 1 5 0] ?h)" (is "reachable _ ?s13")
    by (rule reachable.more) (use act.deliver [of ?s12 "pair_result 1 5 0" "{#Hitting 0 0#}" ?c] in \<open>simp add: d\<close>)
  then have "reachable ?c (pair_state 5 Looping 2 True {#Reporting (pair_result 0 0 5), Idle#} [pair_result 1 5 0] ?h)" (is "reachable _ ?s14")
    by (rule reachable.more)
      (use act.end_hit [of ?s13 0 0 "{#Idle#}" ?c undefined "Inl ErrNoTargets" _ True] hit lat in \<open>simp add: d now_def add_mset_commute\<close>)
  then show ?thesis
    by (rule reachable.more)
      (use act.deliver [of ?s14 "pair_result 0 0 5" "{#Idle#}" ?c] in \<open>simp add: d pair_final_def\<close>)
qed

section \<open>Stop\<close>

text \<open>
  Callers of \<open>Stop\<close> interleave between its \<open>select\<close> and its \<open>Once\<close>: each is before the
  \<open>select\<close>, between the two, or has returned.
\<close>

datatype stop_caller = Calling | PastSelect | Returned bool

record stop_state =
  stopch_closed :: bool
  once_done :: bool
  closes :: nat
  callers :: "stop_caller list"

inductive stop_step :: "stop_state \<Rightarrow> stop_state \<Rightarrow> bool" where
  noop: "i < length (callers s) \<Longrightarrow> callers s ! i = Calling \<Longrightarrow> stopch_closed s \<Longrightarrow>
    stop_step s (s\<lparr>callers := (callers s)[i := Returned False]\<rparr>)"
| default_case: "i < length (callers s) \<Longrightarrow> callers s ! i = Calling \<Longrightarrow> \<not> stopch_closed s \<Longrightarrow>
    stop_step s (s\<lparr>callers := (callers s)[i := PastSelect]\<rparr>)"
| close_once: "i < length (callers s) \<Longrightarrow> callers s ! i = PastSelect \<Longrightarrow>
    stop_step s (s\<lparr>callers := (callers s)[i := Returned True],
      closes := (if once_done s then closes s else Suc (closes s)), once_done := True, stopch_closed := True\<rparr>)"

definition stop_init :: "nat \<Rightarrow> stop_state" where
  "stop_init n = \<lparr>stopch_closed = False, once_done = False, closes = 0, callers = replicate n Calling\<rparr>"

definition stop_inv :: "stop_state \<Rightarrow> bool" where
  "stop_inv s \<longleftrightarrow>
    closes s = of_bool (once_done s) \<and> (stopch_closed s \<longleftrightarrow> once_done s) \<and>
    (once_done s \<longleftrightarrow> Returned True \<in> set (callers s)) \<and>
    (Returned False \<in> set (callers s) \<longrightarrow> once_done s)"

lemma set_update_other:
  assumes "i < length xs" and "xs ! i \<noteq> y" and "x \<noteq> y"
  shows "y \<in> set (xs[i := x]) \<longleftrightarrow> y \<in> set xs"
  using assms by (auto simp: in_set_conv_nth nth_list_update)

lemma stop_inv_step: "stop_step s s' \<Longrightarrow> stop_inv s \<Longrightarrow> stop_inv s'"
  by (induction rule: stop_step.induct)
    (auto simp: stop_inv_def set_update_other set_update_memI)

lemma stop_inv_reachable: "stop_step\<^sup>*\<^sup>* (stop_init n) s \<Longrightarrow> stop_inv s"
proof (induction rule: rtranclp_induct)
  case base
  show ?case by (auto simp: stop_inv_def stop_init_def)
qed (rule stop_inv_step)

section \<open>Properties\<close>

lemma numbered_nth:
  assumes "numbered h" and "x \<in> set h"
  shows "\<exists>i < length h. x = h ! i \<and> fst x = of_nat i"
proof -
  obtain i where i: "i < length h" "x = h ! i" using assms(2) by (auto simp: in_set_conv_nth)
  have "map fst h ! i = map of_nat [0..<length h] ! i" using assms(1) by (simp add: numbered_def)
  then show ?thesis using i by auto
qed

lemma delivered_in_history:
  "reachable c s \<Longrightarrow> r \<in> set (delivered s) \<Longrightarrow> (Seq r, Timestamp r) \<in> set (history s)"
proof -
  assume "reachable c s" and r: "r \<in> set (delivered s)"
  then have "mset (history s) = result_ids (delivered s) + hits_of (workers s)"
    using reachable_seq_inv by (simp add: seq_inv_def)
  moreover have "(Seq r, Timestamp r) \<in># result_ids (delivered s)" using r by (auto simp: result_ids_def)
  ultimately have "(Seq r, Timestamp r) \<in># mset (history s)" by (simp only: union_iff) simp
  then show ?thesis by simp
qed

lemma sequence_order:
  assumes "reachable c s" and "r \<in> set (delivered s)" and "r' \<in> set (delivered s)"
    and "length (history s) \<le> 2 ^ 64" and "Seq r < Seq r'"
  shows "Timestamp r \<le> Timestamp r'"
proof -
  let ?h = "history s"
  have n: "numbered ?h" using reachable_seq_inv [OF assms(1)] by (simp add: seq_inv_def)
  obtain i where i: "i < length ?h" "(Seq r, Timestamp r) = ?h ! i" "Seq r = of_nat i"
    using numbered_nth [OF n delivered_in_history [OF assms(1,2)]] by auto
  obtain j where j: "j < length ?h" "(Seq r', Timestamp r') = ?h ! j" "Seq r' = of_nat j"
    using numbered_nth [OF n delivered_in_history [OF assms(1,3)]] by auto
  have "unat (of_nat i :: u64) = i" "unat (of_nat j :: u64) = j"
    using i(1) j(1) assms(4) by (simp_all add: unat_of_nat)
  then have "i < j" using assms(5) i(3) j(3) by (simp add: word_less_nat_alt)
  then have "map snd ?h ! i \<le> map snd ?h ! j"
    using n j(1) by (intro sorted_nth_mono) (simp_all add: numbered_def)
  then show ?thesis using i(1,2) j(1,2) by (metis nth_map snd_conv)
qed

text \<open>
  C9. The total order of hits: however the workers interleave, of two delivered results the
  one with the smaller sequence number has the earlier (or the same) timestamp, as long as
  the 64-bit sequence counter has not wrapped.
\<close>

theorem attack_sequence_order:
  assumes "reachable c s" and "r \<in> set (delivered s)" and "r' \<in> set (delivered s)"
    and "length (history s) \<le> 2 ^ 64" and "Seq r < Seq r'"
  shows "Timestamp r \<le> Timestamp r'"
  by (rule sequence_order [OF assms])

theorem attack_sequence_order_witness:
  "delivered pair_final = [pair_result 1 5 0, pair_result 0 0 5] \<and>
    Timestamp (pair_result 0 0 5) \<le> Timestamp (pair_result 1 5 0)"
  using attack_sequence_order [OF pair_final_reachable, of "pair_result 0 0 5" "pair_result 1 5 0"]
  by (simp add: pair_final_def pair_state_def pair_result_def)

text \<open>
  C4. No hit is lost or duplicated: when the attack has finished, the results delivered are
  exactly one per tick sent and carry the sequence numbers 0, 1, ... once each, in the order
  of arrival at the channel, which may be any.
\<close>

theorem attack_delivers_every_hit_once:
  assumes "reachable c s" and "pc s = Finished"
  shows "image_mset Seq (mset (delivered s)) = mset (map of_nat [0..<length (delivered s)]) \<and>
    count s = of_nat (length (delivered s))"
proof -
  have eq: "mset (history s) = result_ids (delivered s)" by (rule finished_complete [OF assms])
  then have len: "length (history s) = length (delivered s)"
    by (metis result_ids_def size_image_mset size_mset)
  have "mset (map fst (history s)) = image_mset Seq (mset (delivered s))"
    by (simp add: eq result_ids_def image_mset.compositionality o_def)
  moreover have "map fst (history s) = map of_nat [0..<length (history s)]"
    using reachable_seq_inv [OF assms(1)] by (simp add: seq_inv_def numbered_def)
  ultimately show ?thesis using finished_complete(2) [OF assms] len by simp
qed

theorem attack_delivers_every_hit_once_witness:
  "image_mset Seq (mset (delivered demo_final)) = {#0#} \<and> count demo_final = 1"
  using attack_delivers_every_hit_once [OF demo_final_reachable]
  by (simp add: demo_final_def demo_state_def)

text \<open>
  C5. Channels and workers: no worker ever sends on the closed results channel, there are
  never more running workers than \<open>maxWorkers\<close>, the wait group counts the running workers,
  and none is running once the results channel is closed.
\<close>

theorem attack_channels_safe:
  assumes "reachable c s"
  shows "\<not> sends_on_closed s \<and> live (workers s) \<le> unat (a_maxWorkers (c_attacker c)) \<and>
    wg s = live (workers s) \<and> (if results_closed s then live (workers s) = 0 else True)"
proof -
  have inv: "chan_inv c s" by (rule reachable_chan_inv [OF assms])
  then have 0: "results_closed s \<Longrightarrow> live (workers s) = 0" by (auto simp: chan_inv_def)
  then have "\<not> sends_on_closed s" by (auto simp: sends_on_closed_def live_0_iff)
  moreover have "live (workers s) \<le> size (workers s)"
    unfolding live_def by (rule size_filter_mset_lesseq)
  ultimately show ?thesis using inv 0 by (auto simp: chan_inv_def word_le_nat_alt)
qed

theorem attack_channels_safe_witness:
  "\<not> sends_on_closed demo_final \<and> live (workers demo_final) \<le> 1 \<and> results_closed demo_final"
  using attack_channels_safe [OF demo_final_reachable]
  by (simp add: demo_config_def demo_final_def demo_state_def)

lemma constant_limit_le: "constant_limit cp \<le> 2 ^ 64"
proof -
  have "(2 ^ 63 - 1) div n \<le> (2 ^ 64 :: nat)" for n
    by (rule order_trans [OF div_le_dividend]) simp
  then show ?thesis by (simp add: constant_limit_def)
qed

text \<open>
  C6. The attack never runs ahead of a constant rate: under every interleaving and
  scheduling delay, the hits begun by time \<open>t\<close> are at most \<open>t div (Per div Freq)\<close> (for an
  interval that truncates to zero nanoseconds, at most \<open>Freq\<close> per elapsed period), until the
  hit count reaches the pacer's overflow limit.
\<close>

theorem attack_within_constant_rate:
  assumes "reachable c s" and "c_pace c = constant_pace cp" and "ticks_sent s \<le> constant_limit cp"
  shows "enat (length (history s)) \<le> constant_budget cp (clock s)"
proof -
  have "enat (length (history s)) \<le> enat (ticks_sent s)" by (simp add: ticks_sent_def)
  also have "\<dots> \<le> constant_budget cp (clock s)"
    by (rule const_rate.rate_bounded [OF assms(1,2) constant_limit_le assms(3)])
  finally show ?thesis .
qed

theorem attack_within_constant_rate_witness:
  "enat (length (history paced_state)) \<le> constant_budget \<lparr>Freq = 1, Per = 1\<rparr> 1 \<and>
    length (history paced_state) = 1"
  using attack_within_constant_rate [OF paced_state_reachable, of "\<lparr>Freq = 1, Per = 1\<rparr>"]
  by (simp add: paced_config_def paced_state_def ticks_sent_def constant_limit_def pace_interval_def)

text \<open>
  The duration bounds the attack: at a constant rate the hits of an attack with a
  duration \<open>du\<close> are at most one more than the rate allows in \<open>du\<close>, however long the attack
  takes to end.
\<close>

theorem attack_within_duration:
  assumes "reachable c s" and "c_pace c = constant_pace cp" and "ticks_sent s \<le> constant_limit cp"
    and "0 < sint (c_du c)" and "sint (c_du c) < 2 ^ 63 - 1"
  shows "enat (length (history s)) \<le> constant_budget cp (sint (c_du c)) + 1"
proof -
  have "enat (length (history s)) \<le> enat (ticks_sent s)" by (simp add: ticks_sent_def)
  also have "\<dots> \<le> constant_budget cp (sint (c_du c)) + 1"
    using const_rate.duration_bounded [OF assms(1,2) constant_limit_le assms(3-5)] by simp
  finally show ?thesis .
qed

theorem attack_within_duration_witness:
  "enat (length (history paced_state)) \<le> constant_budget \<lparr>Freq = 1, Per = 1\<rparr> 20 + 1"
  using attack_within_duration [OF paced_state_reachable, of "\<lparr>Freq = 1, Per = 1\<rparr>"]
  by (simp add: paced_config_def paced_state_def ticks_sent_def constant_limit_def pace_interval_def)

text \<open>
  C7. The attack never gets stuck: in every reachable state that is not final, in which the
  pacer does not panic and with a positive maximum of workers, some goroutine can move,
  unless the attack is asleep until a later time.
\<close>

theorem attack_progress:
  assumes "reachable c s" and "pc s \<noteq> Finished" and "\<not> pace_panics c s"
    and "a_maxWorkers (c_attacker c) \<noteq> 0"
  shows "\<exists>s'. act c s s' \<or> (\<exists>t. pc s = Sleeping t \<and> clock s < t)"
proof (cases "pc s")
  case Looping
  then show ?thesis using looping_moves assms(3) by blast
next
  case (Sleeping t)
  then show ?thesis using wake_up [of s t c] by (cases "t \<le> clock s") auto
next
  case Selecting
  then show ?thesis using selecting_moves by blast
next
  case Sending
  then show ?thesis using sending_moves [OF reachable_chan_inv [OF assms(1)] _ assms(4)] by blast
qed (use shutdown_moves [OF reachable_chan_inv [OF assms(1)]] assms(2) in \<open>auto simp: shutting_down_def\<close>)

theorem attack_progress_witness: "\<exists>s'. act demo_config demo_closing s'"
  using attack_progress [OF demo_closing_reachable]
  by (simp add: pace_panics_def demo_closing_def demo_state_def demo_config_def)

text \<open>
  C8. Shutdown: once the pacer's loop has returned, the attack needs at most
  \<open>shutdown_work s\<close> further steps of its goroutines (5 for a worker holding a tick, 2 for an
  idle one, 4 for the deferred function), whatever their order, and they end with the
  results channel closed and every worker gone.
\<close>

theorem attack_shutdown_terminates:
  assumes "reachable c s" and "shutting_down s" and "(act c ^^ n) s s'"
  shows "n \<le> shutdown_work s \<and>
    (\<exists>s''. (act c)\<^sup>*\<^sup>* s' s'' \<and> pc s'' = Finished \<and> results_closed s'' \<and> live (workers s'') = 0)"
proof -
  have run: "(act c)\<^sup>*\<^sup>* s s'" using assms(3) by (rule relpowp_imp_rtranclp)
  have s': "reachable c s'" by (rule reachable_acts [OF run assms(1)])
  have "shutting_down s'" using run assms(2)
    by (induction rule: rtranclp_induct) (auto dest: shutdown_step)
  then obtain s'' where s'': "(act c)\<^sup>*\<^sup>* s' s''" "pc s'' = Finished"
    using shutdown_reaches_finish reachable_chan_inv [OF s'] by blast
  then have "chan_inv c s''" using reachable_chan_inv reachable_acts s' by blast
  then show ?thesis
    using s'' shutdown_run_length [OF assms(3,2)] by (auto simp: chan_inv_def)
qed

theorem attack_shutdown_terminates_witness:
  "\<exists>s''. (act demo_config)\<^sup>*\<^sup>* demo_closing s'' \<and> pc s'' = Finished \<and> results_closed s''"
  using attack_shutdown_terminates [OF demo_closing_reachable, of 0 demo_closing]
  by (auto simp: shutting_down_def demo_closing_def demo_state_def)

text \<open>
  C33. \<open>Stop\<close> under any interleaving of its callers: the channel is closed at most once, it is
  closed exactly when some call has returned true, and a call returns false only when it is
  closed. Two concurrent callers may both get true.
\<close>

theorem stop_closes_once:
  assumes "stop_step\<^sup>*\<^sup>* (stop_init n) s"
  shows "closes s \<le> 1 \<and> (stopch_closed s \<longleftrightarrow> closes s = 1) \<and>
    (stopch_closed s \<longleftrightarrow> Returned True \<in> set (callers s)) \<and>
    (if Returned False \<in> set (callers s) then stopch_closed s else True)"
  using stop_inv_reachable [OF assms] by (auto simp: stop_inv_def)

theorem stop_closes_once_witness:
  "closes \<lparr>stopch_closed = True, once_done = True, closes = 1, callers = [Returned True, Returned True]\<rparr> \<le> 1"
proof -
  let ?s = "\<lambda>b n a1 a2. \<lparr>stopch_closed = b, once_done = b, closes = n, callers = [a1, a2]\<rparr>"
  have "stop_init 2 = ?s False 0 Calling Calling" by (simp add: stop_init_def numeral_2_eq_2)
  moreover have "stop_step (?s False 0 Calling Calling) (?s False 0 PastSelect Calling)"
    using default_case [of 0 "?s False 0 Calling Calling"] by simp
  moreover have "stop_step (?s False 0 PastSelect Calling) (?s False 0 PastSelect PastSelect)"
    using default_case [of 1 "?s False 0 PastSelect Calling"] by simp
  moreover have "stop_step (?s False 0 PastSelect PastSelect) (?s True 1 (Returned True) PastSelect)"
    using close_once [of 0 "?s False 0 PastSelect PastSelect"] by simp
  moreover have "stop_step (?s True 1 (Returned True) PastSelect) (?s True 1 (Returned True) (Returned True))"
    using close_once [of 1 "?s True 1 (Returned True) PastSelect"] by simp
  ultimately have "stop_step\<^sup>*\<^sup>* (stop_init 2) (?s True 1 (Returned True) (Returned True))"
    by (metis converse_rtranclp_into_rtranclp rtranclp.rtrancl_refl)
  from stop_closes_once [OF this] show ?thesis by simp
qed

end
