(* ===== verification/Byte_Scanner.thy ===== *)
theory Byte_Scanner
  imports Targets Go_Encoding
begin

text \<open>
  The scanner of the HTTP targeter over the bytes of a file: \<open>bufio.ScanLines\<close> with the limits
  of \<open>bufio.Scanner\<close>. The buffer holds 64 KiB, so a line of that many bytes or more ends the
  input with an error; what comes before it is handed out.
\<close>

definition token_limit :: nat where
  "token_limit = 65536"

definition too_long :: string where
  "too_long = ''bufio.Scanner: token too long''"

function scan_tokens :: "string \<Rightarrow> string list \<times> string option" where
  "scan_tokens s =
    (if s = [] then ([], None)
     else
       let l = takeWhile (\<lambda>c. c \<noteq> nl) s in
       if token_limit \<le> length l then ([], Some too_long)
       else (case scan_tokens (drop (Suc (length l)) s) of (ls, err) \<Rightarrow> (drop_cr l # ls, err)))"
  by pat_completeness auto
termination
  by (relation "measure length") auto

declare scan_tokens.simps [simp del]

lemma scan_tokens_Nil [simp]: "scan_tokens [] = ([], None)"
  by (simp add: scan_tokens.simps)

text \<open>The error of the scanner is its own, or else the reader's.\<close>

definition byte_scanner :: "string \<Rightarrow> string option \<Rightarrow> scanner" where
  "byte_scanner bytes err =
    (case scan_tokens bytes of (ls, e) \<Rightarrow> new_scanner ls (if e = None then err else e))"

lemma byte_scanner_Nil [simp]: "byte_scanner [] err = new_scanner [] err"
  by (simp add: byte_scanner_def)

lemma pending_new_scanner [simp]: "pending (new_scanner ls err) = ls"
  by (simp add: pending_def new_scanner_def)

text \<open>The lines of a text whose lines are short, without line ends of their own: the scanner
  hands them out as they are.\<close>

definition short_line :: "string \<Rightarrow> bool" where
  "short_line l \<longleftrightarrow> length l < token_limit \<and> nl \<notin> set l \<and> (l \<noteq> [] \<longrightarrow> last l \<noteq> cr)"

lemma scan_tokens_line:
  assumes "short_line l"
  shows "scan_tokens (l @ nl # rest) = (case scan_tokens rest of (ls, e) \<Rightarrow> (l # ls, e))"
proof -
  have "takeWhile (\<lambda>c. c \<noteq> nl) (l @ nl # rest) = l" using assms by (simp add: short_line_def takeWhile_to_sep)
  then show ?thesis using assms
    by (subst scan_tokens.simps) (auto simp: short_line_def drop_cr_def Let_def)
qed

lemma scan_tokens_lines:
  assumes "list_all short_line ls"
  shows "scan_tokens (concat (map (\<lambda>l. l @ [nl]) ls)) = (ls, None)"
  using assms by (induction ls) (simp_all add: scan_tokens_line)

end
