(* ===== verification/Attack_Command.thy ===== *)
theory Attack_Command
  imports Commands Attack_Loop Byte_Scanner
begin

text \<open>
  \<open>vegeta attack\<close> (\<open>attack.go\<close>): the options with their defaults, the TLS configuration, the setup of
  a run in the order of the code with every early return, the loop that writes the results, and the
  choice of the command in \<open>main.go\<close>.
\<close>

section \<open>vegeta attack\<close>

record attack_opts =
  o_name :: string
  o_targetsf :: string
  o_format :: string
  o_outputf :: string
  o_bodyf :: string
  o_certf :: string
  o_keyf :: string
  o_rootCerts :: "string list"
  o_http2 :: bool
  o_h2c :: bool
  o_insecure :: bool
  o_lazy :: bool
  o_chunked :: bool
  o_duration :: duration
  o_timeout :: duration
  o_rate :: constant_pacer
  o_workers :: u64
  o_maxWorkers :: u64
  o_connections :: i64
  o_maxConnections :: i64
  o_redirects :: i64
  o_maxBody :: i64
  o_headers :: header
  o_proxyHeaders :: header
  o_laddr :: string
  o_keepalive :: bool
  o_resolvers :: "string list"
  o_unixSocket :: string
  o_promAddr :: string
  o_dnsTTL :: duration
  o_sessionTickets :: bool
  o_connectTo :: header

text \<open>The defaults of \<open>attackCmd\<close>, which the flags are read over.\<close>

definition default_opts :: attack_opts where
  "default_opts = \<lparr>o_name = [], o_targetsf = ''stdin'', o_format = ''http'', o_outputf = ''stdout'', o_bodyf = [],
    o_certf = [], o_keyf = [], o_rootCerts = [], o_http2 = True, o_h2c = False, o_insecure = False, o_lazy = False,
    o_chunked = False, o_duration = 0, o_timeout = 30000000000, o_rate = \<lparr>Freq = 50, Per = 1000000000\<rparr>,
    o_workers = 10, o_maxWorkers = - 1, o_connections = 10000, o_maxConnections = 0, o_redirects = 10,
    o_maxBody = - 1, o_headers = [], o_proxyHeaders = [], o_laddr = ''0.0.0.0'', o_keepalive = True, o_resolvers = [], o_unixSocket = [],
    o_promAddr = [], o_dnsTTL = 0, o_sessionTickets = False, o_connectTo = []\<rparr>"

datatype attack_error =
    ZeroRateNeedsMaxWorkers
  | ResolverFailed resolver_error
  | CannotOpen string string
  | CannotRead string string
  | UnknownFormat string
  | TargetsFailed target_error
  | TLSFailed string
  | PrometheusFailed string
  | AttackPanic panic

section \<open>tlsConfig\<close>

text \<open>The certificate and key files, then the root certificates. \<open>read\<close> is \<open>os.ReadFile\<close>, \<open>key_pair\<close>
  \<open>tls.X509KeyPair\<close>, \<open>pem_ok\<close> whether \<open>AppendCertsFromPEM\<close> finds a certificate.\<close>

fun read_files :: "(string \<Rightarrow> string + string) \<Rightarrow> string list \<Rightarrow> (string \<times> string) list \<Rightarrow> string + (string \<times> string) list" where
  "read_files read [] files = Inr files"
| "read_files read (f # fs) files =
    (if f = [] then read_files read fs files
     else go_bind (read f) (\<lambda>s. read_files read fs (AList.update f s files)))"

fun add_roots :: "(string \<Rightarrow> bool) \<Rightarrow> (string \<times> string) list \<Rightarrow> string list \<Rightarrow> string list \<Rightarrow> string + string list" where
  "add_roots pem_ok files [] pool = Inr pool"
| "add_roots pem_ok files (f # fs) pool =
    (let pem = (case map_of files f of Some s \<Rightarrow> s | None \<Rightarrow> []) in
     if pem_ok pem then add_roots pem_ok files fs (pool @ [pem]) else Inl ''bad certificate'')"

definition tls_config_of :: "(string \<Rightarrow> string + string) \<Rightarrow> (string \<Rightarrow> string \<Rightarrow> string + string) \<Rightarrow> (string \<Rightarrow> bool) \<Rightarrow>
    bool \<Rightarrow> string \<Rightarrow> string \<Rightarrow> string list \<Rightarrow> string + tls_config" where
  "tls_config_of read key_pair pem_ok insecure certf keyf rootCerts =
    go_bind (read_files read (certf # keyf # rootCerts) []) (\<lambda>files.
    go_bind (case map_of files certf of
        None \<Rightarrow> Inr []
      | Some cert \<Rightarrow>
          (let key = (case map_of files keyf of Some k \<Rightarrow> k | None \<Rightarrow> cert) in
           go_bind (key_pair cert key) (\<lambda>c. Inr [c]))) (\<lambda>certs.
    go_bind (if rootCerts = [] then Inr None
             else go_bind (add_roots pem_ok files rootCerts []) (\<lambda>p. Inr (Some p))) (\<lambda>roots.
      Inr \<lparr>SessionTicketsDisabled = False, ClientSessionCache = False, InsecureSkipVerify = insecure,
        Certificates = certs, RootCAs = roots\<rparr>)))"

section \<open>attack\<close>

text \<open>The open readers: a file's name, its unread bytes and the error at their end.\<close>

type_synonym reader = "string \<times> string option"

fun open_inputs :: "(string \<Rightarrow> string + reader) \<Rightarrow> string list \<Rightarrow> (string \<times> reader) list \<Rightarrow> attack_error + (string \<times> reader) list" where
  "open_inputs open_in [] files = Inr files"
| "open_inputs open_in (f # fs) files =
    (if f = [] then open_inputs open_in fs files
     else case open_in f of
       Inl e \<Rightarrow> Inl (CannotOpen f e)
     | Inr rd \<Rightarrow> open_inputs open_in fs (AList.update f rd files))"

text \<open>The body file is read to its end, so the same file has nothing left as a targets file.\<close>

definition read_body_file :: "string \<Rightarrow> (string \<times> reader) list \<Rightarrow> attack_error + string \<times> (string \<times> reader) list" where
  "read_body_file bodyf files =
    (case map_of files bodyf of
       None \<Rightarrow> Inr ([], files)
     | Some (bytes, Some e) \<Rightarrow> Inl (CannotRead bodyf e)
     | Some (bytes, None) \<Rightarrow> Inr (bytes, AList.update bodyf ([], None) files))"

text \<open>The targeter of a run: a lazy one over its reader, or the static one over all targets.\<close>

datatype attack_source =
    JSONSource string "string option"
  | HTTPSource scanner
  | StaticSource "target list"
  | NilSource                             \<comment> \<open>no targets file: reading it panics\<close>

definition attack_source_of :: "(string \<Rightarrow> string option) \<Rightarrow> (string \<Rightarrow> string + string) \<Rightarrow>
    (string \<Rightarrow> string + target) \<Rightarrow> string \<Rightarrow> string \<Rightarrow> header \<Rightarrow> bool \<Rightarrow> reader option \<Rightarrow>
    (attack_error + attack_source) option" where
  "attack_source_of parse_uri read_file decode fmt body hdr lazy src =
    (if fmt \<noteq> ''json'' \<and> fmt \<noteq> ''http'' then Some (Inl (UnknownFormat fmt))
     else case src of
       None \<Rightarrow> Some (if lazy then Inr NilSource else Inl (AttackPanic NilDereference))
     | Some (bytes, err) \<Rightarrow>
         if lazy then
           Some (Inr (if fmt = ''json'' then JSONSource bytes err else HTTPSource (byte_scanner bytes err)))
         else
           map_option (\<lambda>r. case r of Inl e \<Rightarrow> Inl (TargetsFailed e) | Inr ts \<Rightarrow> Inr (StaticSource ts))
             (if fmt = ''json'' then read_all_targets (json_targeter decode err body hdr (Some zero_target)) bytes
              else read_all_targets (http_targeter parse_uri read_file body hdr (Some zero_target))
                (byte_scanner bytes err)))"

record attack_run =
  ar_resolver :: "resolver option"
  ar_source :: attack_source
  ar_body :: string
  ar_headers :: header
  ar_output :: handle
  ar_prometheus :: "prom_metrics option"
  ar_attacker :: attacker
  ar_rate :: constant_pacer
  ar_duration :: duration
  ar_name :: string

text \<open>What the environment provides to \<open>attack\<close>.\<close>

record attack_env =
  e_is_ip :: "string \<Rightarrow> bool"
  e_open_in :: "string \<Rightarrow> string + reader"
  e_open_out :: "string \<Rightarrow> bool \<Rightarrow> string option"
  e_parse_uri :: "string \<Rightarrow> string option"
  e_read_file :: "string \<Rightarrow> string + string"
  e_decode :: "string \<Rightarrow> string + target"
  e_key_pair :: "string \<Rightarrow> string \<Rightarrow> string + string"
  e_pem_ok :: "string \<Rightarrow> bool"
  e_register :: "string \<Rightarrow> string option"

definition options_of :: "attack_opts \<Rightarrow> tls_config \<Rightarrow> opt list" where
  "options_of opts tlsc =
    attack_options (o_redirects opts) (o_timeout opts) (o_laddr opts) tlsc (o_workers opts) (o_maxWorkers opts)
      (o_keepalive opts) (o_connections opts) (o_maxConnections opts) (o_http2 opts) (o_h2c opts) (o_maxBody opts)
      (o_unixSocket opts) (o_proxyHeaders opts) (o_chunked opts) (o_dnsTTL opts) (o_connectTo opts)
      (o_sessionTickets opts)"

text \<open>After the targets are there: the output, TLS, Prometheus and the attacker.\<close>

definition attack_finish_setup :: "attack_env \<Rightarrow> attack_opts \<Rightarrow> resolver option \<Rightarrow> string \<Rightarrow> attack_source \<Rightarrow>
    attack_error + attack_run" where
  "attack_finish_setup env opts res body src =
    (case open_file (e_open_out env) (o_outputf opts) True of
       Inl e \<Rightarrow> Inl (CannotOpen (o_outputf opts) e)
     | Inr out \<Rightarrow>
         (case tls_config_of (e_read_file env) (e_key_pair env) (e_pem_ok env) (o_insecure opts) (o_certf opts)
            (o_keyf opts) (o_rootCerts opts) of
            Inl e \<Rightarrow> Inl (TLSFailed e)
          | Inr tlsc \<Rightarrow>
              if o_promAddr opts \<noteq> [] \<and> prom_register (e_register env) \<noteq> None
              then Inl (PrometheusFailed (the (prom_register (e_register env))))
              else (case new_attacker (options_of opts tlsc) of
                Inl p \<Rightarrow> Inl (AttackPanic p)
              | Inr a \<Rightarrow> Inr \<lparr>ar_resolver = res, ar_source = src, ar_body = body, ar_headers = o_headers opts,
                  ar_output = out, ar_prometheus = (if o_promAddr opts = [] then None else Some new_prom_metrics),
                  ar_attacker = a, ar_rate = o_rate opts, ar_duration = o_duration opts, ar_name = o_name opts\<rparr>)))"

definition attack_resolver :: "attack_env \<Rightarrow> attack_opts \<Rightarrow> attack_error + resolver option" where
  "attack_resolver env opts =
    (if o_resolvers opts = [] then Inr None
     else case new_resolver (e_is_ip env) (o_resolvers opts) of
       Inl e \<Rightarrow> Inl (ResolverFailed e)
     | Inr r \<Rightarrow> Inr (Some r))"

text \<open>\<open>attack(opts)\<close> up to \<open>atk.Attack\<close>; \<open>None\<close> would be not returning.\<close>

definition attack_setup :: "attack_env \<Rightarrow> attack_opts \<Rightarrow> (attack_error + attack_run) option" where
  "attack_setup env opts =
    (if o_maxWorkers opts = - 1 \<and> Freq (o_rate opts) = 0 then Some (Inl ZeroRateNeedsMaxWorkers)
     else case attack_resolver env opts of
       Inl e \<Rightarrow> Some (Inl e)
     | Inr res \<Rightarrow>
         (case open_inputs (e_open_in env) [o_targetsf opts, o_bodyf opts] [] of
            Inl e \<Rightarrow> Some (Inl e)
          | Inr files \<Rightarrow>
              (case read_body_file (o_bodyf opts) files of
                 Inl e \<Rightarrow> Some (Inl e)
               | Inr (body, files) \<Rightarrow>
                   map_option (\<lambda>r. case r of Inl e \<Rightarrow> Inl e | Inr src \<Rightarrow> attack_finish_setup env opts res body src)
                     (attack_source_of (e_parse_uri env) (e_read_file env) (e_decode env) (o_format opts) body
                        (o_headers opts) (o_lazy opts) (map_of files (o_targetsf opts))))))"

section \<open>processAttack\<close>

text \<open>The cases the loop takes: a signal, with what \<open>atk.Stop()\<close> then returns, a result, or the
  closed results channel.\<close>

datatype attack_event = Signal bool | Received result | ResultsClosed

fun process_attack :: "'w encoder \<Rightarrow> attack_event list \<Rightarrow> prom_metrics option \<Rightarrow> 'w \<Rightarrow>
    (prom_metrics option \<times> 'w \<times> string option) option" where
  "process_attack enc [] pm w = None"
| "process_attack enc (Signal stop_sent # evs) pm w =
    (if \<not> stop_sent then Some (pm, w, None) else process_attack enc evs pm w)"
| "process_attack enc (ResultsClosed # evs) pm w = Some (pm, w, None)"
| "process_attack enc (Received r # evs) pm w =
    (let pm' = map_option (\<lambda>p. observe p r) pm in
     case enc w r of
       (w', Some e) \<Rightarrow> Some (pm', w', Some e)
     | (w', None) \<Rightarrow> process_attack enc evs pm' w')"

text \<open>\<open>processAttack\<close> while the attack runs: results and first signals in any order.\<close>

definition received :: "attack_event list \<Rightarrow> result list" where
  "received evs = List.map_filter (\<lambda>e. case e of Received r \<Rightarrow> Some r | _ \<Rightarrow> None) evs"

definition goes_on :: "attack_event \<Rightarrow> bool" where
  "goes_on e \<longleftrightarrow> (case e of Signal stop_sent \<Rightarrow> stop_sent | Received _ \<Rightarrow> True | ResultsClosed \<Rightarrow> False)"

lemma process_attack_received:
  assumes "\<And>w r. snd (enc w r) = None" and "list_all goes_on evs"
  shows "process_attack enc (evs @ [ResultsClosed]) pm w =
    Some (map_option (\<lambda>p. foldl observe p (received evs)) pm, foldl (\<lambda>w r. fst (enc w r)) w (received evs), None)"
  using assms(2)
proof (induction evs arbitrary: pm w)
  case Nil
  then show ?case by (simp add: received_def map_filter_simps option.map_ident)
next
  case (Cons e evs)
  show ?case
  proof (cases e)
    case (Received r)
    obtain w' where w': "enc w r = (w', None)" using assms(1) [of w r] by (cases "enc w r") simp
    show ?thesis using Cons Received w'
      by (simp add: received_def map_filter_simps goes_on_def option.map_comp o_def Let_def)
  qed (use Cons in \<open>simp_all add: received_def map_filter_simps goes_on_def\<close>)
qed

section \<open>main\<close>

text \<open>The profiles asked for, each with its file and what is written to it, and the command that
  runs. \<open>create\<close> is \<open>os.Create\<close>; its error, like an unknown command, ends the program.\<close>

datatype profiling = CPUProfile | HeapProfile | NoProfile

fun open_profiles :: "(string \<Rightarrow> string option) \<Rightarrow> string list \<Rightarrow> string + (string \<times> profiling) list" where
  "open_profiles create [] = Inr []"
| "open_profiles create (p # ps) =
    (let prof = trim_space p in
     if prof = [] then open_profiles create ps
     else case create (prof @ ''.pprof'') of
       Some e \<Rightarrow> Inl e
     | None \<Rightarrow> go_bind (open_profiles create ps) (\<lambda>fs.
         Inr ((prof @ ''.pprof'', if has_prefix prof ''cpu'' then CPUProfile
           else if has_prefix prof ''heap'' then HeapProfile else NoProfile) # fs)))"

definition command_names :: "string list" where
  "command_names = [''attack'', ''report'', ''plot'', ''encode'', ''dump'']"

datatype main_outcome =
    ShowVersion | ProfileFailed string | UsageExit | UnknownCommand string | RunCommand string "string list"

definition main_dispatch :: "(string \<Rightarrow> string option) \<Rightarrow> bool \<Rightarrow> string \<Rightarrow> string list \<Rightarrow> main_outcome" where
  "main_dispatch create version profile args =
    (if version then ShowVersion
     else case open_profiles create (split CHR '','' profile) of
       Inl e \<Rightarrow> ProfileFailed e
     | Inr _ \<Rightarrow>
         (case args of
            [] \<Rightarrow> UsageExit
          | a # rest \<Rightarrow> if a \<in> set command_names then RunCommand a rest else UnknownCommand a))"

section \<open>Properties\<close>

lemma new_attacker_options:
  "case new_attacker (options_of opts tlsc) of
     Inl p \<Rightarrow> p = BadTypeAssertion \<and> o_h2c opts \<and> o_sessionTickets opts
   | Inr a \<Rightarrow> a_workers a = o_workers opts \<and> a_maxWorkers a = o_maxWorkers opts \<and> a_maxBody a = o_maxBody opts \<and>
       a_timeout a = o_timeout opts \<and> a_redirects a = o_redirects opts \<and> a_chunked a = o_chunked opts"
  by (cases "o_h2c opts"; cases "o_sessionTickets opts"; cases "o_unixSocket opts = []"; cases "o_dnsTTL opts <s 0";
      cases "o_connectTo opts = []")
    (simp_all add: new_attacker_def options_of_def attack_options_def default_attacker_def with_transport_def
      if_transport_def)

lemma new_attacker_Inl:
  "new_attacker (options_of opts tlsc) = Inl p \<Longrightarrow> p = BadTypeAssertion \<and> o_h2c opts \<and> o_sessionTickets opts"
  using new_attacker_options [of opts tlsc] by simp

lemma new_attacker_Inr:
  "new_attacker (options_of opts tlsc) = Inr a \<Longrightarrow> a_workers a = o_workers opts \<and>
    a_maxWorkers a = o_maxWorkers opts \<and> a_maxBody a = o_maxBody opts \<and> a_timeout a = o_timeout opts"
  using new_attacker_options [of opts tlsc] by simp

lemma open_inputs_keys:
  "open_inputs open_in fs files = Inr files' \<Longrightarrow>
    dom (map_of files') = dom (map_of files) \<union> (set fs - {[]})"
  by (induction open_in fs files rule: open_inputs.induct) (auto split: if_splits sum.splits simp: update_conv')

lemma read_body_file_keys:
  "read_body_file bodyf files = Inr (body, files') \<Longrightarrow> dom (map_of files') = dom (map_of files)"
  by (auto simp: read_body_file_def update_conv' split: option.splits if_splits)

lemma read_all_loop_not_empty:
  assumes "read_all_loop t s acc = Some r"
  shows "r \<noteq> Inr []"
  by (rule read_all_loop.raw_induct [OF _ assms]) (auto split: prod.splits sum.splits if_splits)

lemma attack_source_total:
  "\<exists>r. attack_source_of parse_uri read_file decode fmt body hdr lazy src = Some r \<and>
    (case r of
       Inl (AttackPanic p) \<Rightarrow> p = NilDereference \<and> src = None \<and> \<not> lazy
     | Inl _ \<Rightarrow> True
     | Inr (StaticSource ts) \<Rightarrow> \<not> lazy \<and> ts \<noteq> []
     | Inr NilSource \<Rightarrow> lazy \<and> src = None
     | Inr _ \<Rightarrow> lazy)"
proof (cases src)
  case (Some rd)
  obtain bytes err where rd: "rd = (bytes, err)" by force
  let ?j = "read_all_targets (json_targeter decode err body hdr (Some zero_target)) bytes"
  let ?h = "read_all_targets (http_targeter parse_uri read_file body hdr (Some zero_target)) (byte_scanner bytes err)"
  obtain j h where "?j = Some j" "?h = Some h"
    using json_src.read_all_returns http_src.read_all_returns by metis
  moreover from this have "j \<noteq> Inr []" "h \<noteq> Inr []"
    by (simp_all add: read_all_targets_def read_all_loop_not_empty)
  ultimately show ?thesis by (auto simp: attack_source_of_def Some rd split: sum.splits)
qed (simp add: attack_source_of_def)

text \<open>The stages before the targets return errors, not panics.\<close>

lemma resolver_no_panic: "attack_resolver env opts = Inl e \<Longrightarrow> e \<noteq> AttackPanic p"
  by (auto simp: attack_resolver_def split: if_splits sum.splits)

lemma open_inputs_no_panic: "open_inputs open_in fs files = Inl e \<Longrightarrow> e \<noteq> AttackPanic p"
  by (induction open_in fs files rule: open_inputs.induct) (auto split: if_splits sum.splits)

lemma read_body_no_panic: "read_body_file bodyf files = Inl e \<Longrightarrow> e \<noteq> AttackPanic p"
  by (auto simp: read_body_file_def split: option.splits)

lemma finish_setup:
  "case attack_finish_setup env opts res body src of
     Inl (AttackPanic p) \<Rightarrow> p = BadTypeAssertion \<and> o_h2c opts \<and> o_sessionTickets opts
   | Inl _ \<Rightarrow> True
   | Inr run \<Rightarrow> ar_source run = src \<and> ar_rate run = o_rate opts \<and> ar_duration run = o_duration opts \<and>
       a_workers (ar_attacker run) = o_workers opts \<and> a_maxWorkers (ar_attacker run) = o_maxWorkers opts \<and>
       a_maxBody (ar_attacker run) = o_maxBody opts \<and> a_timeout (ar_attacker run) = o_timeout opts"
  by (auto simp: attack_finish_setup_def dest: new_attacker_Inl new_attacker_Inr split: sum.splits)

text \<open>The stages of the setup: an early error, or the targets and then \<open>attack_finish_setup\<close>.\<close>

lemma attack_setup_stages:
  obtains (early) e where "attack_setup env opts = Some (Inl e)" and "e \<notin> range AttackPanic"
  | (targets) res body src r where "\<not> (o_maxWorkers opts = - 1 \<and> Freq (o_rate opts) = 0)"
      and "src = None \<longleftrightarrow> o_targetsf opts = []"
      and "attack_source_of (e_parse_uri env) (e_read_file env) (e_decode env) (o_format opts) body (o_headers opts) (o_lazy opts) src = Some r"
      and "attack_setup env opts = Some (case r of Inl e \<Rightarrow> Inl e | Inr s \<Rightarrow> attack_finish_setup env opts res body s)"
proof -
  let ?files = "open_inputs (e_open_in env) [o_targetsf opts, o_bodyf opts] []"
  consider (rate) "o_maxWorkers opts = - 1 \<and> Freq (o_rate opts) = 0"
    | (resolver) e where "\<not> (o_maxWorkers opts = - 1 \<and> Freq (o_rate opts) = 0)" "attack_resolver env opts = Inl e"
    | (inputs) res e where "\<not> (o_maxWorkers opts = - 1 \<and> Freq (o_rate opts) = 0)" "attack_resolver env opts = Inr res" "?files = Inl e"
    | (body) res files e where "\<not> (o_maxWorkers opts = - 1 \<and> Freq (o_rate opts) = 0)" "attack_resolver env opts = Inr res"
        "?files = Inr files" "read_body_file (o_bodyf opts) files = Inl e"
    | (all_read) res files body files' where "\<not> (o_maxWorkers opts = - 1 \<and> Freq (o_rate opts) = 0)" "attack_resolver env opts = Inr res"
        "?files = Inr files" "read_body_file (o_bodyf opts) files = Inr (body, files')"
    by (metis sum.exhaust surj_pair)
  then show thesis
  proof cases
    case rate
    then show thesis by (intro early [of ZeroRateNeedsMaxWorkers]) (auto simp: attack_setup_def)
  next
    case resolver
    then show thesis using resolver_no_panic [OF resolver(2)] by (intro early [of e]) (auto simp: attack_setup_def)
  next
    case inputs
    then show thesis using open_inputs_no_panic [OF inputs(3)] by (intro early [of e]) (auto simp: attack_setup_def)
  next
    case body
    then show thesis using read_body_no_panic [OF body(4)] by (intro early [of e]) (auto simp: attack_setup_def)
  next
    case all_read
    let ?src = "map_of files' (o_targetsf opts)"
    have "dom (map_of files') = {o_targetsf opts, o_bodyf opts} - {[]}"
      using open_inputs_keys [OF all_read(3)] read_body_file_keys [OF all_read(4)] by simp
    moreover have "?src = None \<longleftrightarrow> o_targetsf opts \<notin> dom (map_of files')" by (simp only: domIff not_not)
    ultimately have none: "?src = None \<longleftrightarrow> o_targetsf opts = []" by simp
    obtain r where "attack_source_of (e_parse_uri env) (e_read_file env) (e_decode env) (o_format opts) body
        (o_headers opts) (o_lazy opts) ?src = Some r"
      using attack_source_total by metis
    then show thesis using all_read by (intro targets [OF all_read(1) none]) (auto simp: attack_setup_def)
  qed
qed


text \<open>Headers as the tool builds them: one entry for a key, no empty key, list or value.\<close>

definition clean_header :: "header \<Rightarrow> bool" where
  "clean_header h \<longleftrightarrow> wf_header h \<and> list_all (\<lambda>(k, vs). k \<noteq> [] \<and> vs \<noteq> [] \<and> [] \<notin> set vs) h"

definition clean_target :: "(string \<Rightarrow> string option) \<Rightarrow> target \<Rightarrow> bool" where
  "clean_target parse_uri t \<longleftrightarrow>
    t_Method t \<noteq> [] \<and> parse_uri (t_URL t) = None \<and> clean_header (target_header t)"

lemma clean_header_append:
  assumes "clean_header h" and "k \<noteq> []" and "v \<noteq> []"
  shows "clean_header (header_append k [v] h)"
proof -
  have upd: "set (AList.update k vs h) \<subseteq> insert (k, vs) (set h)" for vs
    by (induction h) auto
  have "[] \<notin> set (header_get h k)"
  proof (cases "map_of h k")
    case (Some vs)
    then show ?thesis using assms(1) map_of_SomeD [OF Some] by (auto simp: header_get_def clean_header_def list_all_iff)
  qed (simp add: header_get_def)
  then show ?thesis
    using assms upd [of "header_get h k @ [v]"] wf_header_append [of h k "[v]"]
    by (fastforce simp: clean_header_def header_append_def list_all_iff)
qed

lemma headers_set_clean: "clean_header h \<Longrightarrow> clean_header (fst (headers_set h v))"
  by (auto simp: headers_set_def Let_def clean_header_append split: list.splits)

lemma flags_clean: "clean_header (foldl (\<lambda>h v. fst (headers_set h v)) h vs)" if "clean_header h"
  using that by (induction vs arbitrary: h) (simp_all add: headers_set_clean)

lemma read_headers_clean:
  "read_headers read_file s tgt = (s', Inr tgt') \<Longrightarrow> clean_target parse_uri tgt \<Longrightarrow> clean_target parse_uri tgt'"
proof (induction read_file s tgt rule: read_headers.induct)
  case (1 rf s tgt)
  obtain l s1 where n: "next_line s = (l, s1)" by force
  show ?case
  proof (cases l)
    case None
    then show ?thesis using 1(3,4) n by (simp add: read_headers.simps [of rf s])
  next
    case (Some t)
    let ?line = "trim_space t"
    note step = 1(3) [unfolded read_headers.simps [of rf s] n Some, simplified Let_def option.case prod.case]
    consider "?line = []" | "?line \<noteq> []" "has_prefix ?line ''#''"
      | "?line \<noteq> []" "\<not> has_prefix ?line ''#''" "has_prefix ?line ''@''"
      | "?line \<noteq> []" "\<not> has_prefix ?line ''#''" "\<not> has_prefix ?line ''@''" by blast
    then show ?thesis
    proof cases
      case 1
      then show ?thesis using step \<open>clean_target parse_uri tgt\<close> by simp
    next
      case 2
      then show ?thesis using step "1.IH"(1) [OF n [symmetric] Some refl] "1.prems"(2) by simp
    next
      case 3
      then show ?thesis using step "1.prems"(2)
        by (auto simp: clean_target_def target_header_def split: sum.splits)
    next
      case 4
      then obtain k v where kv: "map trim_space (split_n2 CHR '':'' ?line) = [k, v]" "k \<noteq> []" "v \<noteq> []"
        using step by (auto split: list.splits if_splits)
      let ?t = "tgt\<lparr>t_Header := Some (header_append k [v] (target_header tgt))\<rparr>"
      have "read_headers rf s1 ?t = (s', Inr tgt')" using step 4 kv by simp
      moreover have "clean_target parse_uri ?t"
        using "1.prems"(2) kv(2,3) by (simp add: clean_target_def target_header_def clean_header_append)
      ultimately show ?thesis
        using "1.IH"(2) [OF n [symmetric] Some refl 4(1,2,3) kv(1) refl refl] kv(2,3) by simp
    qed
  qed
qed

lemma split_n2_pair: "split_n2 c l = [m, u] \<Longrightarrow> m = takeWhile (\<lambda>x. x \<noteq> c) l"
  by (auto simp: split_n2_def split: if_splits list.splits)

lemma method_not_empty:
  assumes "starts_with_method l" and "split_n2 CHR '' '' l = [m, u]"
  shows "m \<noteq> []"
proof -
  obtain c l' where l: "l = c # l'" "is_upper c" using assms(1) by (cases l) (auto simp: starts_with_method_def split: if_splits)
  then have "c \<noteq> CHR '' ''" by (auto simp: is_upper_def)
  then show ?thesis using split_n2_pair [OF assms(2)] l(1) by simp
qed

lemma http_targeter_clean:
  assumes "http_targeter parse_uri read_file body hdr (Some arg) s = (s', Inr t)" and "clean_header hdr"
  shows "clean_target parse_uri t"
proof -
  obtain line s1 where l: "skip_blank s = (Some line, s1)"
    using assms(1) by (auto simp: http_targeter_def split: prod.splits option.splits)
  obtain m u where mu: "split_n2 CHR '' '' line = [m, u]" "starts_with_method line" "parse_uri u = None"
    using assms(1) l by (auto simp: http_targeter_def split: list.splits if_splits option.splits)
  obtain p s2 where p: "peek s1 = (p, s2)" by force
  let ?t = "\<lparr>t_Method = m, t_URL = u, t_Body = body, t_Header = Some hdr\<rparr>"
  have c: "clean_target parse_uri ?t"
    using method_not_empty [OF mu(2,1)] mu(3) assms(2) by (simp add: clean_target_def)
  show ?thesis
  proof (cases "trim_space p = [] \<or> starts_with_method (trim_space p)")
    case True
    then show ?thesis using assms(1) l mu p c by (simp add: http_targeter_def Let_def)
  next
    case False
    then have "\<exists>s3. read_headers read_file s2 ?t = (s3, Inr t)"
      using assms(1) l mu p by (auto simp: http_targeter_def Let_def split: prod.splits sum.splits if_splits)
    then show ?thesis using read_headers_clean c by blast
  qed
qed

lemma read_all_loop_all:
  fixes f :: "'a targeter"
  assumes "read_all_loop f s acc = Some (Inr ts)" and "\<And>s s' t. f s = (s', Inr t) \<Longrightarrow> Q t" and "list_all Q acc"
  shows "list_all Q ts"
proof -
  let ?P = "\<lambda>(f :: 'a targeter) (s :: 'a) (acc :: target list) (r :: target_error + target list). (\<forall>s s' t. f s = (s', Inr t) \<longrightarrow> Q t) \<longrightarrow> list_all Q acc \<longrightarrow>
    (\<forall>ts. r = Inr ts \<longrightarrow> list_all Q ts)"
  have "?P f s acc (Inr ts)"
  proof (rule read_all_loop.raw_induct [where P = ?P, OF _ assms(1)])
    fix loop and f :: "'a targeter" and s acc r
    assume IH: "\<And>f s acc r. loop f s acc = Some r \<Longrightarrow> ?P f s acc r"
      and run: "(case f s of (s', r) \<Rightarrow> case r of
          Inl e \<Rightarrow> if e = ErrNoTargets then Some (if acc = [] then Inl ErrNoTargets else Inr acc) else Some (Inl e)
        | Inr tgt \<Rightarrow> loop f s' (acc @ [tgt])) = Some r"
    obtain s' x where x: "f s = (s', x)" by force
    show "?P f s acc r"
    proof (cases x)
      case (Inr t)
      then show ?thesis using IH [of f s' "acc @ [t]" r] run x by auto
    qed (use run x in \<open>auto split: if_splits\<close>)
  qed
  then show ?thesis using assms(2,3) by auto
qed

text \<open>
  C23. The targets of an eager run in the HTTP format are well formed, whatever the file and the
  \<open>-header\<close> flags are: a method, a URL the parser accepts, and headers with one entry for each key,
  without empty keys, value lists or values.
\<close>

theorem targets_well_formed:
  "case read_all_targets (http_targeter parse_uri read_file body (foldl (\<lambda>h v. fst (headers_set h v)) [] vs)
      (Some zero_target)) s of
     Some (Inr ts) \<Rightarrow> list_all (clean_target parse_uri) ts
   | _ \<Rightarrow> True"
proof -
  let ?hdr = "foldl (\<lambda>h v. fst (headers_set h v)) [] vs"
  have "clean_header ?hdr" by (rule flags_clean) (simp add: clean_header_def)
  then have "list_all (clean_target parse_uri) ts"
    if "read_all_targets (http_targeter parse_uri read_file body ?hdr (Some zero_target)) s = Some (Inr ts)" for ts
    using that http_targeter_clean unfolding read_all_targets_def by (elim read_all_loop_all) simp_all
  then show ?thesis by (simp split: option.splits sum.splits)
qed

text \<open>\<open>atk.Attack(tr, opts.rate, opts.duration, opts.name)\<close> at time \<open>t0\<close>, and what bounds its run.\<close>

definition run_config :: "attack_run \<Rightarrow> (string \<Rightarrow> string \<Rightarrow> string option \<Rightarrow> string + http_request) \<Rightarrow> time \<Rightarrow> attack_config" where
  "run_config run new_request t0 = \<lparr>c_attacker = ar_attacker run, c_name = ar_name run, c_began = t0,
    c_du = ar_duration run, c_pace = constant_pace (ar_rate run), c_new_request = new_request\<rparr>"

lemma attack_setup_run:
  assumes "attack_setup env opts = Some (Inr run)"
  shows "ar_name run = o_name opts \<and> ar_rate run = o_rate opts \<and> ar_duration run = o_duration opts \<and>
    a_maxWorkers (ar_attacker run) = o_maxWorkers opts"
proof -
  obtain res body src where run: "attack_finish_setup env opts res body src = Inr run"
    using assms by (cases rule: attack_setup_stages [of env opts]) (auto split: sum.splits)
  then have "ar_name run = o_name opts" by (auto simp: attack_finish_setup_def split: sum.splits if_splits)
  then show ?thesis using finish_setup [where env = env and opts = opts and res = res and body = body and src = src] run by simp
qed

text \<open>
  C3. The attack that \<open>vegeta attack\<close> starts stays within its flags, in every interleaving of its
  goroutines and under every delay: up to the pacer's overflow limit, the hits begun are never more
  than \<open>-rate\<close> allows in the time elapsed, nor more than one above what it allows in a positive
  \<open>-duration\<close>; no more workers than \<open>-max-workers\<close> run; and every result carries \<open>-name\<close>.
\<close>

theorem attack_command_bounded:
  assumes "attack_setup env opts = Some (Inr run)" and "reachable (run_config run new_request t0) s"
    and "ticks_sent s \<le> constant_limit (o_rate opts)"
  shows "enat (length (history s)) \<le> constant_budget (o_rate opts) (clock s) \<and>
    (if 0 < sint (o_duration opts) \<and> sint (o_duration opts) < 2 ^ 63 - 1
     then enat (length (history s)) \<le> constant_budget (o_rate opts) (sint (o_duration opts)) + 1 else True) \<and>
    live (workers s) \<le> unat (o_maxWorkers opts) \<and> list_all (\<lambda>r. Attack r = o_name opts) (delivered s)"
proof -
  let ?c = "run_config run new_request t0"
  note setup_run = attack_setup_run [OF assms(1)]
  have c: "c_pace ?c = constant_pace (o_rate opts)" "c_du ?c = o_duration opts" "c_name ?c = o_name opts"
    "a_maxWorkers (c_attacker ?c) = o_maxWorkers opts"
    using setup_run by (simp_all add: run_config_def)
  have h: "enat (length (history s)) \<le> enat (ticks_sent s)" by (simp add: ticks_sent_def)
  have "enat (ticks_sent s) \<le> constant_budget (o_rate opts) (clock s)"
    by (rule const_rate.rate_bounded [OF assms(2) c(1) constant_limit_le assms(3)])
  then have 1: "enat (length (history s)) \<le> constant_budget (o_rate opts) (clock s)" by (rule order_trans [OF h])
  have 2: "enat (length (history s)) \<le> constant_budget (o_rate opts) (sint (o_duration opts)) + 1"
    if "0 < sint (o_duration opts) \<and> sint (o_duration opts) < 2 ^ 63 - 1"
    using const_rate.duration_bounded [OF assms(2) c(1) constant_limit_le assms(3), unfolded c(2)] that
    by (meson h order_trans)
  have "live (workers s) \<le> size (workers s)" unfolding live_def by (rule size_filter_mset_lesseq)
  then have 3: "live (workers s) \<le> unat (o_maxWorkers opts)"
    using reachable_chan_inv [OF assms(2)] by (simp add: chan_inv_def c(4) word_le_nat_alt)
  have 4: "list_all (\<lambda>r. Attack r = o_name opts) (delivered s)"
    using reachable_names [OF assms(2)] by (simp add: c(3) list_all_iff)
  show ?thesis using 1 2 3 4 by simp
qed

definition demo_env :: attack_env where
  "demo_env = \<lparr>e_is_ip = (\<lambda>_. True), e_open_in = (\<lambda>f. Inr (''GET http://a/'', None)), e_open_out = (\<lambda>_ _. None),
    e_parse_uri = (\<lambda>_. None), e_read_file = (\<lambda>_. Inr []), e_decode = (\<lambda>_. Inl []), e_key_pair = (\<lambda>_ _. Inl []),
    e_pem_ok = (\<lambda>_. False), e_register = (\<lambda>_. None)\<rparr>"

theorem attack_command_bounded_witness:
  "\<exists>run. attack_setup demo_env (default_opts\<lparr>o_lazy := True, o_maxWorkers := 3\<rparr>) = Some (Inr run) \<and>
    live (workers (init_state (run_config run (\<lambda>_ _ _. Inl []) 0) False)) \<le> 3"
proof -
  let ?opts = "default_opts\<lparr>o_lazy := True, o_maxWorkers := 3\<rparr>"
  obtain run where run: "attack_setup demo_env ?opts = Some (Inr run)"
    by (simp add: attack_setup_def attack_resolver_def read_body_file_def attack_source_of_def default_opts_def demo_env_def
        attack_finish_setup_def open_file_def tls_config_of_def new_attacker_def options_of_def attack_options_def default_attacker_def
        with_transport_def if_transport_def default_transport_def)
  let ?s = "init_state (run_config run (\<lambda>_ _ _. Inl []) 0) False"
  have "reachable (run_config run (\<lambda>_ _ _. Inl []) 0) ?s" by (rule reachable.start)
  moreover have "ticks_sent ?s \<le> constant_limit (o_rate ?opts)" by (simp add: ticks_sent_def init_state_def Let_def)
  ultimately show ?thesis using attack_command_bounded [OF run] run by (auto simp: default_opts_def)
qed

end
