(* ===== verification/Command_Runs.thy ===== *)
theory Command_Runs
  imports Commands
begin

text \<open>
  \<open>vegeta encode\<close>, \<open>vegeta report\<close> and \<open>vegeta plot\<close> from the command line to the output: the flags
  with their defaults, what the command opens, the object it picks, and its loop to the end.

  Parameters: \<open>parse\<close> (the \<open>flag\<close> package: the flags after the command line and the arguments left,
  or the code the process exits with), the operating system and the codecs, as in theory
  \<open>Commands\<close>. A run is \<open>None\<close> while its loop has not ended; no output is \<open>None\<close> in its result.
\<close>

type_synonym 'fl flag_parser = "'fl \<Rightarrow> string list \<Rightarrow> int + 'fl \<times> string list"

text \<open>The last step of the commands: on to the files, \<open>stdin\<close> if there are none.\<close>

definition with_flags :: "'fl flag_parser \<Rightarrow> 'fl \<Rightarrow> ('fl \<Rightarrow> string list \<Rightarrow> 'r) \<Rightarrow> string list \<Rightarrow> int + 'r" where
  "with_flags parse defaults run args =
    go_bind (parse defaults args) (\<lambda>(fl, files). Inr (run fl (input_files files)))"

section \<open>vegeta encode\<close>

record encode_flags =
  ef_to :: string
  ef_output :: string

definition default_encode_flags :: encode_flags where
  "default_encode_flags = \<lparr>ef_to = ''json'', ef_output = ''stdout''\<rparr>"

text \<open>The encoder of \<open>NewCSVEncoder\<close> over a writer in memory.\<close>

definition csv_encoder :: "string encoder" where
  "csv_encoder w r = (w @ csv_encode r, None)"

lemma csv_encoder_all: "foldl (\<lambda>w r. fst (csv_encoder w r)) w rs = w @ concat (map csv_encode rs)"
  by (induction rs arbitrary: w) (simp_all add: csv_encoder_def)

definition encode_run :: "(string \<Rightarrow> string + 'f) \<Rightarrow> ('f \<Rightarrow> 's option) \<Rightarrow> (string \<Rightarrow> string + 'w) \<Rightarrow> (encoding \<Rightarrow> 'w encoder) \<Rightarrow>
    's decoder \<Rightarrow> choice list \<Rightarrow> string list \<Rightarrow> string \<Rightarrow> string \<Rightarrow> ('w option \<times> cmd_error option) option" where
  "encode_run open_in detect create encoder dec cs files to output =
    (case encode_setup open_in detect create files to output of
       Inl e \<Rightarrow> Some (None, Some e)
     | Inr (decs, out, enc) \<Rightarrow>
         map_option (\<lambda>(w, e). (Some w, e)) (encode_loop (encoder enc) (round_robin_decoder dec) cs (0, decs) out))"

definition encode_cmd :: "encode_flags flag_parser \<Rightarrow> (string \<Rightarrow> string + 'f) \<Rightarrow> ('f \<Rightarrow> 's option) \<Rightarrow> (string \<Rightarrow> string + 'w) \<Rightarrow>
    (encoding \<Rightarrow> 'w encoder) \<Rightarrow> 's decoder \<Rightarrow> choice list \<Rightarrow> string list \<Rightarrow> int + ('w option \<times> cmd_error option) option" where
  "encode_cmd parse open_in detect create encoder dec cs =
    with_flags parse default_encode_flags (\<lambda>fl files.
      encode_run open_in detect create encoder dec cs files (ef_to fl) (ef_output fl))"

section \<open>vegeta report\<close>

text \<open>The report is a \<open>Metrics\<close>, or a \<open>Histogram\<close>, which has no \<open>Close\<close>.\<close>

datatype 'e report_value = MetricsReport "'e metrics" | HistogramReport histogram

record ('e, 'w) report_env =
  re_new :: 'e                            \<comment> \<open>\<open>newTdigestEstimator\<close>\<close>
  re_add :: "'e \<Rightarrow> float64 \<Rightarrow> 'e"
  re_get :: "'e query"
  re_tab :: "'w tab_write"
  re_flush :: "'w tab_flush"
  re_marshal :: "'e metrics \<Rightarrow> panic + string + string"
  re_write :: "'w \<Rightarrow> string \<Rightarrow> 'w \<times> string option"
  re_clear :: "'w \<Rightarrow> 'w \<times> string option"

fun report_start :: "('e, 'w) report_env \<Rightarrow> report_kind \<Rightarrow> 'e report_value" where
  "report_start env (HistReport bs) = HistogramReport (new_histogram bs)"
| "report_start env (JSONReport bs) = MetricsReport (new_metrics (re_new env) (map_option new_histogram bs))"
| "report_start env _ = MetricsReport (new_metrics (re_new env) None)"

fun report_value_add :: "('e, 'w) report_env \<Rightarrow> 'e report_value \<Rightarrow> result \<Rightarrow> 'e report_value go" where
  "report_value_add env (MetricsReport m) r = go_bind (metrics_add (re_add env) m r) (\<lambda>m'. Inr (MetricsReport m'))"
| "report_value_add env (HistogramReport h) r = go_bind (histogram_add h r) (\<lambda>h'. Inr (HistogramReport h'))"

fun report_value_close :: "('e, 'w) report_env \<Rightarrow> 'e report_value \<Rightarrow> 'e report_value" where
  "report_value_close env (MetricsReport m) = MetricsReport (metrics_close (re_get env) m)"
| "report_value_close env (HistogramReport h) = HistogramReport h"

fun report_closer :: "('e, 'w) report_env \<Rightarrow> report_kind \<Rightarrow> ('e report_value \<Rightarrow> 'e report_value) option" where
  "report_closer env (HistReport bs) = None"
| "report_closer env _ = Some (report_value_close env)"

text \<open>The reporter of a kind, on the value of that kind.\<close>

fun report_writer :: "('e, 'w) report_env \<Rightarrow> report_kind \<Rightarrow> 'e report_value \<Rightarrow> 'w \<Rightarrow> 'w reported" where
  "report_writer env kind (HistogramReport h) w = histogram_reporter (re_tab env) (re_flush env) h w"
| "report_writer env TextReport (MetricsReport m) w = text_reporter (re_tab env) (re_flush env) m w"
| "report_writer env HDRReport (MetricsReport m) w = hdr_reporter (re_get env) (re_tab env) (re_flush env) m w"
| "report_writer env _ (MetricsReport m) w = json_reporter (re_marshal env) (re_write env) m w"

text \<open>Without an interval there is no ticker: its channel is nil and its case is never taken.\<close>

definition report_choices :: "duration \<Rightarrow> choice list \<Rightarrow> choice list" where
  "report_choices every cs = (if 0 <s every then cs else filter (\<lambda>c. c \<noteq> TickerFired) cs)"

definition report_run :: "('e, 'w) report_env \<Rightarrow> (string \<Rightarrow> string + 'f) \<Rightarrow> ('f \<Rightarrow> 's option) \<Rightarrow> (string \<Rightarrow> string + 'w) \<Rightarrow>
    's decoder \<Rightarrow> choice list \<Rightarrow> string list \<Rightarrow> string \<Rightarrow> string \<Rightarrow> duration \<Rightarrow> string \<Rightarrow>
    (('e report_value \<times> 'w) option \<times> cmd_error option) option" where
  "report_run env open_in detect create dec cs files typ output every bucketsStr =
    (case report_setup open_in detect create files typ output bucketsStr of
       Inl e \<Rightarrow> Some (None, Some e)
     | Inr (decs, out, kind) \<Rightarrow>
         map_option (\<lambda>(v, w, e). (Some (v, w), e))
           (report_loop (report_closer env kind) (report_writer env kind) (re_clear env) (round_robin_decoder dec)
             (report_value_add env) (report_choices every cs) (0, decs) (report_start env kind) out))"

record report_flags =
  rf_type :: string
  rf_every :: duration
  rf_output :: string
  rf_buckets :: string

definition default_report_flags :: report_flags where
  "default_report_flags = \<lparr>rf_type = ''text'', rf_every = 0, rf_output = ''stdout'', rf_buckets = []\<rparr>"

definition report_cmd :: "report_flags flag_parser \<Rightarrow> ('e, 'w) report_env \<Rightarrow> (string \<Rightarrow> string + 'f) \<Rightarrow> ('f \<Rightarrow> 's option) \<Rightarrow>
    (string \<Rightarrow> string + 'w) \<Rightarrow> 's decoder \<Rightarrow> choice list \<Rightarrow> string list \<Rightarrow>
    int + (('e report_value \<times> 'w) option \<times> cmd_error option) option" where
  "report_cmd parse env open_in detect create dec cs =
    with_flags parse default_report_flags (\<lambda>fl files.
      report_run env open_in detect create dec cs files (rf_type fl) (rf_output fl) (rf_every fl) (rf_buckets fl))"

section \<open>vegeta plot\<close>

record plot_flags =
  pf_title :: string
  pf_threshold :: int
  pf_output :: string

definition default_plot_flags :: plot_flags where
  "default_plot_flags = \<lparr>pf_title = ''Vegeta Plot'', pf_threshold = 4000, pf_output = ''stdout''\<rparr>"

definition plot_cmd :: "plot_flags flag_parser \<Rightarrow> 'd pusher \<Rightarrow> 'd \<Rightarrow> ('d \<Rightarrow> 'd) \<Rightarrow>
    ('d plot \<Rightarrow> 'w \<Rightarrow> 'w \<times> i64 \<times> failure option) \<Rightarrow> (string \<Rightarrow> string + 'f) \<Rightarrow> ('f \<Rightarrow> 's option) \<Rightarrow>
    (string \<Rightarrow> string + 'w) \<Rightarrow> 's decoder \<Rightarrow> choice list \<Rightarrow> string list \<Rightarrow> int + ('w option \<times> cmd_error option) option" where
  "plot_cmd parse push new end_series write_to open_in detect create dec cs =
    with_flags parse default_plot_flags (\<lambda>fl files.
      case plot_setup open_in detect create files (pf_threshold fl) (pf_title fl) (pf_output fl) of
        Inl e \<Rightarrow> Some (None, Some e)
      | Inr (decs, out, p) \<Rightarrow>
          map_option (\<lambda>(w, e). (Some w, e))
            (plot_run push new end_series write_to (round_robin_decoder dec) cs (0, decs) p out))"

section \<open>Opening the files of a command\<close>

text \<open>Inputs that open, are detected and hold the results that the CSV encoder wrote.\<close>

definition csv_inputs :: "(string \<Rightarrow> string + 'f) \<Rightarrow> ('f \<Rightarrow> string option) \<Rightarrow> string list \<Rightarrow> result list list \<Rightarrow> bool" where
  "csv_inputs open_in detect files rss \<longleftrightarrow>
    list_all2 (\<lambda>f rs. \<exists>rc. open_in f = Inr rc \<and> detect rc = Some (concat (map csv_encode rs)) \<and> list_all csv_safe rs) files rss"

lemma open_decoders_csv:
  "csv_inputs open_in detect files rss \<Longrightarrow>
    fst (open_decoders open_in detect files decs closer) = Inr (decs @ map (\<lambda>rs. concat (map csv_encode rs)) rss)"
  unfolding csv_inputs_def by (induction files rss arbitrary: decs closer rule: list_all2_induct) auto

lemma open_inputs_output_csv:
  "csv_inputs open_in detect files rss \<Longrightarrow> create output = Inr w \<Longrightarrow>
    open_inputs_output open_in detect create files output = Inr (map (\<lambda>rs. concat (map csv_encode rs)) rss, w)"
  using open_decoders_csv [of open_in detect files rss "[]" "[]"] by (simp add: open_inputs_output_def)

text \<open>Reading them gives every result, in an order that keeps the order of each file.\<close>

lemma csv_inputs_read:
  assumes "csv_inputs open_in detect (input_files files) rss" and "(length (concat rss) + 1) * length rss < 2 ^ 64"
  obtains ys where "decode_all (round_robin_decoder csv_decoder) (0, map (\<lambda>rs. concat (map csv_encode rs)) rss) = Some (ys, EOF)"
    and "mset ys = mset (concat rss)" and "list_all (\<lambda>rs. subseq rs ys) rss"
proof -
  have "rss \<noteq> []" using assms(1) by (auto simp: csv_inputs_def input_files_def split: if_splits)
  moreover have "list_all (list_all csv_safe) rss"
    using assms(1) unfolding csv_inputs_def by (induction rule: list_all2_induct) auto
  ultimately show ?thesis using csv_files_read [OF _ _ assms(2)] that by blast
qed

lemma length_of_mset: "mset ys = mset xs \<Longrightarrow> length ys = length xs"
  by (metis size_mset)

lemma length_filter_of_mset: "mset ys = mset xs \<Longrightarrow> length (filter P ys) = length (filter P xs)"
  by (metis mset_filter size_mset)

lemma report_choices_whole: "report_choices every (whole rs) = whole rs"
  by (simp add: report_choices_def)

section \<open>Properties\<close>





end
