(* ===== verification/Json_Codecs.thy ===== *)
theory Json_Codecs
  imports Results Targets
begin

text \<open>
  The JSON codecs: the encoders and decoders of a \<open>Result\<close> (\<open>lib/results_easyjson.go\<close>) and of a
  \<open>Target\<close> (\<open>lib/targets_easyjson.go\<close>), and the encoders over them, \<open>NewJSONEncoder\<close> and
  \<open>NewJSONTargetEncoder\<close>.

  The token writer and the lexer under them are third-party packages: records of their methods,
  \<open>jwriter\<close> on a writer's state and \<open>jlexer\<close> on a lexer's. What they document is \<open>writes_json\<close> and
  \<open>reads_json\<close>, for the quoting \<open>q\<close> of a string literal; under it every safe result and every
  safe target is read back as it was written. \<open>line_writer\<close> and \<open>text_lexer\<close> satisfy both.
\<close>

section \<open>The writer and the lexer\<close>

text \<open>One method call on \<open>jwriter.Writer\<close>; \<open>Raw\<close> takes an error or bytes, and \<open>None\<close> is a nil
  slice to \<open>Base64Bytes\<close>.\<close>

datatype jw_call =
    RawByte char
  | RawString string
  | WriteString string
  | WriteUint64 u64
  | WriteUint16 u16
  | WriteInt64 i64
  | WriteRaw "string + string"
  | WriteBase64 "string option"

record ('w, 'o) jwriter =
  jw_do :: "jw_call \<Rightarrow> 'w \<Rightarrow> 'w"
  jw_Error :: "'w \<Rightarrow> string option"
  jw_nil_map_as_empty :: "'w \<Rightarrow> bool"
  jw_nil_slice_as_empty :: "'w \<Rightarrow> bool"
  jw_DumpTo :: "'w \<Rightarrow> 'o \<Rightarrow> 'w \<times> 'o \<times> string option"

text \<open>A method that reads moves the lexer, also one that only looks at the next token.\<close>

record 'l jlexer =
  jl_new :: "string \<Rightarrow> 'l"
  jl_Error :: "'l \<Rightarrow> string option"
  jl_Ok :: "'l \<Rightarrow> bool"
  jl_AddError :: "string option \<Rightarrow> 'l \<Rightarrow> 'l"
  jl_IsStart :: "'l \<Rightarrow> bool"
  jl_Consumed :: "'l \<Rightarrow> 'l"
  jl_IsNull :: "'l \<Rightarrow> bool \<times> 'l"
  jl_Skip :: "'l \<Rightarrow> 'l"
  jl_SkipRecursive :: "'l \<Rightarrow> 'l"
  jl_Delim :: "char \<Rightarrow> 'l \<Rightarrow> 'l"
  jl_IsDelim :: "char \<Rightarrow> 'l \<Rightarrow> bool \<times> 'l"
  jl_WantColon :: "'l \<Rightarrow> 'l"
  jl_WantComma :: "'l \<Rightarrow> 'l"
  jl_UnsafeFieldName :: "'l \<Rightarrow> string \<times> 'l"
  jl_UnsafeString :: "'l \<Rightarrow> string \<times> 'l"
  jl_String :: "'l \<Rightarrow> string \<times> 'l"
  jl_Raw :: "'l \<Rightarrow> string \<times> 'l"
  jl_Bytes :: "'l \<Rightarrow> string \<times> 'l"
  jl_Uint64 :: "'l \<Rightarrow> u64 \<times> 'l"
  jl_Uint16 :: "'l \<Rightarrow> u16 \<times> 'l"
  jl_Int64 :: "'l \<Rightarrow> i64 \<times> 'l"

text \<open>Only here the code tells a nil slice from an empty one: which of the empty slices are nil.\<close>

record nil_slices =
  nil_body :: bool
  nil_values :: "string \<Rightarrow> bool"

section \<open>Encoding\<close>

text \<open>The prefix \<open>,"name":\<close> without its comma.\<close>

definition field_prefix :: "string \<Rightarrow> string" where
  "field_prefix k = quote # k @ [quote, CHR '':'']"

fun separated :: "jw_call list list \<Rightarrow> jw_call list" where
  "separated [] = []"
| "separated [c] = c"
| "separated (c # cs) = c @ RawByte comma # separated cs"

definition values_calls :: "bool \<Rightarrow> nil_slices \<Rightarrow> string \<times> string list \<Rightarrow> jw_call list" where
  "values_calls nil_as_empty nils = (\<lambda>(k, vs). [WriteString k, RawByte CHR '':''] @
    (if vs = [] \<and> nil_values nils k \<and> \<not> nil_as_empty then [RawString ''null'']
     else RawByte CHR ''['' # separated (map (\<lambda>v. [WriteString v]) vs) @ [RawByte CHR '']'']))"

definition header_calls :: "bool \<Rightarrow> nil_slices \<Rightarrow> header \<Rightarrow> jw_call list" where
  "header_calls nil_as_empty nils h =
    RawByte CHR ''{'' # separated (map (values_calls nil_as_empty nils) h) @ [RawByte CHR ''}'']"

definition bytes_of :: "bool \<Rightarrow> string \<Rightarrow> string option" where
  "bytes_of nil b = (if b = [] \<and> nil then None else Some b)"

text \<open>The calls of the generated encoder of a result; \<open>time_text\<close> is \<open>Time.MarshalJSON\<close>, with the
  location the model leaves out.\<close>

definition result_calls :: "bool \<Rightarrow> bool \<Rightarrow> nil_slices \<Rightarrow> (time \<Rightarrow> string + string) \<Rightarrow> result \<Rightarrow> jw_call list" where
  "result_calls nil_map_as_empty nil_slice_as_empty nils time_text r =
    [RawByte CHR ''{'',
     RawString (field_prefix ''attack''), WriteString (Attack r),
     RawString (comma # field_prefix ''seq''), WriteUint64 (Seq r),
     RawString (comma # field_prefix ''code''), WriteUint16 (Code r),
     RawString (comma # field_prefix ''timestamp''), WriteRaw (time_text (Timestamp r)),
     RawString (comma # field_prefix ''latency''), WriteInt64 (Latency r),
     RawString (comma # field_prefix ''bytes_out''), WriteUint64 (BytesOut r),
     RawString (comma # field_prefix ''bytes_in''), WriteUint64 (BytesIn r),
     RawString (comma # field_prefix ''error''), WriteString (Error r),
     RawString (comma # field_prefix ''body''), WriteBase64 (bytes_of (nil_body nils) (Body r)),
     RawString (comma # field_prefix ''method''), WriteString (Method r),
     RawString (comma # field_prefix ''url''), WriteString (URL r),
     RawString (comma # field_prefix ''headers'')] @
    (case Headers r of
       None \<Rightarrow> if nil_map_as_empty then header_calls nil_slice_as_empty nils [] else [RawString ''null'']
     | Some h \<Rightarrow> header_calls nil_slice_as_empty nils h) @
    [RawByte CHR ''}'']"

text \<open>The encoder of a target leaves out an empty body and an empty header.\<close>

definition target_calls :: "bool \<Rightarrow> nil_slices \<Rightarrow> target \<Rightarrow> jw_call list" where
  "target_calls nil_slice_as_empty nils t =
    [RawByte CHR ''{'',
     RawString (field_prefix ''method''), WriteString (t_Method t),
     RawString (comma # field_prefix ''url''), WriteString (t_URL t)] @
    (if t_Body t \<noteq> [] then [RawString (comma # field_prefix ''body''), WriteBase64 (Some (t_Body t))] else []) @
    (if target_header t \<noteq> [] then RawString (comma # field_prefix ''header'') # header_calls nil_slice_as_empty nils (target_header t)
     else []) @
    [RawByte CHR ''}'']"

text \<open>\<open>NewJSONEncoder\<close> and \<open>NewJSONTargetEncoder\<close>: the writer lives as long as the encoder, and its
  error is returned by every later call. The first argument gives the calls for a value.\<close>

definition json_line_encoder :: "('w, 'o) jwriter \<Rightarrow> ('w \<Rightarrow> 'a \<Rightarrow> jw_call list) \<Rightarrow> 'w \<times> 'o \<Rightarrow> 'a \<Rightarrow> ('w \<times> 'o) \<times> string option" where
  "json_line_encoder wr calls = (\<lambda>(w, out) x.
    let w1 = fold (jw_do wr) (calls w x) w in
    if jw_Error wr w1 \<noteq> None then ((w1, out), jw_Error wr w1)
    else case jw_DumpTo wr (jw_do wr (RawByte nl) w1) out of (w2, out', e) \<Rightarrow> ((w2, out'), e))"

definition json_encoder :: "('w, 'o) jwriter \<Rightarrow> (result \<Rightarrow> nil_slices) \<Rightarrow> (time \<Rightarrow> string + string) \<Rightarrow>
    'w \<times> 'o \<Rightarrow> result \<Rightarrow> ('w \<times> 'o) \<times> string option" where
  "json_encoder wr nils time_text = json_line_encoder wr (\<lambda>w r.
    result_calls (jw_nil_map_as_empty wr w) (jw_nil_slice_as_empty wr w) (nils r) time_text r)"

definition json_target_encoder :: "('w, 'o) jwriter \<Rightarrow> (target \<Rightarrow> nil_slices) \<Rightarrow>
    'w \<times> 'o \<Rightarrow> target \<Rightarrow> ('w \<times> 'o) \<times> string option" where
  "json_target_encoder wr nils = json_line_encoder wr (\<lambda>w t.
    target_calls (jw_nil_slice_as_empty wr w) (nils t) t)"

section \<open>Decoding\<close>

text \<open>\<open>None\<close> is a loop that does not end, which is up to the lexer; \<open>Inl\<close> is a panic.\<close>

definition run_bind :: "'a go option \<Rightarrow> ('a \<Rightarrow> 'b go option) \<Rightarrow> 'b go option" where
  "run_bind m f = Option.bind m (\<lambda>x. case x of Inl p \<Rightarrow> Some (Inl p) | Inr y \<Rightarrow> f y)"

lemma run_bind_simps [simp]:
  "run_bind None f = None"
  "run_bind (Some (Inl p)) f = Some (Inl p)"
  "run_bind (Some (Inr x)) f = f x"
  by (simp_all add: run_bind_def)

lemma run_bind_mono [partial_function_mono]:
  assumes "mono_option m" and "\<And>y. mono_option (\<lambda>f. g y f)"
  shows "mono_option (\<lambda>f. run_bind (m f) (\<lambda>y. g y f))"
  unfolding run_bind_def
proof (rule bind_mono [OF assms(1)])
  fix x
  show "mono_option (\<lambda>f. case x of Inl p \<Rightarrow> Some (Inl p) | Inr y \<Rightarrow> g y f)"
    using assms(2) by (cases x) (simp_all add: option.const_mono)
qed

partial_function (option) read_strings :: "'l jlexer \<Rightarrow> 'l \<Rightarrow> string list \<Rightarrow> (string list \<times> 'l) option" where
  "read_strings lx l acc =
    (case jl_IsDelim lx CHR '']'' l of (end_of_list, l) \<Rightarrow>
       if end_of_list then Some (acc, l)
       else case jl_String lx l of (s, l) \<Rightarrow> read_strings lx (jl_WantComma lx l) (acc @ [s]))"

definition read_values :: "'l jlexer \<Rightarrow> 'l \<Rightarrow> (string list \<times> 'l) option" where
  "read_values lx l =
    (case jl_IsNull lx l of (null, l) \<Rightarrow>
       if null then Some ([], jl_Skip lx l)
       else case jl_IsDelim lx CHR '']'' (jl_Delim lx CHR ''['' l) of (_, l) \<Rightarrow>
         Option.bind (read_strings lx l []) (\<lambda>(vs, l). Some (vs, jl_Delim lx CHR '']'' l)))"

text \<open>The loop that fills the header map, which panics on a nil map.\<close>

partial_function (option) read_header :: "'l jlexer \<Rightarrow> 'l \<Rightarrow> header option \<Rightarrow> (header option \<times> 'l) go option" where
  "read_header lx l h =
    (case jl_IsDelim lx CHR ''}'' l of (end_of_map, l) \<Rightarrow>
       if end_of_map then Some (Inr (h, l))
       else case jl_String lx l of (k, l) \<Rightarrow>
         Option.bind (read_values lx (jl_WantColon lx l)) (\<lambda>(vs, l).
           case h of
             None \<Rightarrow> Some (Inl NilMapWrite)
           | Some m \<Rightarrow> read_header lx (jl_WantComma lx l) (Some (AList.update k vs m))))"

text \<open>What both decoders share: the object loop, given how a key is read and what a field does.\<close>

partial_function (option) decode_fields ::
    "'l jlexer \<Rightarrow> ('l \<Rightarrow> string \<times> 'l) \<Rightarrow> (string \<Rightarrow> 'l \<Rightarrow> 'a \<Rightarrow> ('a \<times> 'l) go option) \<Rightarrow> 'l \<Rightarrow> 'a \<Rightarrow> ('a \<times> 'l) go option" where
  "decode_fields lx name field l out =
    (case jl_IsDelim lx CHR ''}'' l of (end_of_map, l) \<Rightarrow>
       if end_of_map then Some (Inr (out, l))
       else case name l of (key, l) \<Rightarrow>
         case jl_IsNull lx (jl_WantColon lx l) of (null, l) \<Rightarrow>
           if null then decode_fields lx name field (jl_WantComma lx (jl_Skip lx l)) out
           else run_bind (field key l out) (\<lambda>(out, l). decode_fields lx name field (jl_WantComma lx l) out))"

definition decode_object ::
    "'l jlexer \<Rightarrow> ('l \<Rightarrow> string \<times> 'l) \<Rightarrow> (string \<Rightarrow> 'l \<Rightarrow> 'a \<Rightarrow> ('a \<times> 'l) go option) \<Rightarrow> 'l \<Rightarrow> 'a \<Rightarrow> ('a \<times> 'l) go option" where
  "decode_object lx name field l out =
    (let top = jl_IsStart lx l in
     case jl_IsNull lx l of (null, l) \<Rightarrow>
       if null then Some (Inr (out, jl_Skip lx (if top then jl_Consumed lx l else l)))
       else run_bind (decode_fields lx name field (jl_Delim lx CHR ''{'' l) out) (\<lambda>(out, l).
         let l = jl_Delim lx CHR ''}'' l in
         Some (Inr (out, if top then jl_Consumed lx l else l))))"

definition assign :: "'x \<times> 'l \<Rightarrow> ('x \<Rightarrow> 'a) \<Rightarrow> ('a \<times> 'l) go option" where
  "assign = (\<lambda>(x, l) set_field. Some (Inr (set_field x, l)))"

text \<open>The switch of the result's decoder. \<open>time_of\<close> is \<open>Time.UnmarshalJSON\<close> on the time it is to
  overwrite.\<close>

definition result_field ::
    "'l jlexer \<Rightarrow> (string \<Rightarrow> time \<Rightarrow> time \<times> string option) \<Rightarrow> string \<Rightarrow> 'l \<Rightarrow> result \<Rightarrow> (result \<times> 'l) go option" where
  "result_field lx time_of key l r =
    (if key = ''attack'' then assign (jl_String lx l) (\<lambda>s. r\<lparr>Attack := s\<rparr>)
     else if key = ''seq'' then assign (jl_Uint64 lx l) (\<lambda>n. r\<lparr>Seq := n\<rparr>)
     else if key = ''code'' then assign (jl_Uint16 lx l) (\<lambda>n. r\<lparr>Code := n\<rparr>)
     else if key = ''timestamp'' then
       (case jl_Raw lx l of (data, l) \<Rightarrow>
          if jl_Ok lx l then
            (case time_of data (Timestamp r) of (t, e) \<Rightarrow> Some (Inr (r\<lparr>Timestamp := t\<rparr>, jl_AddError lx e l)))
          else Some (Inr (r, l)))
     else if key = ''latency'' then assign (jl_Int64 lx l) (\<lambda>n. r\<lparr>Latency := n\<rparr>)
     else if key = ''bytes_out'' then assign (jl_Uint64 lx l) (\<lambda>n. r\<lparr>BytesOut := n\<rparr>)
     else if key = ''bytes_in'' then assign (jl_Uint64 lx l) (\<lambda>n. r\<lparr>BytesIn := n\<rparr>)
     else if key = ''error'' then assign (jl_String lx l) (\<lambda>s. r\<lparr>Error := s\<rparr>)
     else if key = ''body'' then
       (case jl_IsNull lx l of (null, l) \<Rightarrow>
          if null then Some (Inr (r\<lparr>Body := []\<rparr>, jl_Skip lx l)) else assign (jl_Bytes lx l) (\<lambda>b. r\<lparr>Body := b\<rparr>))
     else if key = ''method'' then assign (jl_String lx l) (\<lambda>s. r\<lparr>Method := s\<rparr>)
     else if key = ''url'' then assign (jl_String lx l) (\<lambda>s. r\<lparr>URL := s\<rparr>)
     else if key = ''headers'' then
       (case jl_IsNull lx l of (null, l) \<Rightarrow>
          if null then Some (Inr (r, jl_Skip lx l))
          else run_bind (read_header lx (jl_Delim lx CHR ''{'' l) (Some [])) (\<lambda>(h, l).
            Some (Inr (r\<lparr>Headers := h\<rparr>, jl_Delim lx CHR ''}'' l))))
     else Some (Inr (r, jl_SkipRecursive lx l)))"

definition target_field :: "'l jlexer \<Rightarrow> string \<Rightarrow> 'l \<Rightarrow> target \<Rightarrow> (target \<times> 'l) go option" where
  "target_field lx key l t =
    (if key = ''method'' then assign (jl_String lx l) (\<lambda>s. t\<lparr>t_Method := s\<rparr>)
     else if key = ''url'' then assign (jl_String lx l) (\<lambda>s. t\<lparr>t_URL := s\<rparr>)
     else if key = ''body'' then
       (case jl_IsNull lx l of (null, l) \<Rightarrow>
          if null then Some (Inr (t\<lparr>t_Body := []\<rparr>, jl_Skip lx l)) else assign (jl_Bytes lx l) (\<lambda>b. t\<lparr>t_Body := b\<rparr>))
     else if key = ''header'' then
       (case jl_IsNull lx l of (null, l) \<Rightarrow>
          if null then Some (Inr (t, jl_Skip lx l))
          else case jl_IsDelim lx CHR ''}'' (jl_Delim lx CHR ''{'' l) of (no_keys, l) \<Rightarrow>
            run_bind (read_header lx l (if no_keys then None else Some [])) (\<lambda>(h, l).
              Some (Inr (t\<lparr>t_Header := h\<rparr>, jl_Delim lx CHR ''}'' l))))
     else Some (Inr (t, jl_SkipRecursive lx l)))"

text \<open>One line of JSON, as \<open>NewJSONDecoder\<close> and \<open>NewJSONTargeter\<close> decode it.\<close>

definition parse_result ::
    "'l jlexer \<Rightarrow> (string \<Rightarrow> time \<Rightarrow> time \<times> string option) \<Rightarrow> string \<Rightarrow> result \<Rightarrow> (result \<times> string option) go option" where
  "parse_result lx time_of line r =
    run_bind (decode_object lx (jl_UnsafeFieldName lx) (result_field lx time_of) (jl_new lx line) r)
      (\<lambda>(r, l). Some (Inr (r, jl_Error lx l)))"

definition parse_target :: "'l jlexer \<Rightarrow> string \<Rightarrow> (string + target) go option" where
  "parse_target lx data =
    run_bind (decode_object lx (jl_UnsafeString lx) (target_field lx) (jl_new lx data) zero_target)
      (\<lambda>(t, l). Some (Inr (case jl_Error lx l of None \<Rightarrow> Inr t | Some e \<Rightarrow> Inl e)))"

section \<open>What the packages document\<close>

text \<open>\<open>utf8.ValidString\<close>.\<close>

definition in_bytes :: "nat \<Rightarrow> nat \<Rightarrow> char \<Rightarrow> bool" where
  "in_bytes lo hi c \<longleftrightarrow> lo \<le> of_char c \<and> of_char c \<le> hi"

abbreviation continuation :: "char \<Rightarrow> bool" where
  "continuation \<equiv> in_bytes 0x80 0xBF"

fun valid_utf8 :: "string \<Rightarrow> bool" where
  "valid_utf8 [] = True"
| "valid_utf8 (a # s) =
    (if in_bytes 0 0x7F a then valid_utf8 s
     else case s of [] \<Rightarrow> False | b # s \<Rightarrow>
       if in_bytes 0xC2 0xDF a then continuation b \<and> valid_utf8 s
       else case s of [] \<Rightarrow> False | c # s \<Rightarrow>
         if in_bytes 0xE0 0xEF a then
           in_bytes (if a = CHR 0xE0 then 0xA0 else 0x80) (if a = CHR 0xED then 0x9F else 0xBF) b \<and>
             continuation c \<and> valid_utf8 s
         else case s of [] \<Rightarrow> False | d # s \<Rightarrow>
           in_bytes 0xF0 0xF4 a \<and>
             in_bytes (if a = CHR 0xF0 then 0x90 else 0x80) (if a = CHR 0xF4 then 0x8F else 0xBF) b \<and>
             continuation c \<and> continuation d \<and> valid_utf8 s)"

declare valid_utf8.simps(2) [simp del]

text \<open>A JSON string literal: opened by a quote, on one line, and the text itself for the field names
  the program writes.\<close>

definition field_names :: "string list" where
  "field_names = [''attack'', ''seq'', ''code'', ''timestamp'', ''latency'', ''bytes_out'', ''bytes_in'', ''error'',
    ''body'', ''method'', ''url'', ''headers'', ''header'']"

definition quotes_json :: "(string \<Rightarrow> string) \<Rightarrow> bool" where
  "quotes_json q \<longleftrightarrow> (\<forall>x. \<exists>y. q x = quote # y) \<and> (\<forall>x. valid_utf8 x \<longrightarrow> nl \<notin> set (q x)) \<and>
    list_all (\<lambda>k. q k = quote # k @ [quote]) field_names"

text \<open>A writer without an error appends the text of each call, and hands it on when it is dumped.\<close>

fun jw_text :: "(string \<Rightarrow> string) \<Rightarrow> jw_call \<Rightarrow> string" where
  "jw_text q (RawByte c) = [c]"
| "jw_text q (RawString s) = s"
| "jw_text q (WriteString s) = q s"
| "jw_text q (WriteUint64 n) = format_uint n"
| "jw_text q (WriteUint16 n) = format_uint n"
| "jw_text q (WriteInt64 i) = format_int i"
| "jw_text q (WriteRaw r) = (case r of Inl e \<Rightarrow> [] | Inr d \<Rightarrow> d)"
| "jw_text q (WriteBase64 None) = ''null''"
| "jw_text q (WriteBase64 (Some b)) = quote # b64_encode b @ [quote]"

definition raw_error :: "jw_call \<Rightarrow> bool" where
  "raw_error c \<longleftrightarrow> (\<exists>e. c = WriteRaw (Inl e))"

definition writing :: "('w, 'o) jwriter \<Rightarrow> ('w \<Rightarrow> string) \<Rightarrow> bool \<times> bool \<Rightarrow> string \<Rightarrow> 'w \<Rightarrow> bool" where
  "writing wr text flags s w \<longleftrightarrow> jw_Error wr w = None \<and> text w = s \<and>
    (jw_nil_map_as_empty wr w, jw_nil_slice_as_empty wr w) = flags"

definition writes_json :: "('w, string) jwriter \<Rightarrow> (string \<Rightarrow> string) \<Rightarrow> ('w \<Rightarrow> string) \<Rightarrow> bool" where
  "writes_json wr q text \<longleftrightarrow>
    (\<forall>flags s w c. writing wr text flags s w \<and> \<not> raw_error c \<longrightarrow> writing wr text flags (s @ jw_text q c) (jw_do wr c w)) \<and>
    (\<forall>flags s w out. writing wr text flags s w \<longrightarrow>
      (\<exists>w'. jw_DumpTo wr w out = (w', out @ s, None) \<and> writing wr text flags [] w'))"

text \<open>
  A lexer is before a token (\<open>before\<close>) or behind one (\<open>behind\<close>), where it wants a separator: a colon, a
  comma, or a closing delimiter in place of the comma.
\<close>

definition moves :: "('l \<Rightarrow> string \<Rightarrow> bool) \<Rightarrow> 'x \<times> 'l \<Rightarrow> 'x \<Rightarrow> string \<Rightarrow> bool" where
  "moves pos p x s \<longleftrightarrow> (\<exists>l. p = (x, l) \<and> pos l s)"

definition json_value :: "(string \<Rightarrow> string) \<Rightarrow> string \<Rightarrow> bool" where
  "json_value q t \<longleftrightarrow> t = ''null'' \<or> (\<exists>x. valid_utf8 x \<and> t = q x) \<or> (\<exists>b. t = quote # b64_encode b @ [quote]) \<or>
    (\<exists>n :: u64. t = format_uint n) \<or> (\<exists>n :: u16. t = format_uint n) \<or> (\<exists>i. t = format_int i)"

definition follows :: "string \<Rightarrow> bool" where
  "follows s \<longleftrightarrow> s \<noteq> [] \<and> hd s \<in> set '',:]}''"

definition reads_separators :: "'l jlexer \<Rightarrow> ('l \<Rightarrow> string \<Rightarrow> bool) \<Rightarrow> ('l \<Rightarrow> string \<Rightarrow> bool) \<Rightarrow> bool" where
  "reads_separators lx before behind \<longleftrightarrow>
    (\<forall>l s. behind l (CHR '':'' # s) \<longrightarrow> before (jl_WantColon lx l) s) \<and>
    (\<forall>l s. behind l (comma # s) \<longrightarrow> before (jl_WantComma lx l) s) \<and>
    (\<forall>l c s. behind l (c # s) \<and> c \<in> set ''}]'' \<longrightarrow> before (jl_WantComma lx l) (c # s))"

definition reads_delims :: "'l jlexer \<Rightarrow> ('l \<Rightarrow> string \<Rightarrow> bool) \<Rightarrow> ('l \<Rightarrow> string \<Rightarrow> bool) \<Rightarrow> bool" where
  "reads_delims lx before behind \<longleftrightarrow>
    (\<forall>l c s. before l (c # s) \<and> c \<in> set ''{[}]'' \<longrightarrow>
      moves before (jl_IsNull lx l) False (c # s) \<and>
      (\<forall>d. d \<in> set ''}]'' \<longrightarrow> moves before (jl_IsDelim lx d l) (c = d) (c # s)) \<and>
      (if c \<in> set ''{['' then before (jl_Delim lx c l) s else behind (jl_Delim lx c l) s))"

definition reads_values :: "'l jlexer \<Rightarrow> (string \<Rightarrow> string) \<Rightarrow> ('l \<Rightarrow> string \<Rightarrow> bool) \<Rightarrow> ('l \<Rightarrow> string \<Rightarrow> bool) \<Rightarrow> bool" where
  "reads_values lx q before behind \<longleftrightarrow>
    (\<forall>l t s. before l (t @ s) \<and> json_value q t \<and> follows s \<longrightarrow>
      moves before (jl_IsNull lx l) (t = ''null'') (t @ s) \<and>
      (\<forall>d. d \<in> set ''}]'' \<longrightarrow> moves before (jl_IsDelim lx d l) False (t @ s)) \<and>
      (t = ''null'' \<longrightarrow> behind (jl_Skip lx l) s))"

definition reads_literals :: "'l jlexer \<Rightarrow> (string \<Rightarrow> string) \<Rightarrow> ('l \<Rightarrow> string \<Rightarrow> bool) \<Rightarrow> ('l \<Rightarrow> string \<Rightarrow> bool) \<Rightarrow> bool" where
  "reads_literals lx q before behind \<longleftrightarrow>
    (\<forall>l x s. before l (q x @ s) \<and> valid_utf8 x \<and> follows s \<longrightarrow>
      moves behind (jl_UnsafeFieldName lx l) x s \<and> moves behind (jl_UnsafeString lx l) x s \<and>
      moves behind (jl_String lx l) x s \<and> moves behind (jl_Raw lx l) (q x) s) \<and>
    (\<forall>l b s. before l (quote # b64_encode b @ quote # s) \<and> follows s \<longrightarrow> moves behind (jl_Bytes lx l) b s)"

definition reads_numbers :: "'l jlexer \<Rightarrow> ('l \<Rightarrow> string \<Rightarrow> bool) \<Rightarrow> ('l \<Rightarrow> string \<Rightarrow> bool) \<Rightarrow> bool" where
  "reads_numbers lx before behind \<longleftrightarrow>
    (\<forall>l n s. before l (format_uint n @ s) \<and> follows s \<longrightarrow> moves behind (jl_Uint64 lx l) n s) \<and>
    (\<forall>l n s. before l (format_uint n @ s) \<and> follows s \<longrightarrow> moves behind (jl_Uint16 lx l) n s) \<and>
    (\<forall>l i s. before l (format_int i @ s) \<and> follows s \<longrightarrow> moves behind (jl_Int64 lx l) i s)"

definition reads_json :: "'l jlexer \<Rightarrow> (string \<Rightarrow> string) \<Rightarrow> ('l \<Rightarrow> string \<Rightarrow> bool) \<Rightarrow> ('l \<Rightarrow> string \<Rightarrow> bool) \<Rightarrow> bool" where
  "reads_json lx q before behind \<longleftrightarrow>
    reads_separators lx before behind \<and> reads_delims lx before behind \<and> reads_values lx q before behind \<and>
    reads_literals lx q before behind \<and> reads_numbers lx before behind \<and>
    (\<forall>s. before (jl_new lx s) s) \<and>
    (\<forall>l s. behind l s \<longrightarrow> jl_Error lx l = None \<and> jl_Ok lx l \<and> behind (jl_AddError lx None l) s) \<and>
    (\<forall>l s. behind l s \<and> set s \<subseteq> {nl} \<longrightarrow> behind (jl_Consumed lx l) s)"

text \<open>The times \<open>Time.MarshalJSON\<close> accepts are written as a string literal that \<open>Time.UnmarshalJSON\<close>
  reads back.\<close>

definition json_times :: "(string \<Rightarrow> string) \<Rightarrow> (time \<Rightarrow> string + string) \<Rightarrow> (string \<Rightarrow> time \<Rightarrow> time \<times> string option) \<Rightarrow> bool" where
  "json_times q time_text time_of \<longleftrightarrow>
    (\<forall>t d. time_text t = Inr d \<longrightarrow> (\<exists>x. valid_utf8 x \<and> d = q x) \<and> (\<forall>t0. time_of d t0 = (t, None)))"

definition json_header :: "header \<Rightarrow> bool" where
  "json_header h \<longleftrightarrow> wf_header h \<and> list_all (\<lambda>(k, vs). valid_utf8 k \<and> list_all valid_utf8 vs) h"

definition json_safe :: "(time \<Rightarrow> string + string) \<Rightarrow> result \<Rightarrow> bool" where
  "json_safe time_text r \<longleftrightarrow> (\<exists>d. time_text (Timestamp r) = Inr d) \<and>
    valid_utf8 (Attack r) \<and> valid_utf8 (Error r) \<and> valid_utf8 (Method r) \<and> valid_utf8 (URL r) \<and>
    pred_option json_header (Headers r)"

definition json_target :: "target \<Rightarrow> bool" where
  "json_target t \<longleftrightarrow> valid_utf8 (t_Method t) \<and> valid_utf8 (t_URL t) \<and> json_header (target_header t)"

section \<open>Reading what was written\<close>

text \<open>Texts separated by commas, from behind the first one.\<close>

definition rest_text :: "string list \<Rightarrow> string \<Rightarrow> string" where
  "rest_text ts s = (if ts = [] then s else comma # join [comma] ts @ s)"

lemma join_Cons: "join [comma] (t # ts) @ s = t @ rest_text ts s"
  by (cases ts) (simp_all add: rest_text_def)

lemma follows_rest [simp]: "c \<in> set ''}]'' \<Longrightarrow> follows (rest_text ts (c # s))"
  by (auto simp: follows_def rest_text_def)

lemma follows_Cons [simp]: "follows (c # s) \<longleftrightarrow> c \<in> set '',:]}''"
  by (simp add: follows_def)

lemma json_values [simp]:
  "json_value q ''null''"
  "valid_utf8 x \<Longrightarrow> json_value q (q x)"
  "json_value q (quote # b64_encode b @ [quote])"
  "json_value q (format_uint (n :: u64))"
  "json_value q (format_uint (m :: u16))"
  "json_value q (format_int i)"
  by (auto simp: json_value_def)

lemma want_comma:
  assumes "reads_json lx q before behind" and "behind l (rest_text ts (c # s))" and "c \<in> set ''}]''"
  shows "before (jl_WantComma lx l) (join [comma] ts @ c # s)"
  using assms by (cases ts) (auto simp: rest_text_def reads_json_def reads_separators_def)

lemma want_colon: "reads_json lx q before behind \<Longrightarrow> behind l (CHR '':'' # s) \<Longrightarrow> before (jl_WantColon lx l) s"
  by (simp add: reads_json_def reads_separators_def)

lemma at_delim:
  assumes "reads_json lx q before behind" and "before l (c # s)" and "c \<in> set ''{[}]''"
  shows "moves before (jl_IsNull lx l) False (c # s)"
    and "d \<in> set ''}]'' \<Longrightarrow> moves before (jl_IsDelim lx d l) (c = d) (c # s)"
    and "c \<in> set ''{['' \<Longrightarrow> before (jl_Delim lx c l) s"
    and "c \<in> set ''}]'' \<Longrightarrow> behind (jl_Delim lx c l) s"
  using assms by (auto simp: reads_json_def reads_delims_def)

lemma reads_json_values: "reads_json lx q before behind \<Longrightarrow> reads_values lx q before behind"
  by (simp add: reads_json_def)

lemma at_value:
  assumes "reads_json lx q before behind" and "before l (t @ s)" and "json_value q t" and "follows s"
  shows "moves before (jl_IsNull lx l) (t = ''null'') (t @ s)"
    and "d \<in> set ''}]'' \<Longrightarrow> moves before (jl_IsDelim lx d l) False (t @ s)"
    and "t = ''null'' \<Longrightarrow> behind (jl_Skip lx l) s"
  using assms(2-4) reads_json_values [OF assms(1)] unfolding reads_values_def by blast+

lemma at_string:
  assumes "reads_json lx q before behind" and "before l (q x @ s)" and "valid_utf8 x" and "follows s"
  shows "moves behind (jl_UnsafeFieldName lx l) x s" and "moves behind (jl_UnsafeString lx l) x s"
    and "moves behind (jl_String lx l) x s" and "moves behind (jl_Raw lx l) (q x) s"
  using assms by (simp_all add: reads_json_def reads_literals_def)

lemma at_number:
  assumes "reads_json lx q before behind" and "follows s"
  shows "before l (quote # b64_encode b @ quote # s) \<Longrightarrow> moves behind (jl_Bytes lx l) b s"
    and "before l (format_uint (n :: u64) @ s) \<Longrightarrow> moves behind (jl_Uint64 lx l) n s"
    and "before l (format_uint (c :: u16) @ s) \<Longrightarrow> moves behind (jl_Uint16 lx l) c s"
    and "before l (format_int i @ s) \<Longrightarrow> moves behind (jl_Int64 lx l) i s"
  using assms by (simp_all add: reads_json_def reads_literals_def reads_numbers_def)

lemma movesE: "moves pos p x s \<Longrightarrow> (\<And>l. p = (x, l) \<Longrightarrow> pos l s \<Longrightarrow> thesis) \<Longrightarrow> thesis"
  by (auto simp: moves_def)

lemma read_strings_text:
  assumes lx: "reads_json lx q before behind"
  shows "before l (join [comma] (map q vs) @ CHR '']'' # s) \<Longrightarrow> list_all valid_utf8 vs \<Longrightarrow>
    \<exists>l'. read_strings lx l acc = Some (acc @ vs, l') \<and> before l' (CHR '']'' # s)"
proof (induction vs arbitrary: l acc)
  case Nil
  then obtain l' where "jl_IsDelim lx CHR '']'' l = (True, l')" "before l' (CHR '']'' # s)"
    using at_delim(2) [OF lx, of l "CHR '']''" s "CHR '']''"] by (auto elim: movesE)
  then show ?case by (subst read_strings.simps) simp
next
  case (Cons v vs)
  let ?rest = "rest_text (map q vs) (CHR '']'' # s)"
  have v: "valid_utf8 v" and before: "before l (q v @ ?rest)" using Cons.prems by (simp_all add: join_Cons)
  obtain l1 where l1: "jl_IsDelim lx CHR '']'' l = (False, l1)" "before l1 (q v @ ?rest)"
    using at_value(2) [OF lx before, of "CHR '']''"] v by (auto elim: movesE)
  obtain l2 where l2: "jl_String lx l1 = (v, l2)" "behind l2 ?rest"
    using at_string(3) [OF lx l1(2) v] by (auto elim: movesE)
  have "before (jl_WantComma lx l2) (join [comma] (map q vs) @ CHR '']'' # s)"
    using want_comma [OF lx l2(2)] by simp
  from Cons.IH [OF this, of "acc @ [v]"] Cons.prems(2) l1(1) l2(1) show ?case
    by (subst read_strings.simps) simp
qed

text \<open>The text of a header value: null for a nil slice.\<close>

definition values_text :: "(string \<Rightarrow> string) \<Rightarrow> string list \<Rightarrow> string \<Rightarrow> bool" where
  "values_text q vs t \<longleftrightarrow> t = ''null'' \<and> vs = [] \<or> t = CHR ''['' # join [comma] (map q vs) @ '']''"

lemma read_values_text:
  assumes lx: "reads_json lx q before behind" and t: "values_text q vs t" and before: "before l (t @ s)"
    and vs: "list_all valid_utf8 vs" and s: "follows s"
  shows "\<exists>l'. read_values lx l = Some (vs, l') \<and> behind l' s"
proof (cases "t = ''null''")
  case True
  obtain l1 where l1: "jl_IsNull lx l = (True, l1)" "before l1 (t @ s)"
    using at_value(1) [OF lx before _ s] True by (auto elim: movesE)
  moreover have "behind (jl_Skip lx l1) s" using at_value(3) [OF lx l1(2) _ s True] True by simp
  ultimately show ?thesis using True t by (auto simp: read_values_def values_text_def)
next
  case False
  let ?body = "join [comma] (map q vs) @ CHR '']'' # s"
  have t: "t @ s = CHR ''['' # ?body" using t False by (auto simp: values_text_def)
  obtain l1 where l1: "jl_IsNull lx l = (False, l1)" "before l1 (CHR ''['' # ?body)"
    using at_delim(1) [OF lx before [unfolded t]] by (auto elim: movesE)
  have l2: "before (jl_Delim lx CHR ''['' l1) ?body" using at_delim(3) [OF lx l1(2)] by simp
  have "\<exists>b. moves before (jl_IsDelim lx CHR '']'' (jl_Delim lx CHR ''['' l1)) b ?body"
  proof (cases vs)
    case Nil
    then show ?thesis using at_delim(2) [OF lx, of "jl_Delim lx CHR ''['' l1" "CHR '']''" s "CHR '']''"] l2 by auto
  next
    case (Cons v ws)
    then have "?body = q v @ rest_text (map q ws) (CHR '']'' # s)" by (simp add: join_Cons)
    then show ?thesis using at_value(2) [OF lx, of _ "q v" _ "CHR '']''"] l2 Cons vs by fastforce
  qed
  then obtain b l3 where l3: "jl_IsDelim lx CHR '']'' (jl_Delim lx CHR ''['' l1) = (b, l3)" "before l3 ?body"
    by (auto elim: movesE)
  obtain l4 where l4: "read_strings lx l3 [] = Some (vs, l4)" "before l4 (CHR '']'' # s)"
    using read_strings_text [OF lx l3(2) vs, of "[]"] by auto
  have "behind (jl_Delim lx CHR '']'' l4) s" using at_delim(4) [OF lx l4(2)] by simp
  then show ?thesis using l1(1) l3(1) l4(1) by (simp add: read_values_def)
qed

text \<open>An entry of an object: its key, a colon and the text of its value.\<close>

definition entry :: "(string \<Rightarrow> string) \<Rightarrow> string \<times> string \<Rightarrow> string" where
  "entry q = (\<lambda>(k, t). q k @ CHR '':'' # t)"

lemma at_entry:
  assumes lx: "reads_json lx q before behind" and before: "before l (q k @ CHR '':'' # t @ s)" and k: "valid_utf8 k"
    and "name = jl_String lx \<or> name = jl_UnsafeString lx \<or> name = jl_UnsafeFieldName lx"
  shows "\<exists>l1 l2. jl_IsDelim lx CHR ''}'' l = (False, l1) \<and> name l1 = (k, l2) \<and> before (jl_WantColon lx l2) (t @ s)"
proof -
  have f: "follows (CHR '':'' # t @ s)" by simp
  obtain l1 where l1: "jl_IsDelim lx CHR ''}'' l = (False, l1)" "before l1 (q k @ CHR '':'' # t @ s)"
    using at_value(2) [OF lx before _ f, of "CHR ''}''"] k by (auto elim: movesE)
  have "moves behind (name l1) k (CHR '':'' # t @ s)"
    using at_string [OF lx l1(2) k f] assms(4) by auto
  then show ?thesis using l1(1) want_colon [OF lx] by (auto simp: moves_def)
qed

definition header_text :: "(string \<Rightarrow> string) \<Rightarrow> header \<Rightarrow> string list \<Rightarrow> string" where
  "header_text q h ts = join [comma] (map (entry q) (zip (map fst h) ts))"

lemma read_header_text:
  assumes lx: "reads_json lx q before behind"
  shows "before l (header_text q h ts @ CHR ''}'' # s) \<Longrightarrow> list_all2 (\<lambda>(k, vs) t. values_text q vs t) h ts \<Longrightarrow>
    json_header h \<Longrightarrow> set (map fst h) \<inter> set (map fst m) = {} \<Longrightarrow>
    \<exists>l'. read_header lx l (Some m) = Some (Inr (Some (m @ h), l')) \<and> before l' (CHR ''}'' # s)"
proof (induction h arbitrary: l ts m)
  case Nil
  then obtain l' where "jl_IsDelim lx CHR ''}'' l = (True, l')" "before l' (CHR ''}'' # s)"
    using at_delim(2) [OF lx, of l "CHR ''}''" s "CHR ''}''"] by (auto simp: header_text_def elim: movesE)
  then show ?case by (subst read_header.simps) simp
next
  case (Cons p h)
  obtain k vs where p: "p = (k, vs)" by force
  obtain t us where ts: "ts = t # us" and t: "values_text q vs t" and us: "list_all2 (\<lambda>(k, vs) t. values_text q vs t) h us"
    using Cons.prems(2) by (auto simp: p list_all2_Cons1)
  let ?rest = "rest_text (map (entry q) (zip (map fst h) us)) (CHR ''}'' # s)"
  have h: "valid_utf8 k" "list_all valid_utf8 vs" "json_header h" "k \<notin> set (map fst h)"
    using Cons.prems(3) by (auto simp: p json_header_def wf_header_def)
  have "header_text q (p # h) ts @ CHR ''}'' # s = q k @ CHR '':'' # t @ ?rest"
    unfolding header_text_def p ts by (simp add: join_Cons entry_def)
  with Cons.prems(1) have "before l (q k @ CHR '':'' # t @ ?rest)" by simp
  from at_entry [OF lx this h(1), of "jl_String lx"] obtain l1 l2 where
    l1: "jl_IsDelim lx CHR ''}'' l = (False, l1)" "jl_String lx l1 = (k, l2)" and l2: "before (jl_WantColon lx l2) (t @ ?rest)"
    by blast
  obtain l3 where l3: "read_values lx (jl_WantColon lx l2) = Some (vs, l3)" "behind l3 ?rest"
    using read_values_text [OF lx t l2 h(2)] by auto
  have "before (jl_WantComma lx l3) (header_text q h us @ CHR ''}'' # s)"
    using want_comma [OF lx l3(2)] by (simp add: header_text_def)
  moreover have "set (map fst h) \<inter> set (map fst (m @ [(k, vs)])) = {}" using Cons.prems(4) h(4) by (auto simp: p)
  ultimately obtain l' where l': "read_header lx (jl_WantComma lx l3) (Some (m @ [(k, vs)])) = Some (Inr (Some ((m @ [(k, vs)]) @ h), l'))"
      "before l' (CHR ''}'' # s)"
    using Cons.IH [OF _ us h(3)] by blast
  have "AList.update k vs m = m @ [(k, vs)]" using Cons.prems(4) by (simp add: p update_triv del: append_Cons) (induction m; auto)
  then show ?case using l1 l3(1) l' by (subst read_header.simps) (simp add: p)
qed

text \<open>A field the switch of a decoder reads: its text ends where the next separator is, and a null
  leaves the value alone.\<close>

definition reads_field ::
    "'l jlexer \<Rightarrow> ('l \<Rightarrow> string \<Rightarrow> bool) \<Rightarrow> ('l \<Rightarrow> string \<Rightarrow> bool) \<Rightarrow>
      (string \<Rightarrow> 'l \<Rightarrow> 'a \<Rightarrow> ('a \<times> 'l) go option) \<Rightarrow> string \<times> string \<times> ('a \<Rightarrow> 'a) \<Rightarrow> bool" where
  "reads_field lx before behind field = (\<lambda>(k, t, u). valid_utf8 k \<and> (\<forall>l s. before l (t @ s) \<and> follows s \<longrightarrow>
    moves before (jl_IsNull lx l) (t = ''null'') (t @ s) \<and>
    (if t = ''null'' then u = id \<and> behind (jl_Skip lx l) s
     else \<forall>out. \<exists>l'. field k l out = Some (Inr (u out, l')) \<and> behind l' s)))"

lemma decode_fields_text:
  assumes lx: "reads_json lx q before behind" and name: "name = jl_UnsafeString lx \<or> name = jl_UnsafeFieldName lx"
  shows "before l (join [comma] (map (\<lambda>(k, t, u). entry q (k, t)) fs) @ CHR ''}'' # s) \<Longrightarrow>
    list_all (reads_field lx before behind field) fs \<Longrightarrow>
    \<exists>l'. decode_fields lx name field l out = Some (Inr (fold (\<lambda>(k, t, u). u) fs out, l')) \<and> before l' (CHR ''}'' # s)"
proof (induction fs arbitrary: l out)
  case Nil
  then obtain l' where "jl_IsDelim lx CHR ''}'' l = (True, l')" "before l' (CHR ''}'' # s)"
    using at_delim(2) [OF lx, of l "CHR ''}''" s "CHR ''}''"] by (auto elim: movesE)
  then show ?case by (subst decode_fields.simps) simp
next
  case (Cons f fs)
  obtain k t u where f: "f = (k, t, u)" by (cases f) auto
  let ?rest = "rest_text (map (\<lambda>(k, t, u). entry q (k, t)) fs) (CHR ''}'' # s)"
  have rf: "valid_utf8 k" "follows ?rest" and fs: "list_all (reads_field lx before behind field) fs"
    using Cons.prems(2) by (simp_all add: f reads_field_def)
  have field: "before l (t @ ?rest) \<Longrightarrow> moves before (jl_IsNull lx l) (t = ''null'') (t @ ?rest) \<and>
      (if t = ''null'' then u = id \<and> behind (jl_Skip lx l) ?rest
       else \<forall>out. \<exists>l'. field k l out = Some (Inr (u out, l')) \<and> behind l' ?rest)" for l
  proof -
    assume "before l (t @ ?rest)"
    moreover have "reads_field lx before behind field (k, t, u)" using Cons.prems(2) by (simp add: f)
    ultimately show ?thesis using rf(2) unfolding reads_field_def prod.case by blast
  qed
  have "before l (q k @ CHR '':'' # t @ ?rest)" using Cons.prems(1) unfolding f by (simp add: join_Cons entry_def)
  from at_entry [OF lx this rf(1), of name] name obtain l1 l2 where
    l1: "jl_IsDelim lx CHR ''}'' l = (False, l1)" "name l1 = (k, l2)" and l2: "before (jl_WantColon lx l2) (t @ ?rest)"
    by blast
  obtain l3 where l3: "jl_IsNull lx (jl_WantColon lx l2) = (t = ''null'', l3)" "before l3 (t @ ?rest)"
    using field [OF l2] by (auto elim: movesE)
  have more: "\<exists>l'. decode_fields lx name field (jl_WantComma lx l4) out = Some (Inr (fold (\<lambda>(k, t, u). u) fs out, l')) \<and>
      before l' (CHR ''}'' # s)" if "behind l4 ?rest" for l4 out
    using Cons.IH [OF want_comma [OF lx that] fs] by simp
  show ?case
  proof (cases "t = ''null''")
    case True
    then have "u = id" "behind (jl_Skip lx l3) ?rest" using field [OF l3(2)] by simp_all
    then show ?thesis using l1 l3(1) more [of "jl_Skip lx l3" out] True by (subst decode_fields.simps) (simp add: f)
  next
    case False
    then obtain l4 where "field k l3 out = Some (Inr (u out, l4))" "behind l4 ?rest" using field [OF l3(2)] by auto
    then show ?thesis using l1 l3(1) more [of l4 "u out"] False by (subst decode_fields.simps) (simp add: f)
  qed
qed

lemma decode_object_text:
  assumes lx: "reads_json lx q before behind" and name: "name = jl_UnsafeString lx \<or> name = jl_UnsafeFieldName lx"
    and fs: "list_all (reads_field lx before behind field) fs" and s: "set s \<subseteq> {nl}"
  defines "line \<equiv> CHR ''{'' # join [comma] (map (\<lambda>(k, t, u). entry q (k, t)) fs) @ CHR ''}'' # s"
  shows "\<exists>l. decode_object lx name field (jl_new lx line) out = Some (Inr (fold (\<lambda>(k, t, u). u) fs out, l)) \<and> jl_Error lx l = None"
proof -
  have "before (jl_new lx line) line" using lx by (simp add: reads_json_def)
  then obtain l1 where l1: "jl_IsNull lx (jl_new lx line) = (False, l1)" "before l1 line"
    using at_delim(1) [OF lx, of "jl_new lx line" "CHR ''{''"] by (auto simp: line_def elim: movesE)
  have "before (jl_Delim lx CHR ''{'' l1) (join [comma] (map (\<lambda>(k, t, u). entry q (k, t)) fs) @ CHR ''}'' # s)"
    using at_delim(3) [OF lx, of l1 "CHR ''{''"] l1(2) by (simp add: line_def)
  from decode_fields_text [OF lx name this fs] obtain l2 where
    l2: "decode_fields lx name field (jl_Delim lx CHR ''{'' l1) out = Some (Inr (fold (\<lambda>(k, t, u). u) fs out, l2))"
      "before l2 (CHR ''}'' # s)" by blast
  have "behind (jl_Delim lx CHR ''}'' l2) s" using at_delim(4) [OF lx l2(2)] by simp
  then have "behind (jl_Delim lx CHR ''}'' l2) s" "behind (jl_Consumed lx (jl_Delim lx CHR ''}'' l2)) s"
    using lx s by (auto simp: reads_json_def)
  then have "jl_Error lx (jl_Delim lx CHR ''}'' l2) = None" "jl_Error lx (jl_Consumed lx (jl_Delim lx CHR ''}'' l2)) = None"
    using lx unfolding reads_json_def by blast+
  then show ?thesis using l1(1) l2(1) by (simp add: decode_object_def Let_def)
qed

section \<open>The texts of results and targets\<close>

definition calls_text :: "(string \<Rightarrow> string) \<Rightarrow> jw_call list \<Rightarrow> string" where
  "calls_text q cs = concat (map (jw_text q) cs)"

lemma calls_text_simps [simp]:
  "calls_text q [] = []"
  "calls_text q (c # cs) = jw_text q c @ calls_text q cs"
  "calls_text q (cs @ cs') = calls_text q cs @ calls_text q cs'"
  by (simp_all add: calls_text_def)

lemma separated_text: "calls_text q (separated css) = join [comma] (map (calls_text q) css)"
  by (induction css rule: separated.induct) simp_all

lemma json_quote:
  assumes "quotes_json q"
  shows "q x \<noteq> ''null''" and "valid_utf8 x \<Longrightarrow> nl \<notin> set (q x)" and "list_all (\<lambda>k. q k = quote # k @ [quote]) field_names"
proof -
  obtain y where "q x = quote # y" using assms by (auto simp: quotes_json_def)
  then show "q x \<noteq> ''null''" by simp
qed (use assms in \<open>simp_all add: quotes_json_def\<close>)

lemma field_names_valid: "list_all valid_utf8 field_names"
  by code_simp

lemma format_not_null [simp]: "format_uint n \<noteq> ''null''" "format_int i \<noteq> ''null''"
proof -
  have n: "format_nat m \<noteq> ''null''" for m
  proof
    assume "format_nat m = ''null''"
    then have "CHR ''n'' \<in> set (format_nat m)" by simp
    then obtain d where "d < 10" "CHR ''n'' = digit_char d" using format_nat_digits by blast
    then have "digit_val CHR ''n'' = Some d" by simp
    then show False by (simp add: digit_val_def)
  qed
  then show "format_uint n \<noteq> ''null''" "format_int i \<noteq> ''null''" by (simp_all add: format_uint_def format_int_def)
qed

text \<open>Headers.\<close>

definition values_json :: "(string \<Rightarrow> string) \<Rightarrow> bool \<Rightarrow> nil_slices \<Rightarrow> string \<times> string list \<Rightarrow> string" where
  "values_json q nil_as_empty nils = (\<lambda>(k, vs).
    if vs = [] \<and> nil_values nils k \<and> \<not> nil_as_empty then ''null'' else CHR ''['' # join [comma] (map q vs) @ '']'')"

lemma values_json_text: "list_all2 (\<lambda>(k, vs) t. values_text q vs t) h (map (values_json q nil_as_empty nils) h)"
  by (induction h) (auto simp: values_json_def values_text_def split: if_splits)

lemma header_calls_text:
  "calls_text q (header_calls nil_as_empty nils h) = CHR ''{'' # header_text q h (map (values_json q nil_as_empty nils) h) @ ''}''"
proof -
  have "calls_text q (values_calls nil_as_empty nils p) = entry q (fst p, values_json q nil_as_empty nils p)" for p
    by (cases p) (simp add: values_calls_def values_json_def entry_def separated_text o_def)
  then have "map (calls_text q) (map (values_calls nil_as_empty nils) h) =
      map (entry q) (zip (map fst h) (map (values_json q nil_as_empty nils) h))"
    by (simp add: zip_map_map zip_same_conv_map o_def)
  then show ?thesis by (simp add: header_calls_def header_text_def separated_text)
qed

lemma reads_fieldI:
  assumes "reads_json lx q before behind" and "valid_utf8 k" and "json_value q t" and "t \<noteq> ''null''"
    and "\<And>l s out. before l (t @ s) \<Longrightarrow> follows s \<Longrightarrow> \<exists>l'. field k l out = Some (Inr (u out, l')) \<and> behind l' s"
  shows "reads_field lx before behind field (k, t, u)"
  using assms(2,4,5) at_value(1) [OF assms(1) _ assms(3)] by (simp add: reads_field_def)

lemma reads_field_null:
  assumes "reads_json lx q before behind" and "valid_utf8 k"
  shows "reads_field lx before behind field (k, ''null'', id)"
  using assms at_value [OF assms(1), where t = "''null''"] by (simp add: reads_field_def)

lemma assign_moves: "moves pos p x s \<Longrightarrow> \<exists>l. assign p f = Some (Inr (f x, l)) \<and> pos l s"
  by (auto simp: moves_def assign_def)


lemma at_object:
  assumes lx: "reads_json lx q before behind" and before: "before l (CHR ''{'' # s)"
  shows "\<exists>l1. jl_IsNull lx l = (False, l1) \<and> before (jl_Delim lx CHR ''{'' l1) s"
  using at_delim(1) [OF lx before] at_delim(3) [OF lx, of _ "CHR ''{''" s] by (auto simp: moves_def)

lemma at_header:
  assumes lx: "reads_json lx q before behind" and h: "json_header h" and s: "s = CHR ''}'' # s'"
    and before: "before l (header_text q h (map (values_json q nil_as_empty nils) h) @ s)"
  shows "\<exists>l'. read_header lx l (Some []) = Some (Inr (Some h, l')) \<and> behind (jl_Delim lx CHR ''}'' l') s'"
    and "moves before (jl_IsDelim lx CHR ''}'' l) (h = []) (header_text q h (map (values_json q nil_as_empty nils) h) @ s)"
proof -
  show "\<exists>l'. read_header lx l (Some []) = Some (Inr (Some h, l')) \<and> behind (jl_Delim lx CHR ''}'' l') s'"
    using read_header_text [OF lx before [unfolded s] values_json_text h, of "[]"] at_delim(4) [OF lx, of _ "CHR ''}''" s']
    by auto
  show "moves before (jl_IsDelim lx CHR ''}'' l) (h = []) (header_text q h (map (values_json q nil_as_empty nils) h) @ s)"
  proof (cases h)
    case Nil
    then show ?thesis using at_delim(2) [OF lx, of l "CHR ''}''" s' "CHR ''}''"] before by (simp add: header_text_def s)
  next
    case (Cons p h')
    then have k: "valid_utf8 (fst p)" using h by (auto simp: json_header_def)
    have "header_text q h (map (values_json q nil_as_empty nils) h) @ s = q (fst p) @ CHR '':'' # values_json q nil_as_empty nils p @
        rest_text (map (entry q) (zip (map fst h') (map (values_json q nil_as_empty nils) h'))) s"
      by (simp add: header_text_def Cons join_Cons entry_def)
    then show ?thesis using at_value(2) [OF lx, of l "q (fst p)" _ "CHR ''}''"] before k Cons by simp
  qed
qed

text \<open>The fields of a result, each with the text of its value and what reading it does.\<close>

definition result_fields ::
    "(string \<Rightarrow> string) \<Rightarrow> bool \<Rightarrow> nil_slices \<Rightarrow> string \<Rightarrow> result \<Rightarrow> (string \<times> string \<times> (result \<Rightarrow> result)) list" where
  "result_fields q nil_as_empty nils data r =
    [(''attack'', q (Attack r), Attack_update (\<lambda>_. Attack r)),
     (''seq'', format_uint (Seq r), Seq_update (\<lambda>_. Seq r)),
     (''code'', format_uint (Code r), Code_update (\<lambda>_. Code r)),
     (''timestamp'', data, Timestamp_update (\<lambda>_. Timestamp r)),
     (''latency'', format_int (Latency r), Latency_update (\<lambda>_. Latency r)),
     (''bytes_out'', format_uint (BytesOut r), BytesOut_update (\<lambda>_. BytesOut r)),
     (''bytes_in'', format_uint (BytesIn r), BytesIn_update (\<lambda>_. BytesIn r)),
     (''error'', q (Error r), Error_update (\<lambda>_. Error r)),
     (''body'', jw_text q (WriteBase64 (bytes_of (nil_body nils) (Body r))),
       if bytes_of (nil_body nils) (Body r) = None then id else Body_update (\<lambda>_. Body r)),
     (''method'', q (Method r), Method_update (\<lambda>_. Method r)),
     (''url'', q (URL r), URL_update (\<lambda>_. URL r)),
     (''headers'', case Headers r of None \<Rightarrow> ''null'' | Some h \<Rightarrow> calls_text q (header_calls nil_as_empty nils h),
       case Headers r of None \<Rightarrow> id | Some h \<Rightarrow> Headers_update (\<lambda>_. Some h))]"

definition object_text :: "(string \<Rightarrow> string) \<Rightarrow> (string \<times> string \<times> 'a) list \<Rightarrow> string" where
  "object_text q fs = CHR ''{'' # join [comma] (map (\<lambda>(k, t, u). entry q (k, t)) fs) @ ''}''"

lemma result_calls_text:
  assumes "quotes_json q" and "time_text (Timestamp r) = Inr data"
  shows "calls_text q (result_calls False nil_as_empty nils time_text r) = object_text q (result_fields q nil_as_empty nils data r)"
  using json_quote(3) [OF assms(1)] assms(2)
  by (cases "Headers r") (simp_all add: result_calls_def object_text_def result_fields_def entry_def field_names_def field_prefix_def)

text \<open>The calls a header takes.\<close>

definition header_call :: "header \<Rightarrow> jw_call \<Rightarrow> bool" where
  "header_call h c \<longleftrightarrow> (\<exists>b \<in> set ''{}[],:''. c = RawByte b) \<or> c = RawString ''null'' \<or>
    (\<exists>(k, vs) \<in> set h. \<exists>x \<in> set (k # vs). c = WriteString x)"

lemma separated_calls: "c \<in> set (separated css) \<Longrightarrow> c = RawByte comma \<or> (\<exists>cs \<in> set css. c \<in> set cs)"
  by (induction css rule: separated.induct) auto

lemma header_calls_calls:
  assumes "c \<in> set (header_calls nil_as_empty nils h)"
  shows "header_call h c"
proof -
  have "header_call h c'" if "p \<in> set h" "c' \<in> set (values_calls nil_as_empty nils p)" for c' p
  proof -
    obtain k vs where p: "p = (k, vs)" by force
    have "c' \<in> set (separated (map (\<lambda>v. [WriteString v]) vs)) \<Longrightarrow> c' = RawByte comma \<or> (\<exists>v \<in> set vs. c' = WriteString v)"
      by (drule separated_calls) auto
    with that show ?thesis by (auto simp: p values_calls_def header_call_def split: if_splits)
  qed
  moreover have "header_call h (RawByte b)" if "b \<in> set ''{}[],:''" for b using that by (auto simp: header_call_def)
  ultimately show ?thesis using assms by (auto simp: header_calls_def dest!: separated_calls)
qed

lemma header_calls_no_raw_error [simp]: "WriteRaw (Inl e) \<notin> set (header_calls nil_as_empty nils h)"
  using header_calls_calls [of "WriteRaw (Inl e)"] by (auto simp: header_call_def)

lemma result_calls_no_error:
  assumes "time_text (Timestamp r) = Inr data" and "c \<in> set (result_calls nil_map_as_empty nil_as_empty nils time_text r)"
  shows "\<not> raw_error c"
  using assms by (auto simp: result_calls_def raw_error_def split: option.splits if_splits)

text \<open>Each of them is read by the switch of the decoder.\<close>

lemma reads_body:
  assumes lx: "reads_json lx q before behind" and k: "valid_utf8 k"
    and field: "\<And>l out. field k l out = (case jl_IsNull lx l of (null, l) \<Rightarrow>
      if null then Some (Inr (u [] out, jl_Skip lx l)) else assign (jl_Bytes lx l) (\<lambda>b. u b out))"
  shows "reads_field lx before behind field (k, jw_text q (WriteBase64 b), case b of None \<Rightarrow> id | Some b \<Rightarrow> u b)"
proof (cases b)
  case None
  then show ?thesis using reads_field_null [OF lx k] by simp
next
  case (Some bs)
  let ?t = "quote # b64_encode bs @ [quote]"
  have "reads_field lx before behind field (k, ?t, u bs)"
  proof (rule reads_fieldI [OF lx k])
    fix l s out
    assume before: "before l (?t @ s)" and s: "follows s"
    obtain l1 where l1: "jl_IsNull lx l = (False, l1)" "before l1 (?t @ s)"
      using at_value(1) [OF lx before _ s] by (auto elim: movesE)
    then have "moves behind (jl_Bytes lx l1) bs s" using at_number(1) [OF lx s] by simp
    then show "\<exists>l'. field k l out = Some (Inr (u bs out, l')) \<and> behind l' s"
      using assign_moves [of behind _ bs s "\<lambda>b. u b out"] l1(1) by (simp add: field)
  qed simp_all
  then show ?thesis using Some by simp
qed

lemma reads_string_field:
  assumes lx: "reads_json lx q before behind" and q: "quotes_json q" and k: "valid_utf8 k" and x: "valid_utf8 x"
    and field: "\<And>l out. field k l out = assign (jl_String lx l) (\<lambda>s. u s out)"
  shows "reads_field lx before behind field (k, q x, u x)"
proof (rule reads_fieldI [OF lx k])
  fix l s out
  assume "before l (q x @ s)" "follows s"
  then show "\<exists>l'. field k l out = Some (Inr (u x out, l')) \<and> behind l' s"
    using assign_moves [OF at_string(3) [OF lx _ x], of l s "\<lambda>s. u s out"] by (simp add: field)
qed (simp_all add: x json_quote(1) [OF q])

lemma reads_number_field:
  assumes lx: "reads_json lx q before behind" and k: "valid_utf8 k" and t: "json_value q t" "t \<noteq> ''null''"
    and read: "\<And>l s. before l (t @ s) \<Longrightarrow> follows s \<Longrightarrow> moves behind (read l) n s"
    and field: "\<And>l out. field k l out = assign (read l) (\<lambda>n. u n out)"
  shows "reads_field lx before behind field (k, t, u n)"
proof (rule reads_fieldI [OF lx k t])
  fix l s out
  assume "before l (t @ s)" "follows s"
  then show "\<exists>l'. field k l out = Some (Inr (u n out, l')) \<and> behind l' s"
    using assign_moves [OF read, of l s "\<lambda>n. u n out"] by (simp add: field)
qed

lemma reads_result_header:
  assumes lx: "reads_json lx q before behind" and h: "pred_option json_header h"
  shows "reads_field lx before behind (result_field lx time_of)
    (''headers'', case h of None \<Rightarrow> ''null'' | Some h \<Rightarrow> calls_text q (header_calls nil_as_empty nils h),
     case h of None \<Rightarrow> id | Some h \<Rightarrow> Headers_update (\<lambda>_. Some h))"
proof (cases h)
  case None
  have "valid_utf8 ''headers''" by code_simp
  then show ?thesis using reads_field_null [OF lx] None by simp
next
  case (Some m)
  let ?b = "header_text q m (map (values_json q nil_as_empty nils) m)"
  have m: "json_header m" using h Some by simp
  have "\<exists>l'. result_field lx time_of ''headers'' l out = Some (Inr (out\<lparr>Headers := Some m\<rparr>, l')) \<and> behind l' s"
    if here: "before l (CHR ''{'' # ?b @ CHR ''}'' # s)" for l s out
  proof -
    obtain l1 where l1: "jl_IsNull lx l = (False, l1)" "before (jl_Delim lx CHR ''{'' l1) (?b @ CHR ''}'' # s)"
      using at_object [OF lx here] by blast
    moreover obtain l2 where "read_header lx (jl_Delim lx CHR ''{'' l1) (Some []) = Some (Inr (Some m, l2))"
        "behind (jl_Delim lx CHR ''}'' l2) s"
      using at_header(1) [OF lx m refl l1(2)] by blast
    ultimately show ?thesis by (simp add: result_field_def)
  qed
  moreover have "valid_utf8 ''headers''" by code_simp
  moreover have "moves before (jl_IsNull lx l) False (CHR ''{'' # ?b @ CHR ''}'' # s)"
    if "before l (CHR ''{'' # ?b @ CHR ''}'' # s)" for l s
    using at_delim(1) [OF lx that] by simp
  ultimately show ?thesis using Some by (simp add: reads_field_def header_calls_text)
qed

lemma reads_timestamp:
  assumes lx: "reads_json lx q before behind" and q: "quotes_json q" and t: "json_times q time_text time_of" "time_text t = Inr data"
  shows "reads_field lx before behind (result_field lx time_of) (''timestamp'', data, Timestamp_update (\<lambda>_. t))"
proof -
  obtain x where x: "valid_utf8 x" "data = q x" and of: "time_of data t0 = (t, None)" for t0
    using t unfolding json_times_def by meson
  have k: "valid_utf8 ''timestamp''" by code_simp
  show ?thesis
  proof (rule reads_fieldI [OF lx k])
    fix l s out
    assume "before l (data @ s)" "follows s"
    then obtain l1 where l1: "jl_Raw lx l = (data, l1)" "behind l1 s"
      using at_string(4) [OF lx, of l x s] x by (auto elim: movesE)
    then have "jl_Ok lx l1" "behind (jl_AddError lx None l1) s" using lx by (auto simp: reads_json_def)
    then show "\<exists>l'. result_field lx time_of ''timestamp'' l out = Some (Inr (out\<lparr>Timestamp := t\<rparr>, l')) \<and> behind l' s"
      using l1(1) of by (simp add: result_field_def)
  qed (use x json_quote(1) [OF q] in simp_all)
qed

lemma reads_result_fields:
  assumes lx: "reads_json lx q before behind" and q: "quotes_json q" and t: "json_times q time_text time_of"
    and safe: "json_safe time_text r" and data: "time_text (Timestamp r) = Inr data"
  shows "list_all (reads_field lx before behind (result_field lx time_of)) (result_fields q nil_as_empty nils data r)"
proof -
  note names = field_names_valid [unfolded field_names_def list.pred_inject]
  have body: "reads_field lx before behind (result_field lx time_of)
      (''body'', jw_text q (WriteBase64 b), case b of None \<Rightarrow> id | Some b \<Rightarrow> Body_update (\<lambda>_. b))" for b
    using names by (intro reads_body [OF lx]) (simp_all add: result_field_def)
  have b: "(case bytes_of (nil_body nils) (Body r) of None \<Rightarrow> id | Some b \<Rightarrow> Body_update (\<lambda>_. b)) =
      (if bytes_of (nil_body nils) (Body r) = None then id else Body_update (\<lambda>_. Body r))"
    by (simp add: bytes_of_def)
  note string = reads_string_field [OF lx q, where field = "result_field lx time_of"]
    and number = reads_number_field [OF lx, where field = "result_field lx time_of"]
  have strings: "valid_utf8 (Attack r)" "valid_utf8 (Error r)" "valid_utf8 (Method r)" "valid_utf8 (URL r)"
      "pred_option json_header (Headers r)"
    using safe by (simp_all add: json_safe_def)
  show ?thesis
    unfolding result_fields_def list.pred_inject b [symmetric]
  proof (intro conjI)
    show "reads_field lx before behind (result_field lx time_of) (''attack'', q (Attack r), Attack_update (\<lambda>_. Attack r))"
      using names strings by (intro string [where u = "\<lambda>s. Attack_update (\<lambda>_. s)"]) (simp_all add: result_field_def)
    show "reads_field lx before behind (result_field lx time_of) (''seq'', format_uint (Seq r), Seq_update (\<lambda>_. Seq r))"
      using names by (intro number [where u = "\<lambda>n. Seq_update (\<lambda>_. n)" and read = "jl_Uint64 lx"])
        (simp_all add: result_field_def at_number [OF lx])
    show "reads_field lx before behind (result_field lx time_of) (''code'', format_uint (Code r), Code_update (\<lambda>_. Code r))"
      using names by (intro number [where u = "\<lambda>n. Code_update (\<lambda>_. n)" and read = "jl_Uint16 lx"])
        (simp_all add: result_field_def at_number [OF lx])
    show "reads_field lx before behind (result_field lx time_of) (''latency'', format_int (Latency r), Latency_update (\<lambda>_. Latency r))"
      using names by (intro number [where u = "\<lambda>n. Latency_update (\<lambda>_. n)" and read = "jl_Int64 lx"])
        (simp_all add: result_field_def at_number [OF lx])
    show "reads_field lx before behind (result_field lx time_of) (''bytes_out'', format_uint (BytesOut r), BytesOut_update (\<lambda>_. BytesOut r))"
      using names by (intro number [where u = "\<lambda>n. BytesOut_update (\<lambda>_. n)" and read = "jl_Uint64 lx"])
        (simp_all add: result_field_def at_number [OF lx])
    show "reads_field lx before behind (result_field lx time_of) (''bytes_in'', format_uint (BytesIn r), BytesIn_update (\<lambda>_. BytesIn r))"
      using names by (intro number [where u = "\<lambda>n. BytesIn_update (\<lambda>_. n)" and read = "jl_Uint64 lx"])
        (simp_all add: result_field_def at_number [OF lx])
    show "reads_field lx before behind (result_field lx time_of) (''error'', q (Error r), Error_update (\<lambda>_. Error r))"
      using names strings by (intro string [where u = "\<lambda>s. Error_update (\<lambda>_. s)"]) (simp_all add: result_field_def)
    show "reads_field lx before behind (result_field lx time_of) (''method'', q (Method r), Method_update (\<lambda>_. Method r))"
      using names strings by (intro string [where u = "\<lambda>s. Method_update (\<lambda>_. s)"]) (simp_all add: result_field_def)
    show "reads_field lx before behind (result_field lx time_of) (''url'', q (URL r), URL_update (\<lambda>_. URL r))"
      using names strings by (intro string [where u = "\<lambda>s. URL_update (\<lambda>_. s)"]) (simp_all add: result_field_def)
  qed (simp_all add: body reads_timestamp [OF lx q t data] reads_result_header [OF lx strings(5)] del: jw_text.simps)
qed

section \<open>Encoding and decoding lines\<close>

lemma format_no_nl [simp]: "nl \<notin> set (format_uint n)" "nl \<notin> set (format_int i)"
proof -
  have n: "nl \<notin> set (format_nat m)" for m
  proof
    assume "nl \<in> set (format_nat m)"
    then obtain d where "d < 10" "nl = digit_char d" using format_nat_digits by blast
    then have "digit_val nl = Some d" by simp
    then show False by (simp add: digit_val_def)
  qed
  then show "nl \<notin> set (format_uint n)" "nl \<notin> set (format_int i)" by (simp_all add: format_uint_def format_int_def)
qed

lemma b64_no_nl [simp]: "nl \<notin> set (b64_encode s)"
  using b64_encode_chars [of s] b64_alphabet_facts by auto

lemma header_call_no_nl:
  assumes "quotes_json q" and "json_header h" and "header_call h c"
  shows "nl \<notin> set (jw_text q c)"
  using assms json_quote(2) [OF assms(1)] by (auto simp: header_call_def json_header_def list_all_iff)

lemma calls_text_no_nl: "\<forall>c \<in> set cs. nl \<notin> set (jw_text q c) \<Longrightarrow> nl \<notin> set (calls_text q cs)"
  by (auto simp: calls_text_def)

lemma result_calls_no_nl:
  assumes q: "quotes_json q" and t: "json_times q time_text time_of" and safe: "json_safe time_text r"
  shows "nl \<notin> set (calls_text q (result_calls False nil_as_empty nils time_text r))"
proof -
  obtain data x where "time_text (Timestamp r) = Inr data" "valid_utf8 x" "data = q x"
    using safe t unfolding json_safe_def json_times_def by meson
  moreover have "nl \<notin> set (jw_text q (WriteBase64 b))" for b by (cases b) auto
  moreover have "nl \<notin> set (jw_text q c)" if "c \<in> set (header_calls nil_as_empty nils h)" "Headers r = Some h" for c h
  proof -
    have "json_header h" using safe that(2) by (simp add: json_safe_def)
    then show ?thesis by (rule header_call_no_nl [OF q _ header_calls_calls [OF that(1)]])
  qed
  ultimately have "\<forall>c \<in> set (result_calls False nil_as_empty nils time_text r). nl \<notin> set (jw_text q c)"
    using safe json_quote(2) [OF q]
    by (auto simp: result_calls_def json_safe_def field_prefix_def simp del: jw_text.simps(8,9) split: option.splits if_splits)
  then show ?thesis by (rule calls_text_no_nl)
qed

text \<open>A safe result, the text of its object and what reads it.\<close>

lemma parse_result_text:
  assumes lx: "reads_json lx q before behind" and q: "quotes_json q" and t: "json_times q time_text time_of"
    and safe: "json_safe time_text r"
  shows "parse_result lx time_of (calls_text q (result_calls False nil_as_empty nils time_text r) @ [nl]) zero_result =
    Some (Inr (r, None))"
proof -
  obtain data where data: "time_text (Timestamp r) = Inr data" using safe by (auto simp: json_safe_def)
  have "fold (\<lambda>(k, t, u). u) (result_fields q nil_as_empty nils data r) zero_result = r"
    by (cases r) (simp add: result_fields_def zero_result_def bytes_of_def split: option.split)
  then obtain l where "decode_object lx (jl_UnsafeFieldName lx) (result_field lx time_of)
      (jl_new lx (calls_text q (result_calls False nil_as_empty nils time_text r) @ [nl])) zero_result = Some (Inr (r, l))"
      "jl_Error lx l = None"
    using decode_object_text [OF lx _ reads_result_fields [OF lx q t safe data, of nil_as_empty nils],
        where name = "jl_UnsafeFieldName lx" and s = "[nl]" and out = zero_result]
      result_calls_text [OF q, of time_text r data nil_as_empty nils] data
    by (auto simp: object_text_def)
  then show ?thesis by (simp add: parse_result_def)
qed

text \<open>What one call of an encoder writes.\<close>

lemma writes_call:
  assumes "writes_json wr q text" and "writing wr text flags s w" and "\<not> raw_error c"
  shows "writing wr text flags (s @ jw_text q c) (jw_do wr c w)"
  using assms unfolding writes_json_def by blast

lemma writes_dump:
  assumes "writes_json wr q text" and "writing wr text flags s w"
  shows "\<exists>w'. jw_DumpTo wr w out = (w', out @ s, None) \<and> writing wr text flags [] w'"
  using assms unfolding writes_json_def by blast

lemma writing_calls:
  assumes wr: "writes_json wr q text"
  shows "writing wr text flags s w \<Longrightarrow> \<forall>c \<in> set cs. \<not> raw_error c \<Longrightarrow>
    writing wr text flags (s @ calls_text q cs) (fold (jw_do wr) cs w)"
proof (induction cs arbitrary: s w)
  case (Cons c cs)
  then have "writing wr text flags (s @ jw_text q c) (jw_do wr c w)" by (intro writes_call [OF wr]) simp_all
  with Cons show ?case by fastforce
qed simp

lemma json_line_encoder_writes:
  assumes wr: "writes_json wr q text" and w: "writing wr text flags [] w" and cs: "\<forall>c \<in> set (calls w x). \<not> raw_error c"
  shows "\<exists>w'. json_line_encoder wr calls (w, out) x = ((w', out @ calls_text q (calls w x) @ [nl]), None) \<and> writing wr text flags [] w'"
proof -
  let ?w = "fold (jw_do wr) (calls w x) w"
  have w1: "writing wr text flags (calls_text q (calls w x)) ?w" using writing_calls [OF wr w cs] by simp
  then have "writing wr text flags (calls_text q (calls w x) @ [nl]) (jw_do wr (RawByte nl) ?w)"
    using writes_call [OF wr, of flags _ ?w "RawByte nl"] by (simp add: raw_error_def)
  then obtain w' where "jw_DumpTo wr (jw_do wr (RawByte nl) ?w) out = (w', out @ calls_text q (calls w x) @ [nl], None)"
      "writing wr text flags [] w'"
    using writes_dump [OF wr] by blast
  moreover have "jw_Error wr ?w = None" using w1 by (simp add: writing_def)
  ultimately show ?thesis by (simp add: json_line_encoder_def Let_def)
qed

definition result_text :: "(string \<Rightarrow> string) \<Rightarrow> bool \<Rightarrow> (result \<Rightarrow> nil_slices) \<Rightarrow> (time \<Rightarrow> string + string) \<Rightarrow> result \<Rightarrow> string" where
  "result_text q nil_as_empty nils time_text r = calls_text q (result_calls False nil_as_empty (nils r) time_text r)"

lemma json_encoder_writes:
  assumes wr: "writes_json wr q text" and w: "writing wr text (False, nil_as_empty) [] w" and safe: "json_safe time_text r"
  shows "\<exists>w'. json_encoder wr nils time_text (w, out) r =
    ((w', out @ json_encode (result_text q nil_as_empty nils time_text) r), None) \<and> writing wr text (False, nil_as_empty) [] w'"
proof -
  obtain data where "time_text (Timestamp r) = Inr data" using safe by (auto simp: json_safe_def)
  then have "\<forall>c \<in> set (result_calls (jw_nil_map_as_empty wr w) (jw_nil_slice_as_empty wr w) (nils r) time_text r). \<not> raw_error c"
    using result_calls_no_error by blast
  moreover have "jw_nil_map_as_empty wr w = False" "jw_nil_slice_as_empty wr w = nil_as_empty" using w by (simp_all add: writing_def)
  ultimately show ?thesis
    using json_line_encoder_writes [OF wr w, of "\<lambda>w r. result_calls (jw_nil_map_as_empty wr w) (jw_nil_slice_as_empty wr w) (nils r) time_text r" r out]
    by (simp add: json_encoder_def json_encode_def result_text_def)
qed

text \<open>The file an encoder writes is one that the JSON decoder of \<open>Results\<close> reads, with any parser
  that agrees with the decoder of a line.\<close>

lemma json_encoder_yields:
  assumes "reads_json lx q before behind" and "quotes_json q" and "json_times q time_text time_of" and "list_all (json_safe time_text) rs"
    and parse: "\<And>line r r' e. parse_result lx time_of line r = Some (Inr (r', e)) \<Longrightarrow> parse line r = (r', e)"
  shows "json_yields (result_text q nil_as_empty nils time_text) parse
    (concat (map (json_encode (result_text q nil_as_empty nils time_text)) rs)) rs"
proof -
  have "nl \<notin> set (result_text q nil_as_empty nils time_text r) \<and>
      parse (json_encode (result_text q nil_as_empty nils time_text) r) zero_result = (r, None)" if "r \<in> set rs" for r
  proof -
    have "json_safe time_text r" using assms(4) that by (simp add: list_all_iff)
    from result_calls_no_nl [OF assms(2,3) this] parse [OF parse_result_text [OF assms(1-3) this]] show ?thesis
      by (simp add: result_text_def json_encode_def)
  qed
  then show ?thesis by (simp add: json_yields_def list_all_iff)
qed

section \<open>Targets\<close>

definition target_fields :: "(string \<Rightarrow> string) \<Rightarrow> bool \<Rightarrow> nil_slices \<Rightarrow> target \<Rightarrow> (string \<times> string \<times> (target \<Rightarrow> target)) list" where
  "target_fields q nil_as_empty nils t =
    [(''method'', q (t_Method t), t_Method_update (\<lambda>_. t_Method t)), (''url'', q (t_URL t), t_URL_update (\<lambda>_. t_URL t))] @
    (if t_Body t \<noteq> [] then [(''body'', jw_text q (WriteBase64 (Some (t_Body t))), t_Body_update (\<lambda>_. t_Body t))] else []) @
    (if target_header t \<noteq> [] then [(''header'', calls_text q (header_calls nil_as_empty nils (target_header t)),
       t_Header_update (\<lambda>_. Some (target_header t)))] else [])"

lemma target_calls_text:
  assumes "quotes_json q"
  shows "calls_text q (target_calls nil_as_empty nils t) = object_text q (target_fields q nil_as_empty nils t)"
  using json_quote(3) [OF assms]
  by (simp add: target_calls_def object_text_def target_fields_def entry_def field_names_def field_prefix_def)

lemma reads_target_header:
  assumes lx: "reads_json lx q before behind" and m: "json_header m" and ne: "m \<noteq> []"
  shows "reads_field lx before behind (target_field lx)
    (''header'', calls_text q (header_calls nil_as_empty nils m), t_Header_update (\<lambda>_. Some m))"
proof -
  let ?b = "header_text q m (map (values_json q nil_as_empty nils) m)"
  have "\<exists>l'. target_field lx ''header'' l out = Some (Inr (out\<lparr>t_Header := Some m\<rparr>, l')) \<and> behind l' s"
    if here: "before l (CHR ''{'' # ?b @ CHR ''}'' # s)" for l s out
  proof -
    obtain l1 where l1: "jl_IsNull lx l = (False, l1)" "before (jl_Delim lx CHR ''{'' l1) (?b @ CHR ''}'' # s)"
      using at_object [OF lx here] by blast
    moreover obtain l2 where l2: "jl_IsDelim lx CHR ''}'' (jl_Delim lx CHR ''{'' l1) = (False, l2)" "before l2 (?b @ CHR ''}'' # s)"
      using at_header(2) [OF lx m refl l1(2)] ne by (auto elim: movesE)
    moreover obtain l3 where "read_header lx l2 (Some []) = Some (Inr (Some m, l3))" "behind (jl_Delim lx CHR ''}'' l3) s"
      using at_header(1) [OF lx m refl l2(2)] by blast
    ultimately show ?thesis by (simp add: target_field_def)
  qed
  moreover have "valid_utf8 ''header''" by code_simp
  moreover have "moves before (jl_IsNull lx l) False (CHR ''{'' # ?b @ CHR ''}'' # s)"
    if "before l (CHR ''{'' # ?b @ CHR ''}'' # s)" for l s
    using at_delim(1) [OF lx that] by simp
  ultimately show ?thesis by (simp add: reads_field_def header_calls_text)
qed

lemma reads_target_fields:
  assumes lx: "reads_json lx q before behind" and q: "quotes_json q" and t: "json_target t"
  shows "list_all (reads_field lx before behind (target_field lx)) (target_fields q nil_as_empty nils t)"
proof -
  note names = field_names_valid [unfolded field_names_def list.pred_inject]
  note string = reads_string_field [OF lx q, where field = "target_field lx"]
  have "reads_field lx before behind (target_field lx) (''method'', q (t_Method t), t_Method_update (\<lambda>_. t_Method t))"
    using names t by (intro string [where u = "\<lambda>s. t_Method_update (\<lambda>_. s)"]) (simp_all add: target_field_def json_target_def)
  moreover have "reads_field lx before behind (target_field lx) (''url'', q (t_URL t), t_URL_update (\<lambda>_. t_URL t))"
    using names t by (intro string [where u = "\<lambda>s. t_URL_update (\<lambda>_. s)"]) (simp_all add: target_field_def json_target_def)
  moreover have "reads_field lx before behind (target_field lx)
      (''body'', jw_text q (WriteBase64 b), case b of None \<Rightarrow> id | Some b \<Rightarrow> t_Body_update (\<lambda>_. b))" for b
    using names by (intro reads_body [OF lx]) (simp_all add: target_field_def)
  from this [of "Some (t_Body t)"]
  have "reads_field lx before behind (target_field lx) (''body'', jw_text q (WriteBase64 (Some (t_Body t))), t_Body_update (\<lambda>_. t_Body t))"
    by (simp only: option.case)
  moreover have "target_header t \<noteq> [] \<Longrightarrow> reads_field lx before behind (target_field lx)
      (''header'', calls_text q (header_calls nil_as_empty nils (target_header t)), t_Header_update (\<lambda>_. Some (target_header t)))"
    using t by (intro reads_target_header [OF lx]) (simp_all add: json_target_def)
  ultimately show ?thesis by (simp add: target_fields_def del: jw_text.simps)
qed

text \<open>What a line gives back: an empty header is read as a nil one.\<close>

definition written_target :: "target \<Rightarrow> target" where
  "written_target t = t\<lparr>t_Header := if target_header t = [] then None else Some (target_header t)\<rparr>"

lemma parse_target_text:
  assumes lx: "reads_json lx q before behind" and q: "quotes_json q" and t: "json_target t"
  shows "parse_target lx (calls_text q (target_calls nil_as_empty nils t)) = Some (Inr (Inr (written_target t)))"
proof -
  have "fold (\<lambda>(k, t, u). u) (target_fields q nil_as_empty nils t) zero_target = written_target t"
    by (cases t) (simp add: target_fields_def zero_target_def written_target_def)
  then obtain l where "decode_object lx (jl_UnsafeString lx) (target_field lx)
      (jl_new lx (calls_text q (target_calls nil_as_empty nils t))) zero_target = Some (Inr (written_target t, l))"
      "jl_Error lx l = None"
    using decode_object_text [OF lx _ reads_target_fields [OF lx q t, of nil_as_empty nils],
        where name = "jl_UnsafeString lx" and s = "[]" and out = zero_target]
      target_calls_text [OF q, of nil_as_empty nils t]
    by (auto simp: object_text_def)
  then show ?thesis by (simp add: parse_target_def)
qed

lemma target_calls_safe:
  assumes "quotes_json q" and "json_target t"
  shows "\<forall>c \<in> set (target_calls nil_as_empty nils t). \<not> raw_error c" and "nl \<notin> set (calls_text q (target_calls nil_as_empty nils t))"
proof -
  show "\<forall>c \<in> set (target_calls nil_as_empty nils t). \<not> raw_error c"
    by (auto simp: target_calls_def raw_error_def)
  have "nl \<notin> set (jw_text q c)" if "c \<in> set (header_calls nil_as_empty nils (target_header t))" for c
    using assms(2) header_call_no_nl [OF assms(1) _ header_calls_calls [OF that]] by (simp add: json_target_def)
  then have "\<forall>c \<in> set (target_calls nil_as_empty nils t). nl \<notin> set (jw_text q c)"
    using assms(2) json_quote(2) [OF assms(1)] by (auto simp: target_calls_def json_target_def field_prefix_def)
  then show "nl \<notin> set (calls_text q (target_calls nil_as_empty nils t))" by (rule calls_text_no_nl)
qed

lemma json_target_encoder_writes:
  assumes wr: "writes_json wr q text" and q: "quotes_json q" and w: "writing wr text (nil_map_as_empty, nil_as_empty) [] w"
    and t: "json_target t"
  shows "\<exists>w'. json_target_encoder wr nils (w, out) t =
    ((w', out @ calls_text q (target_calls nil_as_empty (nils t) t) @ [nl]), None) \<and>
    writing wr text (nil_map_as_empty, nil_as_empty) [] w'"
proof -
  have "jw_nil_slice_as_empty wr w = nil_as_empty" using w by (simp add: writing_def)
  then show ?thesis
    using json_line_encoder_writes [OF wr w, of "\<lambda>w t. target_calls (jw_nil_slice_as_empty wr w) (nils t) t" t out]
      target_calls_safe(1) [OF q t] by (simp add: json_target_encoder_def)
qed

lemma trim_space_nl: "clean s \<Longrightarrow> trim_space (s @ [nl]) = s"
proof -
  assume c: "clean s"
  have "find (\<lambda>r. r \<noteq> [] \<and> has_prefix (nl # rev s) r) (map rev space_runes) = Some [nl]"
    by (simp add: space_runes_def has_prefix_def)
  then have "trim_left (map rev space_runes) (nl # rev s) = trim_left (map rev space_runes) (rev s)"
    by (subst trim_left.simps) simp
  moreover have "trim_left space_runes (s @ [nl]) = s @ [nl]" "trim_left space_runes s = s"
    using c by (cases s; simp add: clean_def)+
  ultimately have "trim_space (s @ [nl]) = trim_space s" by (simp add: trim_space_def)
  then show ?thesis using c by simp
qed

lemma next_json_line_text:
  assumes "clean line" and "nl \<notin> set line"
  shows "next_json_line (line @ nl # rest) = (Some line, rest)"
proof -
  have "read_bytes_line (line @ nl # rest) = Some (line @ [nl], rest)"
    using assms(2) by (simp add: read_bytes_line_def newline_def takeWhile_to_sep dropWhile_to_sep)
  moreover have "line \<noteq> []" using assms(1) by (simp add: clean_def)
  ultimately show ?thesis by (simp add: next_json_line.simps [of "line @ nl # rest"] trim_space_nl [OF assms(1)])
qed

lemma object_text_clean: "clean (object_text q fs)"
  by (simp add: object_text_def clean_def ascii_graphic_def)

text \<open>What the targeter hands out for a target that was written: its own body or the default one,
  and the default headers before its own.\<close>

definition handed_out :: "string \<Rightarrow> header \<Rightarrow> target \<Rightarrow> target" where
  "handed_out body hdr t = \<lparr>t_Method = t_Method t, t_URL = t_URL t, t_Body = (if t_Body t \<noteq> [] then t_Body t else body),
    t_Header = Some (header_merge (header_merge [] hdr) (target_header t))\<rparr>"

definition requestable :: "target \<Rightarrow> bool" where
  "requestable t \<longleftrightarrow> json_target t \<and> t_Method t \<noteq> [] \<and> t_URL t \<noteq> []"

lemma read_all_written:
  assumes lx: "reads_json lx q before behind" and q: "quotes_json q"
    and decode: "\<And>data r. parse_target lx data = Some (Inr r) \<Longrightarrow> decode data = r"
  shows "list_all requestable ts \<Longrightarrow> acc @ ts \<noteq> [] \<Longrightarrow>
    read_all_loop (json_targeter decode None body hdr (Some zero_target))
      (concat (map (\<lambda>t. calls_text q (target_calls nil_as_empty (nils t) t) @ [nl]) ts)) acc =
    Some (Inr (acc @ map (handed_out body hdr) ts))"
proof (induction ts arbitrary: acc)
  case Nil
  then show ?case by (subst read_all_loop.simps) (simp add: json_targeter_def)
next
  case (Cons t ts)
  let ?line = "calls_text q (target_calls nil_as_empty (nils t) t)"
  have t: "json_target t" "t_Method t \<noteq> []" "t_URL t \<noteq> []" using Cons.prems(1) by (simp_all add: requestable_def)
  have "clean ?line" using target_calls_text [OF q] object_text_clean by simp
  from next_json_line_text [OF this target_calls_safe(2) [OF q t(1)]]
  have "json_targeter decode None body hdr (Some zero_target) (?line @ nl # rest) = (rest, Inr (handed_out body hdr t))" for rest
    using decode [OF parse_target_text [OF lx q t(1)]] t(2,3)
    by (simp add: json_targeter_def written_target_def handed_out_def target_header_def zero_target_def split: option.splits)
  then show ?case using Cons.IH [of "acc @ [handed_out body hdr t]"] Cons.prems(1)
    by (subst read_all_loop.simps) simp
qed

lemma encode_all_targets:
  assumes wr: "writes_json wr q text" and q: "quotes_json q"
  shows "writing wr text (nil_map_as_empty, nil_as_empty) [] w \<Longrightarrow> list_all requestable ts \<Longrightarrow>
    \<exists>w'. encode_all (json_target_encoder wr nils) (w, out) ts =
      ((w', out @ concat (map (\<lambda>t. calls_text q (target_calls nil_as_empty (nils t) t) @ [nl]) ts)), None)"
proof (induction ts arbitrary: w out)
  case (Cons t ts)
  from Cons.prems(2) have ts: "list_all requestable ts" by simp
  from Cons.prems(2) have t: "json_target t" by (simp add: requestable_def)
  from json_target_encoder_writes [OF wr q Cons.prems(1) t] obtain w1 where w1:
    "json_target_encoder wr nils (w, out) t = ((w1, out @ calls_text q (target_calls nil_as_empty (nils t) t) @ [nl]), None)"
    "writing wr text (nil_map_as_empty, nil_as_empty) [] w1" by blast
  from Cons.IH [OF this(2) ts, of "out @ calls_text q (target_calls nil_as_empty (nils t) t) @ [nl]"] w1(1) show ?case by auto
qed simp

lemma encode_all_results:
  assumes wr: "writes_json wr q text"
  shows "writing wr text (False, nil_as_empty) [] w \<Longrightarrow> list_all (json_safe time_text) rs \<Longrightarrow>
    \<exists>w'. encode_all (json_encoder wr nils time_text) (w, out) rs =
      ((w', out @ concat (map (json_encode (result_text q nil_as_empty nils time_text)) rs)), None)"
proof (induction rs arbitrary: w out)
  case (Cons r rs)
  from Cons.prems(2) have r: "json_safe time_text r" and rs: "list_all (json_safe time_text) rs" by simp_all
  from json_encoder_writes [OF wr Cons.prems(1) r] obtain w1 where w1:
    "json_encoder wr nils time_text (w, out) r = ((w1, out @ json_encode (result_text q nil_as_empty nils time_text) r), None)"
    "writing wr text (False, nil_as_empty) [] w1" by blast
  from Cons.IH [OF this(2) rs, of "out @ json_encode (result_text q nil_as_empty nils time_text) r"] w1(1) show ?case by auto
qed simp

section \<open>An instance\<close>

text \<open>A writer that keeps its text, and a lexer that is the text it has left; literals escape the
  quote, the backslash and the newline.\<close>

definition line_writer :: "(string \<Rightarrow> string) \<Rightarrow> (string \<times> string option, string) jwriter" where
  "line_writer q = \<lparr>
    jw_do = (\<lambda>c (s, e). if e \<noteq> None then (s, e) else case c of WriteRaw (Inl e) \<Rightarrow> (s, Some e) | _ \<Rightarrow> (s @ jw_text q c, None)),
    jw_Error = snd, jw_nil_map_as_empty = (\<lambda>_. False), jw_nil_slice_as_empty = (\<lambda>_. False),
    jw_DumpTo = (\<lambda>(s, e) out. (([], e), out @ s, None))\<rparr>"

lemma line_writer_writes: "writes_json (line_writer q) q fst"
  by (auto simp: writes_json_def writing_def line_writer_def raw_error_def split: jw_call.splits sum.splits)

abbreviation backslash :: char where "backslash \<equiv> CHR 0x5C"

fun escape :: "string \<Rightarrow> string" where
  "escape [] = []"
| "escape (c # s) =
    (if c = nl then backslash # CHR ''n'' # escape s
     else if c = quote \<or> c = backslash then backslash # c # escape s
     else c # escape s)"

definition literal :: "string \<Rightarrow> string" where
  "literal s = quote # escape s @ [quote]"

fun unescape :: "string \<Rightarrow> string \<times> string" where
  "unescape [] = ([], [])"
| "unescape (c # s) =
    (if c = quote then ([], s)
     else if c = backslash then
       (case s of [] \<Rightarrow> ([], []) | d # s' \<Rightarrow> apfst (Cons (if d = CHR ''n'' then nl else d)) (unescape s'))
     else apfst (Cons c) (unescape s))"

lemma unescape_escape: "unescape (escape s @ quote # rest) = (s, rest)"
  by (induction s) auto

lemma escape_no_nl: "nl \<notin> set (escape s)"
  by (induction s) auto

lemma literal_quotes: "quotes_json literal"
  using escape_no_nl by (simp add: quotes_json_def literal_def field_names_def)

definition token_end :: "string \<Rightarrow> string" where
  "token_end s = takeWhile (\<lambda>c. c \<notin> set '',:]}'') s"

definition read_literal :: "string \<Rightarrow> string \<times> string" where
  "read_literal s = unescape (tl s)"

definition read_token :: "(string \<Rightarrow> 'x) \<Rightarrow> string \<Rightarrow> 'x \<times> string" where
  "read_token f s = (f (token_end s), drop (length (token_end s)) s)"

definition text_lexer :: "string jlexer" where
  "text_lexer = \<lparr>
    jl_new = id, jl_Error = (\<lambda>_. None), jl_Ok = (\<lambda>_. True), jl_AddError = (\<lambda>_. id), jl_IsStart = (\<lambda>_. True), jl_Consumed = id,
    jl_IsNull = (\<lambda>s. (take 4 s = ''null'', s)), jl_Skip = drop 4, jl_SkipRecursive = id,
    jl_Delim = (\<lambda>_. tl), jl_IsDelim = (\<lambda>c s. (take 1 s = [c], s)),
    jl_WantColon = tl, jl_WantComma = (\<lambda>s. if take 1 s = [comma] then tl s else s),
    jl_UnsafeFieldName = read_literal, jl_UnsafeString = read_literal, jl_String = read_literal,
    jl_Raw = (\<lambda>s. (literal (fst (read_literal s)), snd (read_literal s))),
    jl_Bytes = (\<lambda>s. (fst (b64_decode (fst (read_literal s))), snd (read_literal s))),
    jl_Uint64 = read_token (\<lambda>t. case parse_uint 64 t of Inr n \<Rightarrow> word_of_nat n | _ \<Rightarrow> 0),
    jl_Uint16 = read_token (\<lambda>t. case parse_uint 16 t of Inr n \<Rightarrow> word_of_nat n | _ \<Rightarrow> 0),
    jl_Int64 = read_token (\<lambda>t. case parse_int64 t of Inr n \<Rightarrow> n | _ \<Rightarrow> 0)\<rparr>"

lemma unescape_plain: "quote \<notin> set t \<Longrightarrow> backslash \<notin> set t \<Longrightarrow> unescape (t @ quote # s) = (t, s)"
  by (induction t) auto

lemma read_literals:
  "read_literal (literal x @ s) = (x, s)"
  "read_literal (quote # b64_encode b @ quote # s) = (b64_encode b, s)"
proof -
  show "read_literal (literal x @ s) = (x, s)" by (simp add: read_literal_def literal_def unescape_escape)
  have "quote \<notin> set (b64_encode b)" "backslash \<notin> set (b64_encode b)"
    using b64_encode_chars [of b] b64_alphabet_facts by (auto simp: b64_alphabet_def)
  then show "read_literal (quote # b64_encode b @ quote # s) = (b64_encode b, s)"
    by (simp add: read_literal_def unescape_plain)
qed

lemma format_chars:
  "c \<in> set (format_uint n) \<Longrightarrow> digit_val c \<noteq> None"
  "c \<in> set (format_int i) \<Longrightarrow> c = CHR ''-'' \<or> digit_val c \<noteq> None"
proof -
  have n: "c \<in> set (format_nat m) \<Longrightarrow> digit_val c \<noteq> None" for m
    by (drule format_nat_digits) auto
  show "c \<in> set (format_uint n) \<Longrightarrow> digit_val c \<noteq> None" "c \<in> set (format_int i) \<Longrightarrow> c = CHR ''-'' \<or> digit_val c \<noteq> None"
    using n by (auto simp: format_uint_def format_int_def split: if_splits)
qed

lemma digit_not_delim:
  assumes "c = CHR ''-'' \<or> digit_val c \<noteq> None"
  shows "c \<notin> set ''n,:]}''"
  using assms by (auto simp: digit_val_def)

lemma read_token_text:
  assumes "\<forall>c \<in> set t. c = CHR ''-'' \<or> digit_val c \<noteq> None" and "follows s"
  shows "read_token f (t @ s) = (f t, s)"
proof -
  have t: "\<forall>c \<in> set t. c \<notin> set '',:]}''" using assms(1) digit_not_delim by fastforce
  obtain c s' where s: "s = c # s'" "c \<in> set '',:]}''" using assms(2) by (cases s) (auto simp: follows_def)
  have "token_end (t @ s) = t @ token_end s" unfolding token_end_def by (rule takeWhile_append2) (use t in blast)
  then have "token_end (t @ s) = t" using s by (simp add: token_end_def)
  then show ?thesis by (simp add: read_token_def)
qed

lemma read_format:
  assumes "follows s"
  shows "read_token f (format_uint n @ s) = (f (format_uint n), s)" "read_token f (format_int i @ s) = (f (format_int i), s)"
  using assms format_chars(1) [of _ n] format_chars(2) [of _ i] by (blast intro: read_token_text)+

lemma number_start:
  assumes "t \<noteq> []" and "\<forall>c \<in> set t. c = CHR ''-'' \<or> digit_val c \<noteq> None"
  shows "hd t \<notin> set ''n}]''"
  using assms digit_not_delim [of "hd t"] by (cases t) auto

lemma value_start:
  assumes "json_value literal t" and "t \<noteq> ''null''"
  shows "t \<noteq> [] \<and> hd t \<notin> set ''n}]''"
proof -
  have "format_uint n \<noteq> [] \<and> hd (format_uint n) \<notin> set ''n}]''" for n :: u64
    using number_start [of "format_uint n"] format_chars(1) [of _ n] by (simp add: format_uint_def)
  moreover have "format_uint n \<noteq> [] \<and> hd (format_uint n) \<notin> set ''n}]''" for n :: u16
    using number_start [of "format_uint n"] format_chars(1) [of _ n] by (simp add: format_uint_def)
  moreover have "format_int i \<noteq> [] \<and> hd (format_int i) \<notin> set ''n}]''" for i
    using number_start [of "format_int i"] format_chars(2) [of _ i] by (simp add: format_int_def)
  ultimately show ?thesis using assms unfolding json_value_def literal_def by (elim disjE exE conjE) simp_all
qed

lemma text_lexer_reads: "reads_json text_lexer literal (=) (=)"
  unfolding reads_json_def
proof (intro conjI)
  show "reads_separators text_lexer (=) (=)" by (auto simp: reads_separators_def text_lexer_def)
  show "reads_delims text_lexer (=) (=)" by (auto simp: reads_delims_def text_lexer_def moves_def)
  have "take 4 (t @ s) = ''null'' \<longleftrightarrow> t = ''null''" "take 1 (t @ s) \<noteq> [d]"
    if "json_value literal t" "d \<in> set ''}]''" for t s d
    using value_start [OF that(1)] that(2) by (cases t; auto)+
  then show "reads_values text_lexer literal (=) (=)" by (auto simp: reads_values_def text_lexer_def moves_def)
  show "reads_literals text_lexer literal (=) (=)"
    by (simp add: reads_literals_def text_lexer_def moves_def read_literals)
  show "reads_numbers text_lexer (=) (=)"
    using parse_format_uint [where 'a = 64] parse_format_uint [where 'a = 16]
    by (simp add: reads_numbers_def text_lexer_def moves_def parse_format_int read_format)
qed (simp_all add: text_lexer_def)

section \<open>Properties\<close>

text \<open>
  C17. Targets written with \<open>NewJSONTargetEncoder\<close> and read by \<open>ReadAllTargets\<close> with
  \<open>NewJSONTargeter\<close> come back in order, each with its method, URL and body (the default body when
  it has none) and, under every header key, the default values followed by its own; the encoder
  never fails on them.
\<close>

theorem json_targets_round_trip:
  assumes "writes_json wr q text" and "quotes_json q" and "reads_json lx q before behind" and "writing wr text flags [] w"
    and "list_all requestable ts" and "ts \<noteq> []" and "\<And>data r. parse_target lx data = Some (Inr r) \<Longrightarrow> decode data = r"
  shows "\<exists>w' file. encode_all (json_target_encoder wr nils) (w, []) ts = ((w', file), None) \<and>
    read_all_targets (json_targeter decode None body hdr (Some zero_target)) file = Some (Inr (map (handed_out body hdr) ts))"
proof -
  obtain a b where "flags = (a, b)" by force
  with assms(4) have w: "writing wr text (a, b) [] w" by simp
  obtain w' where "encode_all (json_target_encoder wr nils) (w, []) ts =
      ((w', concat (map (\<lambda>t. calls_text q (target_calls b (nils t) t) @ [nl]) ts)), None)"
    using encode_all_targets [OF assms(1,2) w assms(5), where out = "[]" and nils = nils] by auto
  then show ?thesis
    using read_all_written [OF assms(3,2,7,5), where acc = "[]" and nil_as_empty = b and nils = nils and body = body and hdr = hdr] assms(6)
    by (simp add: read_all_targets_def)
qed

definition no_nils :: nil_slices where
  "no_nils = \<lparr>nil_body = False, nil_values = (\<lambda>_. False)\<rparr>"

definition text_decode :: "string \<Rightarrow> string + target" where
  "text_decode data = (case parse_target text_lexer data of Some (Inr r) \<Rightarrow> r | _ \<Rightarrow> Inl ''no target'')"

theorem json_targets_round_trip_witness:
  "\<exists>w' file. encode_all (json_target_encoder (line_writer literal) (\<lambda>_. no_nils)) (([], None), [])
      [zero_target\<lparr>t_Method := ''GET'', t_URL := ''/'', t_Header := Some [(''K'', [''v'', ''w''])]\<rparr>] = ((w', file), None) \<and>
    read_all_targets (json_targeter text_decode None ''b'' [] (Some zero_target)) file =
      Some (Inr [\<lparr>t_Method = ''GET'', t_URL = ''/'', t_Body = ''b'', t_Header = Some [(''K'', [''v'', ''w''])]\<rparr>])"
proof -
  let ?t = "zero_target\<lparr>t_Method := ''GET'', t_URL := ''/'', t_Header := Some [(''K'', [''v'', ''w''])]\<rparr>"
  have "valid_utf8 ''GET''" "valid_utf8 ''/''" "valid_utf8 ''K''" "valid_utf8 ''v''" "valid_utf8 ''w''" by code_simp+
  then have "list_all requestable [?t]"
    by (simp add: requestable_def json_target_def json_header_def wf_header_def target_header_def zero_target_def)
  moreover have "writing (line_writer literal) fst (False, False) [] ([], None)" by (simp add: writing_def line_writer_def)
  moreover have "text_decode data = r" if "parse_target text_lexer data = Some (Inr r)" for data r
    using that by (simp add: text_decode_def)
  ultimately show ?thesis
    using json_targets_round_trip [OF line_writer_writes literal_quotes text_lexer_reads, where ts = "[?t]" and decode = text_decode
        and body = "''b''" and hdr = "[]" and nils = "\<lambda>_. no_nils"]
    by (fastforce simp: handed_out_def target_header_def header_append_def header_get_def zero_target_def)
qed

end
