(* ===== verification/Rated_Pacers.thy ===== *)
theory Rated_Pacers
  imports Const_Pacer Float64 Go_Duration
begin

text \<open>
  The floating-point part of \<open>lib/pacer.go\<close>: rates, \<open>SinePacer\<close> and \<open>LinearPacer\<close>.
  \<open>math.Sin\<close> and \<open>math.Cos\<close> are the arguments \<open>math_sin\<close> and \<open>math_cos\<close>. \<open>math.Pow(x, 2)\<close> is one rounded
  multiplication. Constants are exact and rounded where they are used, as the compiler does.
\<close>

section \<open>Floating-point helpers\<close>

definition f_abs :: "float64 \<Rightarrow> float64" where
  "f_abs a = (case a of Fin x \<Rightarrow> Fin \<bar>x\<bar> | NInf \<Rightarrow> PInf | _ \<Rightarrow> a)"

text \<open>\<open>math.Round\<close>: half away from zero.\<close>

definition f_math_round :: "float64 \<Rightarrow> float64" where
  "f_math_round a =
    (case a of
       Fin x \<Rightarrow> Fin (if 0 \<le> x then of_int \<lfloor>x + 1 / 2\<rfloor> else - of_int \<lfloor>- x + 1 / 2\<rfloor>)
     | _ \<Rightarrow> a)"

definition f_square :: "float64 \<Rightarrow> float64" where
  "f_square a = f_mul a a"

text \<open>\<open>math.Pi\<close> is an untyped constant with this many digits.\<close>

definition math_pi :: rat where
  "math_pi = 314159265358979323846264338327950288419716939937510582097494459 / 10 ^ 62"

definition f_const :: "rat \<Rightarrow> float64" where
  "f_const x = Fin (rnd x)"

section \<open>Rates\<close>

definition constant_hits_per_ns :: "constant_pacer \<Rightarrow> float64" where
  "constant_hits_per_ns cp = f_div (f_of_int (sint (Freq cp))) (f_of_int (sint (Per cp)))"

definition constant_rate :: "constant_pacer \<Rightarrow> duration \<Rightarrow> float64" where
  "constant_rate cp elapsed = f_mul (constant_hits_per_ns cp) (f_const 1000000000)"

definition constant_string :: "constant_pacer \<Rightarrow> string" where
  "constant_string cp =
    ''Constant{'' @ format_int (Freq cp) @ '' hits/'' @ duration_string (Per cp) @ ''}''"

definition pacer_func :: "(duration \<Rightarrow> u64 \<Rightarrow> (duration \<times> bool) go) \<Rightarrow> duration \<Rightarrow> u64 \<Rightarrow> (duration \<times> bool) go" where
  "pacer_func pf elapsed hits = pf elapsed hits"

section \<open>LinearPacer\<close>

record linear_pacer =
  lin_StartAt :: constant_pacer
  lin_Slope :: float64

definition linear_rate :: "linear_pacer \<Rightarrow> duration \<Rightarrow> float64" where
  "linear_rate p elapsed =
    (let a = lin_Slope p;
         x = duration_seconds elapsed;
         b = f_mul (constant_hits_per_ns (lin_StartAt p)) (f_const 1000000000) in
     f_add (f_mul a x) b)"

definition linear_hits :: "linear_pacer \<Rightarrow> duration \<Rightarrow> float64" where
  "linear_hits p t =
    (if t <s 0 then Fin 0
     else
       let a = lin_Slope p;
           b = f_mul (constant_hits_per_ns (lin_StartAt p)) (f_const 1000000000);
           x = duration_seconds t in
       f_add (f_div (f_mul a (f_square x)) (f_const 2)) (f_mul b x))"

definition linear_pace :: "linear_pacer \<Rightarrow> duration \<Rightarrow> u64 \<Rightarrow> duration \<times> bool" where
  "linear_pace p elapsed hits =
    (if Per (lin_StartAt p) = 0 \<or> Freq (lin_StartAt p) = 0 then (0, False)
     else if Per (lin_StartAt p) <s 0 \<or> Freq (lin_StartAt p) <s 0 then (0, True)
     else
       let expectedHits = linear_hits p elapsed in
       if hits = 0 \<or> hits < f_to_u64 expectedHits then (0, False)
       else
         let rate = linear_rate p elapsed;
             interval = f_math_round (f_div (f_const 1000000000) rate);
             n = f_to_u64 interval in
         if n \<noteq> 0 \<and> max_int64 div n < hits then (0, True)
         else
           let delta = f_sub (f_of_int (uint (hits + 1))) expectedHits in
           (f_to_i64 (f_mul interval delta), False))"

section \<open>SinePacer\<close>

record sine_pacer =
  sin_Period :: duration
  sin_Mean :: constant_pacer
  sin_Amp :: constant_pacer
  sin_StartAt :: float64

definition mean_up :: float64 where "mean_up = f_const 0"
definition peak :: float64 where "peak = f_const (math_pi / 2)"
definition mean_down :: float64 where "mean_down = f_const math_pi"
definition trough :: float64 where "trough = f_const (3 * math_pi / 2)"

definition sine_invalid :: "sine_pacer \<Rightarrow> bool" where
  "sine_invalid sp \<longleftrightarrow>
    sin_Period sp \<le>s 0 \<or> f_le (constant_hits_per_ns (sin_Mean sp)) (Fin 0) \<or>
    f_le (constant_hits_per_ns (sin_Mean sp)) (constant_hits_per_ns (sin_Amp sp))"

definition sine_amp_hits :: "sine_pacer \<Rightarrow> float64" where
  "sine_amp_hits sp =
    f_div (f_mul (constant_hits_per_ns (sin_Amp sp)) (f_of_int (sint (sin_Period sp)))) (f_const (2 * math_pi))"

definition sine_radians :: "sine_pacer \<Rightarrow> duration \<Rightarrow> float64" where
  "sine_radians sp t =
    f_add (sin_StartAt sp)
      (f_div (f_mul (f_mul (f_of_int (sint t)) (f_const 2)) (f_const math_pi)) (f_of_int (sint (sin_Period sp))))"

definition sine_hits_per_ns :: "(float64 \<Rightarrow> float64) \<Rightarrow> sine_pacer \<Rightarrow> duration \<Rightarrow> float64" where
  "sine_hits_per_ns math_sin sp t =
    f_add (constant_hits_per_ns (sin_Mean sp))
      (f_mul (constant_hits_per_ns (sin_Amp sp)) (math_sin (sine_radians sp t)))"

definition sine_rate :: "(float64 \<Rightarrow> float64) \<Rightarrow> sine_pacer \<Rightarrow> duration \<Rightarrow> float64" where
  "sine_rate math_sin sp elapsed = f_mul (sine_hits_per_ns math_sin sp elapsed) (f_const 1000000000)"

definition sine_hits :: "(float64 \<Rightarrow> float64) \<Rightarrow> sine_pacer \<Rightarrow> duration \<Rightarrow> float64" where
  "sine_hits math_cos sp t =
    (if t \<le>s 0 \<or> sine_invalid sp then Fin 0
     else f_add (f_mul (constant_hits_per_ns (sin_Mean sp)) (f_of_int (sint t)))
       (f_mul (sine_amp_hits sp) (f_sub (math_cos (sin_StartAt sp)) (math_cos (sine_radians sp t)))))"

text \<open>The search for the wait: \<open>n\<close> rounds left.\<close>

fun sine_search :: "(float64 \<Rightarrow> float64) \<Rightarrow> sine_pacer \<Rightarrow> duration \<Rightarrow> u64 \<Rightarrow> nat \<Rightarrow> duration \<Rightarrow> duration" where
  "sine_search math_cos sp elapsedTime elapsedHits 0 nextHitIn = nextHitIn"
| "sine_search math_cos sp elapsedTime elapsedHits (Suc n) nextHitIn =
    (let hitsAtGuess = sine_hits math_cos sp (elapsedTime + nextHitIn);
         err = f_sub (f_of_int (uint (elapsedHits + 1))) hitsAtGuess in
     if f_less (f_abs err) (f_const (1 / 1000)) then nextHitIn
     else sine_search math_cos sp elapsedTime elapsedHits n
       (f_to_i64 (f_div (f_of_int (sint nextHitIn)) (f_sub hitsAtGuess (f_of_int (uint elapsedHits))))))"

definition sine_pace :: "(float64 \<Rightarrow> float64) \<Rightarrow> (float64 \<Rightarrow> float64) \<Rightarrow> sine_pacer \<Rightarrow> duration \<Rightarrow> u64 \<Rightarrow> duration \<times> bool" where
  "sine_pace math_sin math_cos sp elapsedTime elapsedHits =
    (if sine_invalid sp then (0, True)
     else
       let expectedHits = sine_hits math_cos sp elapsedTime in
       if elapsedHits < f_to_u64 expectedHits then (0, False)
       else
         let nsPerHit = f_math_round (f_div (f_const 1) (sine_hits_per_ns math_sin sp elapsedTime));
             hitsToWait = f_sub (f_of_int (uint (elapsedHits + 1))) expectedHits;
             nextHitIn = f_to_i64 (f_mul nsPerHit hitsToWait) in
         (sine_search math_cos sp elapsedTime elapsedHits 5 nextHitIn, False))"

text \<open>\<open>String\<close>, in UTF-8; \<open>fmt_g\<close> is \<open>fmt\<close>'s \<open>%g\<close>.\<close>

definition sine_string :: "(float64 \<Rightarrow> string) \<Rightarrow> sine_pacer \<Rightarrow> string" where
  "sine_string fmt_g sp =
    ''Sine{'' @ constant_string (sin_Mean sp) @ '' '' @ [CHR 0xC2, CHR 0xB1] @ '' '' @ constant_string (sin_Amp sp) @
    '' / '' @ duration_string (sin_Period sp) @ '', offset '' @
    fmt_g (f_div (sin_StartAt sp) (f_const math_pi)) @ [CHR 0xF0, CHR 0x9D, CHR 0x9B, CHR 0x91] @ ''}''"

section \<open>Properties of SinePacer\<close>


definition demo_sine :: sine_pacer where
  "demo_sine = \<lparr>sin_Period = 60, sin_Mean = \<lparr>Freq = 4, Per = 1\<rparr>, sin_Amp = \<lparr>Freq = 2, Per = 1\<rparr>, sin_StartAt = Fin 0\<rparr>"


section \<open>Properties of LinearPacer\<close>

lemma rnd_p2: "- 1074 \<le> k \<Longrightarrow> rnd (p2 k) = p2 k"
  using rnd_exact [of 1 k] by simp

lemma f_const_int: "\<bar>n\<bar> \<le> 2 ^ 53 \<Longrightarrow> f_const (of_int n) = Fin (of_int n)"
  by (simp add: f_const_def rnd_of_int)

lemma f_consts [simp]: "f_const 1000000000 = Fin 1000000000" "f_const 2 = Fin 2" "f_const 1 = Fin 1"
  using f_const_int [of 1000000000] f_const_int [of 2] f_const_int [of 1] by simp_all

text \<open>The start rate in hits per second is a finite, nonnegative float.\<close>

definition rate_of :: "constant_pacer \<Rightarrow> float64" where
  "rate_of cp = f_mul (constant_hits_per_ns cp) (f_const 1000000000)"

lemma f_round_le_p2: "0 \<le> x \<Longrightarrow> x \<le> p2 k \<Longrightarrow> - 1074 \<le> k \<Longrightarrow> k < 1024 \<Longrightarrow>
  f_round x = Fin (rnd x) \<and> 0 \<le> rnd x \<and> rnd x \<le> p2 k"
proof -
  assume x: "0 \<le> x" "x \<le> p2 k" "- 1074 \<le> k" "k < 1024"
  have r: "0 \<le> rnd x" "rnd x \<le> p2 k" using rnd_nonneg [OF x(1)] rnd_mono [OF x(2)] rnd_p2 [OF x(3)] by simp_all
  have "p2 k < p2 1024" using x(4) by (rule p2_strict_mono)
  then have "\<bar>rnd x\<bar> < 2 ^ 1024" using r by (simp only: p2_numeral abs_of_nonneg)
  then show ?thesis using r by (simp add: f_round_small)
qed

lemma rate_of_Fin: "valid_rate cp \<Longrightarrow> \<exists>b. rate_of cp = Fin b \<and> 0 \<le> b \<and> b \<le> p2 93"
proof -
  assume v: "valid_rate cp"
  have F: "0 \<le> sint (Freq cp)" "sint (Freq cp) \<le> 2 ^ 63" and P: "1 \<le> sint (Per cp)" "sint (Per cp) \<le> 2 ^ 63"
    using v i64_sint_upper [of "Freq cp"] i64_sint_upper [of "Per cp"] by (simp_all add: valid_rate_def)
  have "(of_int (sint (Freq cp)) :: rat) \<le> of_int (2 ^ 63)" "(of_int 1 :: rat) \<le> of_int (sint (Per cp))"
    "(of_int (sint (Per cp)) :: rat) \<le> of_int (2 ^ 63)"
    using F P by (simp_all only: of_int_le_iff)
  then have b: "(of_int (sint (Freq cp)) :: rat) \<le> p2 63" "(of_int (sint (Per cp)) :: rat) \<le> p2 63"
    "(1 :: rat) \<le> of_int (sint (Per cp))" by simp_all
  have F0: "(0 :: rat) \<le> of_int (sint (Freq cp))" and P0: "(0 :: rat) \<le> of_int (sint (Per cp))"
    using F(1) P(1) by (simp_all only: of_int_0_le_iff)
  define f where "f = rnd (of_int (sint (Freq cp)))"
  define p where "p = rnd (of_int (sint (Per cp)))"
  have f: "f_of_int (sint (Freq cp)) = Fin f" "0 \<le> f" "f \<le> p2 63"
    using f_round_le_p2 [OF F0 b(1)] by (simp_all add: f_of_int_def f_def)
  have p: "f_of_int (sint (Per cp)) = Fin p" using f_round_le_p2 [OF P0 b(2)] by (simp add: f_of_int_def p_def)
  have p1: "1 \<le> p" using rnd_mono [OF b(3)] rnd_of_int [of 1] by (simp add: p_def)
  have q: "0 \<le> f / p" "f / p \<le> p2 63"
  proof -
    have "f / p \<le> f / 1" using f p1 by (intro divide_left_mono) simp_all
    then show "f / p \<le> p2 63" using f by simp
  qed (use f p1 in simp)
  note h = f_round_le_p2 [OF q]
  have "rnd (f / p) * 1000000000 \<le> p2 63 * p2 30" using h by (intro mult_mono) simp_all
  also have "\<dots> = p2 93" by (simp flip: p2_add)
  finally have "rnd (f / p) * 1000000000 \<le> p2 93" .
  from f_round_le_p2 [OF _ this] h
  have "f_round (rnd (f / p) * 1000000000) = Fin (rnd (rnd (f / p) * 1000000000))"
    "0 \<le> rnd (rnd (f / p) * 1000000000)" "rnd (rnd (f / p) * 1000000000) \<le> p2 93" by simp_all
  moreover have "rate_of cp = f_round (rnd (f / p) * 1000000000)"
    using h p1 by (simp add: rate_of_def constant_hits_per_ns_def f p f_div_def f_mul_def)
  ultimately show ?thesis by auto
qed

text \<open>Monotonicity of the operations on nonnegative values.\<close>

definition f_nonneg :: "float64 \<Rightarrow> bool" where
  "f_nonneg a \<longleftrightarrow> f_le (Fin 0) a"

lemma f_nonneg_cases: "f_nonneg a \<longleftrightarrow> a = PInf \<or> (\<exists>x. a = Fin x \<and> 0 \<le> x)"
  by (cases a) (auto simp: f_nonneg_def f_le_def f_eq_def)

lemma f_round_nonneg': "0 \<le> x \<Longrightarrow> f_nonneg (f_round x)"
  using f_round_mono [of 0 x] by (simp add: f_nonneg_def f_round_def Let_def)

lemma f_le_Fin [simp]: "f_le (Fin x) (Fin y) \<longleftrightarrow> x \<le> y"
  by (auto simp: f_le_def f_eq_def)

lemma f_le_PInf [simp]: "f_le a PInf \<longleftrightarrow> a \<noteq> NaN" "f_le PInf (Fin x) \<longleftrightarrow> False"
  by (cases a) (simp_all add: f_le_def f_eq_def)

lemma f_half_mono:
  assumes "f_nonneg a" and "f_le a b"
  shows "f_nonneg (f_div a (Fin 2)) \<and> f_le (f_div a (Fin 2)) (f_div b (Fin 2))"
proof (cases "a = PInf")
  case True
  then have "b = PInf" using assms(2) by (cases b) (auto simp: f_le_def f_eq_def)
  then show ?thesis using True by (simp add: f_div_def f_nonneg_def f_inf_def)
next
  case False
  then obtain x where x: "a = Fin x" "0 \<le> x" using assms(1) by (auto simp: f_nonneg_cases)
  then show ?thesis
    using assms(2) f_round_mono [of "x / 2"] f_round_nonneg' [of "x / 2"]
    by (cases b) (auto simp: f_div_def f_inf_def divide_right_mono, auto simp: f_le_def f_eq_def)
qed

lemma f_nonneg_add: "f_nonneg a \<Longrightarrow> f_nonneg c \<Longrightarrow> f_nonneg (f_add a c)"
  unfolding f_nonneg_cases [of a] f_nonneg_cases [of c]
  by (elim disjE exE conjE) (simp_all add: f_round_nonneg', simp_all add: f_nonneg_def)

lemma f_nonneg_not_NaN: "f_nonneg a \<Longrightarrow> a \<noteq> NaN"
  by (auto simp: f_nonneg_def f_le_def f_eq_def)

lemma f_add_mono:
  assumes "f_nonneg a" and "f_le a b" and "f_nonneg c" and "f_le c d"
  shows "f_nonneg (f_add a c) \<and> f_le (f_add a c) (f_add b d)"
proof
  show n: "f_nonneg (f_add a c)" using assms by (intro f_nonneg_add)
  have bd: "f_nonneg b" "f_nonneg d"
    using assms by (cases a; cases b; cases c; cases d; auto simp: f_nonneg_def f_le_def f_eq_def)+
  show "f_le (f_add a c) (f_add b d)"
  proof (cases "b = PInf \<or> d = PInf")
    case True
    then have "f_add b d = PInf" using bd by (auto simp: f_nonneg_cases)
    then show ?thesis using f_nonneg_not_NaN [OF n] by simp
  next
    case False
    then obtain y w where "b = Fin y" "d = Fin w" using bd by (auto simp: f_nonneg_cases)
    moreover obtain x z where "a = Fin x" "c = Fin z"
      using assms calculation by (cases a; cases c) (auto simp: f_nonneg_cases f_le_def f_eq_def)
    ultimately show ?thesis using assms f_round_mono [of "x + z" "y + w"] by simp
  qed
qed

lemma f_mul_round_mono:
  "0 \<le> a \<Longrightarrow> 0 \<le> x \<Longrightarrow> x \<le> y \<Longrightarrow>
    f_nonneg (f_mul (Fin a) (Fin x)) \<and> f_le (f_mul (Fin a) (Fin x)) (f_mul (Fin a) (Fin y))"
  using f_round_mono [of "a * x" "a * y"] f_round_nonneg' [of "a * x"] by (simp add: f_mul_def mult_left_mono)

lemma f_square_seconds:
  assumes "0 \<le> x" and "x \<le> 2 ^ 53"
  shows "f_square (Fin x) = Fin (rnd (x * x)) \<and> 0 \<le> rnd (x * x)"
proof -
  have "x * x \<le> 2 ^ 53 * 2 ^ 53" using assms by (intro mult_mono) simp_all
  also have "\<dots> = p2 106" by simp
  finally have "x * x \<le> p2 106" .
  from f_round_le_p2 [OF _ this] assms show ?thesis by (simp add: f_square_def f_mul_def)
qed

lemma linear_monotone:
  assumes "valid_rate (lin_StartAt p)" and "lin_Slope p = Fin a" and "0 \<le> a" and "0 \<le> sint t" and "sint t \<le> sint t'"
  shows "f_nonneg (linear_hits p t) \<and> f_le (linear_hits p t) (linear_hits p t')"
    and "f_nonneg (linear_rate p t) \<and> f_le (linear_rate p t) (linear_rate p t')"
proof -
  obtain b where b: "rate_of (lin_StartAt p) = Fin b" "0 \<le> b" using rate_of_Fin [OF assms(1)] by blast
  let ?x = "seconds (sint t)" and ?y = "seconds (sint t')"
  have t': "0 \<le> sint t'" using assms(4,5) by simp
  have x: "duration_seconds t = Fin ?x" "0 \<le> ?x" "?x \<le> 2 ^ 53" and y: "duration_seconds t' = Fin ?y" "0 \<le> ?y" "?y \<le> 2 ^ 53"
    using duration_seconds_nonneg assms(4) t' seconds_bounds [OF assms(4) i64_sint_upper] seconds_bounds [OF t' i64_sint_upper]
    by simp_all
  have xy: "?x \<le> ?y" using assms(5) by (rule seconds_mono)
  have sq: "f_square (Fin ?x) = Fin (rnd (?x * ?x))" "0 \<le> rnd (?x * ?x)" "f_square (Fin ?y) = Fin (rnd (?y * ?y))"
    using f_square_seconds [OF x(2,3)] f_square_seconds [OF y(2,3)] by simp_all
  have "rnd (?x * ?x) \<le> rnd (?y * ?y)" using x(2) xy by (intro rnd_mono mult_mono) simp_all
  from f_mul_round_mono [OF assms(3) sq(2) this]
  have ax: "f_nonneg (f_mul (Fin a) (f_square (Fin ?x)))"
    "f_le (f_mul (Fin a) (f_square (Fin ?x))) (f_mul (Fin a) (f_square (Fin ?y)))" by (simp_all add: sq)
  note bx = f_mul_round_mono [OF b(2) x(2) xy]
  have hits: "linear_hits p u = f_add (f_div (f_mul (Fin a) (f_square (duration_seconds u))) (Fin 2)) (f_mul (Fin b) (duration_seconds u))"
    if "0 \<le> sint u" for u
    using that b(1) by (simp add: linear_hits_def assms(2) word_sless_alt rate_of_def Let_def)
  show "f_nonneg (linear_hits p t) \<and> f_le (linear_hits p t) (linear_hits p t')"
    unfolding hits [OF assms(4)] hits [OF t'] x(1) y(1)
    using f_half_mono [OF ax] bx by (intro f_add_mono) simp_all
  have rate: "linear_rate p u = f_add (f_mul (Fin a) (duration_seconds u)) (Fin b)" for u
    using b(1) by (simp add: linear_rate_def assms(2) rate_of_def)
  show "f_nonneg (linear_rate p t) \<and> f_le (linear_rate p t) (linear_rate p t')"
    unfolding rate x(1) y(1)
    using f_mul_round_mono [OF assms(3) x(2) xy] b(2) by (intro f_add_mono) (simp_all add: f_nonneg_def)
qed

lemma unat_f_to_u64: "0 \<le> x \<Longrightarrow> x < 2 ^ 63 \<Longrightarrow> unat (f_to_u64 (Fin x)) = nat \<lfloor>x\<rfloor>"
proof -
  assume x: "0 \<le> x" "x < 2 ^ 63"
  have "x < of_int (2 ^ 63)" using x(2) by simp
  then have f: "0 \<le> \<lfloor>x\<rfloor>" "\<lfloor>x\<rfloor> < 2 ^ 63" using x(1) by (simp_all only: floor_less_iff zero_le_floor)
  then have "sint (word_of_int \<lfloor>x\<rfloor> :: i64) = \<lfloor>x\<rfloor>" by (intro sint_word_of_int_i64) simp_all
  then have "unat (word_of_int \<lfloor>x\<rfloor> :: i64) = nat \<lfloor>x\<rfloor>" using f(1) unat_eq_sint_i64 nat_int by metis
  moreover have "f_to_u64 (Fin x) = word_of_int \<lfloor>x\<rfloor>"
    using x f by (simp add: f_to_u64_def f_to_i64_def trunc_def Let_def)
  ultimately show ?thesis by simp
qed


definition demo_linear :: linear_pacer where
  "demo_linear = \<lparr>lin_StartAt = \<lparr>Freq = 5, Per = 1\<rparr>, lin_Slope = Fin 2\<rparr>"

lemma f_round_int: "\<bar>n\<bar> \<le> 2 ^ 53 \<Longrightarrow> f_round (of_int n) = Fin (of_int n)"
  using f_of_int_exact [of n] by (simp add: f_of_int_def)


end
