(* ===== verification/Dialing.thy ===== *)
theory Dialing
  imports Attacker Flags
begin

text \<open>
  The dial functions the options of \<open>lib/attack.go\<close> build, run: the plain dialer, the unix socket,
  \<open>ConnectTo\<close>'s round robin over another dialer, and \<open>DNSCaching\<close>'s race between one address of
  each IP family, with its refresh goroutine.

  Parameters: the network (\<open>net.Dialer\<close>), the caching resolver's lookup, \<open>net.ParseIP\<close> (the family
  of an address), the shuffle, and the race, which gives the results of the dials in the order in
  which they arrive at the channel.
\<close>

type_synonym 'c dialed = "'c option \<times> string option"

record 'c network =
  d_net :: "string \<Rightarrow> 'c dialed"
  d_unix :: "string \<Rightarrow> 'c dialed"
  d_lookup :: "string \<Rightarrow> string + string list"
  d_family :: "string \<Rightarrow> bool option"
  d_shuffle :: "string list \<Rightarrow> string list"
  d_race :: "'c dialed list \<Rightarrow> 'c dialed list"

text \<open>\<open>net.JoinHostPort\<close>.\<close>

definition join_host_port :: "string \<Rightarrow> string \<Rightarrow> string" where
  "join_host_port host port =
    (if CHR '':'' \<in> set host then CHR ''['' # host @ '']:'' @ port else host @ CHR '':'' # port)"

section \<open>DNSCaching\<close>

text \<open>The loop that receives as many results as dials were started; the connection and the error
  are variables that start as nil.\<close>

fun receive_dials :: "'c dialed \<Rightarrow> 'c dialed list \<Rightarrow> 'c dialed" where
  "receive_dials (conn, err) [] = (conn, err)"
| "receive_dials (conn, err) (r # rs) = receive_dials (if conn = None then r else (conn, err)) rs"

text \<open>The dials are started in the order of the addresses, each on the state the last one left.\<close>

fun dial_each :: "('s \<Rightarrow> string \<Rightarrow> ('s \<times> 'c dialed) go) \<Rightarrow> 's \<Rightarrow> string list \<Rightarrow> ('s \<times> 'c dialed list) go" where
  "dial_each dial st [] = Inr (st, [])"
| "dial_each dial st (a # as) =
    go_bind (dial st a) (\<lambda>(st', r). go_bind (dial_each dial st' as) (\<lambda>(st'', rs). Inr (st'', r # rs)))"

definition caching_dial :: "'c network \<Rightarrow> ('s \<Rightarrow> string \<Rightarrow> ('s \<times> 'c dialed) go) \<Rightarrow> 's \<Rightarrow> string \<Rightarrow> ('s \<times> 'c dialed) go" where
  "caching_dial net dial st addr =
    (case split_host_port addr of
       None \<Rightarrow> Inr (st, (None, Some (''address '' @ addr)))
     | Some (host, port) \<Rightarrow>
         (case d_lookup net host of
            Inl e \<Rightarrow> Inr (st, (None, Some e))
          | Inr ips \<Rightarrow>
              if ips = [] then Inr (st, (None, Some (''lookup '' @ addr @ '': no such host'')))
              else
                let ips = first_of_each_ip_family (d_family net) (d_shuffle net ips) in
                go_bind (dial_each dial st (map (\<lambda>ip. join_host_port ip port) ips)) (\<lambda>(st', rs).
                  Inr (st', receive_dials (None, None) (d_race net rs)))))"

text \<open>The goroutine that refreshes the cache: its ticker fires, or the attack stops.\<close>

datatype refresh_event = RefreshDue | AttackStopped

fun refresh_loop :: "('r \<Rightarrow> 'r) \<Rightarrow> refresh_event list \<Rightarrow> 'r \<Rightarrow> 'r option" where
  "refresh_loop refresh [] r = None"
| "refresh_loop refresh (RefreshDue # es) r = refresh_loop refresh es (refresh r)"
| "refresh_loop refresh (AttackStopped # es) r = Some r"

section \<open>Running a dialer\<close>

text \<open>The state is the round robins of its \<open>ConnectTo\<close>.\<close>

primrec dial_with :: "dialer \<Rightarrow> 'c network \<Rightarrow> round_robins \<Rightarrow> string \<Rightarrow> (round_robins \<times> 'c dialed) go" where
  "dial_with NetDialer net st addr = Inr (st, d_net net addr)"
| "dial_with (UnixDialer sock) net st addr = Inr (st, d_unix net sock)"
| "dial_with (ConnectToDialer m d) net st addr = go_bind (connect_to st addr) (\<lambda>(st', a). dial_with d net st' a)"
| "dial_with (CachingDialer ttl d) net st addr = caching_dial net (dial_with d net) st addr"

section \<open>Properties\<close>

lemma dial_each_stateless: "dial_each (\<lambda>st a. Inr (st, d a)) st as = Inr (st, map d as)"
  by (induction as arbitrary: st) simp_all

text \<open>What a dial gives: a connection or an error.\<close>

definition has_conn :: "'c dialed \<Rightarrow> bool" where
  "has_conn r \<longleftrightarrow> fst r \<noteq> None"

definition dial_outcome :: "'c dialed \<Rightarrow> bool" where
  "dial_outcome r \<longleftrightarrow> has_conn r = (snd r = None)"

text \<open>The dial that wins: the first to arrive with a connection, else the last to arrive.\<close>

definition winner :: "'c dialed list \<Rightarrow> 'c dialed" where
  "winner rs = (case find has_conn rs of Some r \<Rightarrow> r | None \<Rightarrow> if rs = [] then (None, None) else last rs)"

lemma receive_dials_some: "receive_dials (Some c, err) rs = (Some c, err)"
  by (induction rs) simp_all

lemma receive_dials_none:
  "receive_dials (None, err) rs =
    (case find has_conn rs of Some r \<Rightarrow> r | None \<Rightarrow> if rs = [] then (None, err) else last rs)"
proof (induction rs arbitrary: err)
  case (Cons r rs)
  obtain c e where r: "r = (c, e)" by force
  show ?case
  proof (cases c)
    case None
    then have "\<not> has_conn r" using r by (simp add: has_conn_def)
    then show ?thesis using Cons [of e] r None by (cases "find has_conn rs") simp_all
  next
    case (Some x)
    then show ?thesis using r by (simp add: receive_dials_some has_conn_def)
  qed
qed simp

lemma receive_dials_winner: "receive_dials (None, None) rs = winner rs"
  by (simp add: receive_dials_none winner_def)

lemma winner_has_conn: "has_conn (winner rs) \<longleftrightarrow> (\<exists>r \<in> set rs. has_conn r)"
proof (cases "find has_conn rs")
  case None
  then have "\<forall>r \<in> set rs. \<not> has_conn r" by (auto simp: find_None_iff)
  then show ?thesis using None by (auto simp: winner_def has_conn_def)
next
  case (Some r)
  then have "has_conn r" "r \<in> set rs" by (auto simp: find_Some_iff)
  then show ?thesis using Some by (auto simp: winner_def)
qed

lemma winner_in: "rs \<noteq> [] \<Longrightarrow> winner rs \<in> set rs"
  by (auto simp: winner_def find_Some_iff split: option.splits)

lemma one_per_family_length: "length (one_per_family family ips) \<le> 2"
  by (induction ips) (auto split: option.splits)

lemma in_place: "first_of_each_ip_family family ips = one_per_family family ips"
  using each_family_loop_0 [of 0 ips family False] by (simp add: first_of_each_ip_family_def)

text \<open>
  C30. A dial through the DNS cache. It dials at most two of the host's addresses, the first one of
  each IP family after the shuffle, whatever the in-place filter has overwritten, and returns the
  connection of the first dial that arrives with one, else the error of the last. When no address
  parses (one with an IPv6 zone does not), and only then, it dials none and returns neither a connection nor an
  error.
\<close>

theorem caching_dial_outcome:
  fixes net :: "'c network"
  assumes "split_host_port addr = Some (host, port)" and "d_lookup net host = Inr ips" and "ips \<noteq> []"
    and "\<And>rs. mset (d_race net rs) = mset rs" and "\<And>a. dial_outcome (d a)"
  defines "dialed \<equiv> map (\<lambda>ip. join_host_port ip port) (one_per_family (d_family net) (d_shuffle net ips))"
  defines "r \<equiv> winner (d_race net (map d dialed))"
  shows "caching_dial net (\<lambda>st a. Inr (st, d a)) st addr = Inr (st, r) \<and> length dialed \<le> 2 \<and>
    (has_conn r \<longleftrightarrow> (\<exists>a \<in> set dialed. has_conn (d a))) \<and> (r = (None, None) \<longleftrightarrow> dialed = [])"
proof -
  let ?rs = "d_race net (map d dialed)"
  have set: "set ?rs = d ` set dialed" using assms(4) [of "map d dialed"] by (metis list.set_map set_mset_mset)
  then have empty: "?rs = [] \<longleftrightarrow> dialed = []" by auto
  have "caching_dial net (\<lambda>st a. Inr (st, d a)) st addr = Inr (st, r)"
    using assms(1-3) by (simp add: caching_dial_def in_place dial_each_stateless dialed_def r_def receive_dials_winner Let_def)
  moreover have "length dialed \<le> 2" by (simp add: dialed_def one_per_family_length)
  moreover have "has_conn r \<longleftrightarrow> (\<exists>a \<in> set dialed. has_conn (d a))" by (simp add: r_def winner_has_conn set)
  moreover have "r = (None, None) \<longleftrightarrow> dialed = []"
  proof
    assume r: "r = (None, None)"
    show "dialed = []"
    proof (rule ccontr)
      assume "dialed \<noteq> []"
      then have "r \<in> set ?rs" using winner_in empty by (simp add: r_def)
      then obtain a where "r = d a" using set by auto
      then have "fst (d a) = None" "snd (d a) = None" using r by (metis fst_conv, metis snd_conv)
      then show False using assms(5) [of a] by (simp add: dial_outcome_def has_conn_def)
    qed
  next
    assume "dialed = []"
    then show "r = (None, None)" using empty by (simp add: r_def winner_def)
  qed
  ultimately show ?thesis by blast
qed

definition demo_network :: "(string \<Rightarrow> bool option) \<Rightarrow> string list \<Rightarrow> string network" where
  "demo_network family ips = \<lparr>d_net = (\<lambda>a. (Some a, None)), d_unix = (\<lambda>a. (Some a, None)),
    d_lookup = (\<lambda>h. Inr ips), d_family = family, d_shuffle = (\<lambda>xs. xs), d_race = rev\<rparr>"

theorem caching_dial_outcome_witness:
  "caching_dial (demo_network (\<lambda>ip. None) [''fe80::1%eth0'']) (\<lambda>st a. Inr (st, (Some a, None))) () ''localhost:80'' =
    Inr ((), (None, None))"
proof -
  let ?net = "demo_network (\<lambda>ip. None) [''fe80::1%eth0'']" and ?d = "\<lambda>a :: string. (Some a, None :: string option)"
  have "split_host_port ''localhost:80'' = Some (''localhost'', ''80'')" by code_simp
  moreover have "d_lookup ?net ''localhost'' = Inr [''fe80::1%eth0'']" "mset (d_race ?net rs) = mset rs"
    "dial_outcome (?d a)" for rs a by (simp_all add: demo_network_def dial_outcome_def has_conn_def)
  ultimately show ?thesis
    using caching_dial_outcome [where net = ?net and addr = "''localhost:80''" and d = ?d and st = "()"]
    by (auto simp: demo_network_def winner_def)
qed

end
