(* ===== verification/Fuzzing.thy ===== *)
theory Fuzzing
  imports Dialing Byte_Scanner Results
begin

text \<open>
  The go-fuzz entry points (\<open>lib/util_fuzz.go\<close>, \<open>lib/targets_fuzz.go\<close>, \<open>lib/results_fuzz.go\<close>
  and what \<open>lib/attack_fuzz.go\<close> decodes and builds): decoding fuzz bytes into headers, bodies and
  responses, and running the targeters and the decoders of results on what is left.

  Bytes are characters; a nil slice is the empty one. The named results of a Go function are
  a tuple whose last component is \<open>ok\<close>. The map of headers is written through its pointer, so
  it comes back even where \<open>ok\<close> is false.

  Parameters: \<open>parse_uri\<close>, \<open>read_file\<close> and \<open>decode\<close> of theory \<open>Targets\<close>; the gob decoder and
  the JSON decoding of a result, with the bytes a first try of each decoder reads.
\<close>

section \<open>Decoding fuzz\<close>

abbreviation byte :: "char \<Rightarrow> nat" where
  "byte c \<equiv> of_char c"

abbreviation terminator :: char where
  "terminator \<equiv> CHR 0x00"

definition extract_fuzz_string :: "string \<Rightarrow> string \<times> string \<times> bool" where
  "extract_fuzz_string fuzz =
    (if length fuzz < 2 then ([], [], False)
     else
       let len = byte (hd fuzz) in
       if len = 0 then ([], [], False)
       else if length fuzz < len + 1 then ([], [], False)
       else (take len (drop 1 fuzz), if length fuzz = len + 1 then [] else drop (len + 1) fuzz, True))"

definition extract_fuzz_byte_string :: "string \<Rightarrow> string \<times> string \<times> bool" where
  "extract_fuzz_byte_string fuzz =
    (if length fuzz < 2 then ([], [], False)
     else
       let len = byte (hd fuzz) in
       if len = 0 then ([], [], False)
       else if length fuzz < len + 1 then ([], [], False)
       else (take len (drop 1 fuzz), if length fuzz = len + 1 then [] else drop (len + 1) fuzz, True))"

definition decode_fuzz_header :: "string \<Rightarrow> header \<Rightarrow> header \<times> string \<times> bool" where
  "decode_fuzz_header fuzz headers =
    (if fuzz = [] then (headers, [], True)
     else
       (case extract_fuzz_string fuzz of
          (_, rest, False) \<Rightarrow> (headers, rest, False)
        | (name, rest, True) \<Rightarrow>
           (case extract_fuzz_string rest of
              (_, rest, False) \<Rightarrow> (headers, rest, False)
            | (val, rest, True) \<Rightarrow>
                (case map_of headers name of
                   Some header \<Rightarrow> AList.update name (header @ [val]) headers
                 | None \<Rightarrow> AList.update name [val] headers, rest, True))))"

lemma extract_fuzz_string_shorter:
  "extract_fuzz_string fuzz = (v, rest, ok) \<Longrightarrow> length rest \<le> length fuzz"
  by (auto simp: extract_fuzz_string_def Let_def split: if_splits)

lemma decode_fuzz_header_shorter:
  "decode_fuzz_header fuzz h = (h', rest, ok) \<Longrightarrow> length rest \<le> length fuzz"
  by (auto simp: decode_fuzz_header_def split: if_splits prod.splits bool.splits
      dest!: extract_fuzz_string_shorter)

lemma decode_headers_progress:
  "rest \<noteq> [] \<Longrightarrow> decode_fuzz_header (drop (Suc 0) rest) h = (h', rest', ok) \<Longrightarrow> length rest' < length rest"
  by (cases rest) (auto dest: decode_fuzz_header_shorter)

text \<open>The loop: \<open>fuzz\<close> is the whole input and stays what it was; the tests for the end of the headers
  and for a single byte look at it, and not at \<open>rest\<close>.\<close>

function decode_headers_loop :: "string \<Rightarrow> header \<Rightarrow> string \<Rightarrow> bool \<Rightarrow> (header \<times> string \<times> bool) go" where
  "decode_headers_loop fuzz headers rest ok =
    (if rest = [] then Inr (headers, rest, True)
     else case fuzz of
       [] \<Rightarrow> Inl IndexOutOfRange
     | c # _ \<Rightarrow>
        if c = terminator then Inr (headers, if length rest = 1 then [] else drop 1 rest, True)
        else if length fuzz = 1 then Inr (headers, rest, ok)
        else (case decode_fuzz_header (drop 1 rest) headers of
            (headers', rest', ok') \<Rightarrow>
              if \<not> ok' then Inr (headers', rest', ok') else decode_headers_loop fuzz headers' rest' ok'))"
  by pat_completeness auto
termination
  by (relation "measure (\<lambda>(fuzz, h, rest, ok). length rest)") (auto split: prod.split dest: decode_headers_progress)

declare decode_headers_loop.simps [simp del]

definition decode_fuzz_headers :: "string \<Rightarrow> header \<Rightarrow> (header \<times> string \<times> bool) go" where
  "decode_fuzz_headers fuzz headers = decode_headers_loop fuzz headers fuzz False"

text \<open>The response: the code, the headers (nil when there is no code), the body.\<close>

definition decode_fuzz_response :: "string \<Rightarrow> (i64 \<times> header option \<times> string \<times> bool) go" where
  "decode_fuzz_response fuzz =
    (if length fuzz < 2 then Inr (0, None, [], False)
     else
       let code = word_of_nat (byte (fuzz ! 0) + 256 * byte (fuzz ! 1)) in
       if length fuzz = 2 then Inr (code, Some [], [], True)
       else go_bind (decode_fuzz_headers (drop 2 fuzz) []) (\<lambda>(headers, rest, ok).
         if \<not> ok then Inr (code, Some headers, [], False) else Inr (code, Some headers, rest, True)))"

definition decode_fuzz_target_defaults :: "string \<Rightarrow> (header option \<times> string \<times> string \<times> bool) go" where
  "decode_fuzz_target_defaults fuzz =
    (if length fuzz < 2 then Inr (None, [], [], False)
     else go_bind (decode_fuzz_headers fuzz []) (\<lambda>(headers, rest, ok).
       if \<not> ok then Inr (Some headers, [], rest, False)
       else if rest = [] then Inr (Some headers, [], rest, True)
       else (case extract_fuzz_byte_string rest of
         (body, rest', ok') \<Rightarrow> Inr (Some headers, body, rest', ok'))))"

section \<open>The entry points\<close>

text \<open>The number go-fuzz is given: \<open>-1\<close> for fuzz that does not decode, else whether the input was
  read without an error.\<close>

definition fuzz_verdict :: "bool \<Rightarrow> int" where
  "fuzz_verdict ok = (if ok then 1 else 0)"

definition fuzz_targets :: "(string \<Rightarrow> header \<Rightarrow> string \<Rightarrow> (target_error + target list) option) \<Rightarrow> string \<Rightarrow> int go option" where
  "fuzz_targets read_targets fuzz =
    (case decode_fuzz_target_defaults fuzz of
       Inl p \<Rightarrow> Some (Inl p)
     | Inr (headers, body, rest, ok) \<Rightarrow>
         if \<not> ok then Some (Inr (- 1))
         else map_option (\<lambda>r. Inr (fuzz_verdict (\<not> isl r)))
           (read_targets body (case headers of None \<Rightarrow> [] | Some h \<Rightarrow> h) rest))"

definition fuzz_http_targeter ::
    "(string \<Rightarrow> string option) \<Rightarrow> (string \<Rightarrow> string + string) \<Rightarrow> string \<Rightarrow> int go option" where
  "fuzz_http_targeter parse_uri read_file =
    fuzz_targets (\<lambda>body headers bytes.
      read_all_targets (http_targeter parse_uri read_file body headers (Some zero_target)) (byte_scanner bytes None))"

definition fuzz_json_targeter :: "(string \<Rightarrow> string + target) \<Rightarrow> string \<Rightarrow> int go option" where
  "fuzz_json_targeter decode =
    fuzz_targets (\<lambda>body headers bytes.
      read_all_targets (json_targeter decode None body headers (Some zero_target)) bytes)"

text \<open>\<open>readAllResults\<close>: \<open>None\<close> while it does not return.\<close>

partial_function (option) read_all_results :: "'s decoder \<Rightarrow> 's \<Rightarrow> bool option" where
  "read_all_results dec s =
    (case dec s zero_result of
       (s', r, None) \<Rightarrow> read_all_results dec s'
     | (s', r, Some e) \<Rightarrow> Some (e = EOF))"

definition fuzz_decoder :: "'s decoder \<Rightarrow> 's \<Rightarrow> int option" where
  "fuzz_decoder dec s = map_option fuzz_verdict (read_all_results dec s)"

definition fuzz_gob_decoder :: "'g decoder \<Rightarrow> (string \<Rightarrow> 'g) \<Rightarrow> string \<Rightarrow> int option" where
  "fuzz_gob_decoder gob new_gob fuzz = fuzz_decoder gob (new_gob fuzz)"

definition fuzz_csv_decoder :: "string \<Rightarrow> int option" where
  "fuzz_csv_decoder fuzz = fuzz_decoder csv_decoder fuzz"

definition fuzz_json_decoder :: "(string \<Rightarrow> result \<Rightarrow> result \<times> string option) \<Rightarrow> string \<Rightarrow> int option" where
  "fuzz_json_decoder parse fuzz = fuzz_decoder (json_decoder parse) fuzz"

text \<open>A try of \<open>DecoderFor\<close> with a decoder; \<open>reads\<close> is how many bytes it takes from its reader.\<close>

definition decodes_first :: "'s decoder \<Rightarrow> 's \<Rightarrow> bool" where
  "decodes_first dec s \<longleftrightarrow> snd (snd (dec s zero_result)) = None"

definition fuzz_results_format_detection ::
    "'g decoder \<Rightarrow> (string \<Rightarrow> 'g) \<Rightarrow> (string \<Rightarrow> result \<Rightarrow> result \<times> string option) \<Rightarrow> (nat \<Rightarrow> string \<Rightarrow> nat) \<Rightarrow>
     string \<Rightarrow> int option" where
  "fuzz_results_format_detection gob new_gob parse reads fuzz =
    (case decoder_for
        [\<lambda>s. (decodes_first gob (new_gob s), reads 0 s),
         \<lambda>s. (decodes_first (json_decoder parse) s, reads 1 s),
         \<lambda>s. (decodes_first csv_decoder s, reads 2 s)] [] fuzz 0 of
       None \<Rightarrow> Some 0
     | Some (i, input) \<Rightarrow>
         map_option fuzz_verdict
           (if i = 0 then read_all_results gob (new_gob input)
            else if i = 1 then read_all_results (json_decoder parse) input
            else read_all_results csv_decoder input))"

text \<open>The attacker of the two entry points of \<open>lib/attack_fuzz.go\<close>. What they do with it cannot be
  modelled: they pass \<open>hit\<close> the name of the attack where it takes a \<open>*attack\<close>, which does not
  compile.\<close>

definition fuzz_attacker :: "string \<Rightarrow> attacker go" where
  "fuzz_attacker socket =
    new_attacker [UnixSocket socket, Workers 1, MaxWorkers 1, Timeout 1000000000, KeepAlive False]"

section \<open>What decoding does\<close>

lemma decode_fuzz_headers_terminator: "decode_fuzz_headers (terminator # rest) h = Inr (h, rest, True)"
  by (cases rest) (simp_all add: decode_fuzz_headers_def decode_headers_loop.simps)

lemma decode_headers_loop_consumes:
  assumes "c \<noteq> terminator" and "cs = [] \<longrightarrow> \<not> ok"
  shows "\<exists>h' rest' ok'. decode_headers_loop (c # cs) h rest ok = Inr (h', rest', ok') \<and> (ok' \<longrightarrow> rest' = [])"
  using assms(2)
proof (induction "length rest" arbitrary: h rest ok rule: less_induct)
  case less
  show ?case
  proof (cases "rest = [] \<or> cs = []")
    case True
    then show ?thesis using less.prems assms(1) by (subst decode_headers_loop.simps) auto
  next
    case False
    obtain h' rest' ok' where d: "decode_fuzz_header (drop 1 rest) h = (h', rest', ok')"
      by (cases "decode_fuzz_header (drop 1 rest) h")
    have step: "decode_headers_loop (c # cs) h rest ok =
        (if \<not> ok' then Inr (h', rest', ok') else decode_headers_loop (c # cs) h' rest' ok')"
      using False assms(1) d by (subst decode_headers_loop.simps) simp
    show ?thesis
    proof (cases ok')
      case True
      have "length rest' < length rest" using decode_headers_progress False d by simp
      from less.hyps [OF this, of ok' h'] False show ?thesis using step True by simp
    next
      case False
      then have "decode_headers_loop (c # cs) h rest ok = Inr (h', rest', False)" using step by simp
      then show ?thesis by blast
    qed
  qed
qed

lemma decode_fuzz_headers_consumes:
  assumes "fuzz \<noteq> []" and "hd fuzz \<noteq> terminator"
  shows "\<exists>h' rest' ok'. decode_fuzz_headers fuzz h = Inr (h', rest', ok') \<and> (ok' \<longrightarrow> rest' = [])"
  using decode_headers_loop_consumes [of "hd fuzz" "tl fuzz" False h fuzz] assms
  by (cases fuzz) (simp_all add: decode_fuzz_headers_def)

lemma decode_fuzz_headers_cases:
  obtains headers rest ok where "decode_fuzz_headers fuzz [] = Inr (headers, rest, ok)"
    and "ok \<longrightarrow> rest = [] \<or> hd fuzz = terminator \<and> headers = []"
proof (cases fuzz)
  case Nil
  show ?thesis
    by (rule that [of "[]" "[]" True]) (simp_all add: Nil decode_fuzz_headers_def decode_headers_loop.simps)
next
  case (Cons c cs)
  show ?thesis
  proof (cases "c = terminator")
    case True
    then show ?thesis using that [of "[]" cs True] by (simp add: Cons decode_fuzz_headers_terminator)
  next
    case False
    then show ?thesis using decode_fuzz_headers_consumes [of fuzz "[]"] that Cons by auto
  qed
qed

lemma decode_fuzz_target_defaults_cases:
  obtains headers body rest ok where
    "decode_fuzz_target_defaults fuzz = Inr (headers, body, rest, ok)"
    "ok \<and> rest \<noteq> [] \<longrightarrow> hd fuzz = terminator \<and> headers = Some []"
proof (cases "length fuzz < 2")
  case True
  show ?thesis by (rule that [of None "[]" "[]" False]) (use True in \<open>simp_all add: decode_fuzz_target_defaults_def\<close>)
next
  case long: False
  obtain h rest ok where d: "decode_fuzz_headers fuzz [] = Inr (h, rest, ok)"
    and ne: "ok \<longrightarrow> rest = [] \<or> hd fuzz = terminator \<and> h = []"
    by (rule decode_fuzz_headers_cases [of fuzz])
  consider "\<not> ok" | "ok" "rest = []" | "ok" "rest \<noteq> []" by blast
  then show ?thesis
  proof cases
    case 1
    show ?thesis
      by (rule that [of "Some h" "[]" rest False]) (use 1 d long in \<open>simp_all add: decode_fuzz_target_defaults_def\<close>)
  next
    case 2
    show ?thesis
      by (rule that [of "Some h" "[]" "[]" True]) (use 2 d long in \<open>simp_all add: decode_fuzz_target_defaults_def\<close>)
  next
    case 3
    obtain body rest' ok' where e: "extract_fuzz_byte_string rest = (body, rest', ok')"
      by (cases "extract_fuzz_byte_string rest")
    show ?thesis
      by (rule that [of "Some h" body rest' ok'])
        (use 3 d e ne long in \<open>simp_all add: decode_fuzz_target_defaults_def\<close>)
  qed
qed

lemma decode_fuzz_response_body:
  "decode_fuzz_response fuzz = Inr (code, headers, body, True) \<Longrightarrow> body = [] \<or> headers = Some []"
  by (rule decode_fuzz_headers_cases [of "drop 2 fuzz"])
    (auto simp: decode_fuzz_response_def Let_def split: if_splits)

text \<open>Both targeters find no target in an empty input.\<close>

lemma read_all_http_empty:
  "read_all_targets (http_targeter pu rf body h (Some zero_target)) (byte_scanner [] None) = Some (Inl ErrNoTargets)"
  using http_targeter_dry [of "byte_scanner [] None" pu rf body h zero_target]
  by (subst read_all_targets_def, subst read_all_loop.simps) auto

lemma read_all_json_empty:
  "read_all_targets (json_targeter decode None body h (Some zero_target)) [] = Some (Inl ErrNoTargets)"
  by (subst read_all_targets_def, subst read_all_loop.simps) (simp add: json_targeter_def)

lemma fuzz_targets_verdict:
  assumes "\<And>body h bytes. \<exists>r. read_targets body h bytes = Some r"
    and "\<And>body h. read_targets body h [] = Some (Inl ErrNoTargets)"
  shows "(\<exists>v \<in> {- 1, 0, 1}. fuzz_targets read_targets fuzz = Some (Inr v)) \<and>
    (fuzz_targets read_targets fuzz = Some (Inr 1) \<longrightarrow>
      hd fuzz = terminator \<and> (\<exists>body bytes. decode_fuzz_target_defaults fuzz = Inr (Some [], body, bytes, True)))"
proof -
  obtain headers body rest ok where d: "decode_fuzz_target_defaults fuzz = Inr (headers, body, rest, ok)"
    and ne: "ok \<and> rest \<noteq> [] \<longrightarrow> hd fuzz = terminator \<and> headers = Some []"
    by (rule decode_fuzz_target_defaults_cases [of fuzz])
  obtain r where r: "read_targets body (case headers of None \<Rightarrow> [] | Some h \<Rightarrow> h) rest = Some r" using assms(1) by blast
  have "rest = [] \<Longrightarrow> isl r" using assms(2) r by (metis isl_def option.inject)
  then show ?thesis using d r ne by (cases ok) (auto simp: fuzz_targets_def fuzz_verdict_def)
qed

section \<open>What encodes as fuzz\<close>

text \<open>A text as a fuzz string, and a header as a marker byte and two strings.\<close>

definition fuzz_string :: "string \<Rightarrow> string" where
  "fuzz_string s = char_of (length s) # s"

fun fuzz_header :: "char \<Rightarrow> string \<times> string \<Rightarrow> string" where
  "fuzz_header m (name, val) = m # fuzz_string name @ fuzz_string val"

definition fits_byte :: "string \<Rightarrow> bool" where
  "fits_byte s \<longleftrightarrow> s \<noteq> [] \<and> length s < 256"

lemma extract_fuzz_string_encode:
  "fits_byte s \<Longrightarrow> extract_fuzz_string (fuzz_string s @ rest) = (s, rest, True)"
  by (cases s) (auto simp: extract_fuzz_string_def fuzz_string_def fits_byte_def Let_def of_char_of)

lemma decode_fuzz_header_encode:
  assumes "fits_byte name" and "fits_byte val"
  shows "decode_fuzz_header (fuzz_string name @ fuzz_string val @ rest) h = (header_append name [val] h, rest, True)"
  using assms
  by (simp add: decode_fuzz_header_def extract_fuzz_string_encode header_append_def header_get_def split: option.split)
    (simp add: fuzz_string_def)

lemma decode_headers_loop_encode:
  assumes "m \<noteq> terminator" and "list_all (\<lambda>(name, val). fits_byte name \<and> fits_byte val) hs"
    and "cs = [] \<longrightarrow> hs = []"
  shows "decode_headers_loop (m # cs) h (concat (map (fuzz_header m) hs)) ok = Inr (add_headers h hs, [], True)"
  using assms(2,3)
proof (induction hs arbitrary: h ok)
  case Nil
  then show ?case by (simp add: decode_headers_loop.simps)
next
  case (Cons nv hs)
  obtain name val where nv: "nv = (name, val)" by (cases nv)
  then show ?case
    using Cons assms(1)
    by (subst decode_headers_loop.simps) (simp add: decode_fuzz_header_encode)
qed

lemma decode_fuzz_headers_encode:
  assumes "m \<noteq> terminator" and "list_all (\<lambda>(name, val). fits_byte name \<and> fits_byte val) hs" and "hs \<noteq> []"
  shows "decode_fuzz_headers (concat (map (fuzz_header m) hs)) h = Inr (add_headers h hs, [], True)"
proof -
  obtain cs where "concat (map (fuzz_header m) hs) = m # cs" "cs \<noteq> []"
    using assms(3) by (cases hs rule: list.exhaust; cases "hd hs") (auto simp: fuzz_string_def)
  then show ?thesis
    using decode_headers_loop_encode [of m hs cs h False] assms by (simp add: decode_fuzz_headers_def)
qed

section \<open>Reading all results\<close>

lemma read_all_results_more:
  "dec s zero_result = (s', r, None) \<Longrightarrow> read_all_results dec s = read_all_results dec s'"
  by (subst read_all_results.simps) simp

lemma read_all_results_stop:
  "dec s zero_result = (s', r, Some e) \<Longrightarrow> read_all_results dec s = Some (e = EOF)"
  by (subst read_all_results.simps) simp

text \<open>On a finite input the loop returns, and says whether the loop of the commands ends at the end of
  the input.\<close>

context finite_decoder
begin

lemma read_all_results_returns: "\<exists>rs e. decode_all dec s = Some (rs, e) \<and> read_all_results dec s = Some (e = EOF)"
proof (induction "input_left s" arbitrary: s rule: less_induct)
  case less
  obtain s' r e where d: "dec s zero_result = (s', r, e)" by (cases "dec s zero_result")
  show ?case
  proof (cases e)
    case None
    then obtain rs e' where "decode_all dec s' = Some (rs, e')" "read_all_results dec s' = Some (e' = EOF)"
      using less consumes d by blast
    then show ?thesis using d None by (auto simp: decode_all_more read_all_results_more)
  next
    case (Some x)
    then show ?thesis using decode_all_stop [of dec s s' r x] read_all_results_stop [of dec s s' r x] d by blast
  qed
qed

lemma fuzz_decoder_verdict:
  "\<exists>rs e. decode_all dec s = Some (rs, e) \<and> fuzz_decoder dec s = Some (fuzz_verdict (e = EOF))"
  using read_all_results_returns [of s] by (auto simp: fuzz_decoder_def)

end

lemma format_detection_cases:
  "fuzz_results_format_detection gob new_gob parse reads fuzz =
    (if decodes_first gob (new_gob fuzz) then fuzz_gob_decoder gob new_gob fuzz
     else if decodes_first (json_decoder parse) fuzz then fuzz_json_decoder parse fuzz
     else if decodes_first csv_decoder fuzz then fuzz_csv_decoder fuzz
     else Some 0)"
  by (simp add: fuzz_results_format_detection_def decoder_for_replays_input fuzz_gob_decoder_def
      fuzz_json_decoder_def fuzz_csv_decoder_def fuzz_decoder_def upt_rec)

section \<open>Properties\<close>





text \<open>
  The attacker of the attack fuzzers does not dial the socket their server listens on:
  \<open>KeepAlive(false)\<close> comes after \<open>UnixSocket\<close> and puts the plain dialer back, so every dial goes to
  the network.
\<close>

theorem fuzz_attacker_misses_socket:
  "\<exists>a tr. fuzz_attacker socket = Inr a \<and> a_transport a = HTTPTransport tr \<and>
    (dial_with (tr_dialer tr) net st addr :: (round_robins \<times> 'c dialed) go) = Inr (st, d_net net addr)"
  by (simp add: fuzz_attacker_def new_attacker_def if_transport_def with_transport_def default_attacker_def tr_dialer_def)

end
