(* ===== verification/Assets.thy ===== *)
theory Assets
  imports Go_Base
begin

text \<open>
  The embedded assets of the plot (\<open>lib/plot/embed.go\<close>, and \<open>asset\<close> of \<open>lib/plot/plot.go\<close>): an
  \<open>http.FileSystem\<close> over \<open>embed.FS\<close> whose regular files are read into memory, and are then read and
  sought through an \<open>io.SectionReader\<close> of the standard library.

  Parameters: the file system itself. A read gives the bytes that were read and the error beside
  them; offsets are \<open>int64\<close>.
\<close>

datatype read_error = ReadEOF | ReadFailed string | BadWhence | BadOffset

record 'f embedded =
  fs_open :: "string \<Rightarrow> string + 'f"
  fs_is_dir :: "'f \<Rightarrow> string + bool"
  fs_data :: "'f \<Rightarrow> string + string"     \<comment> \<open>\<open>io.ReadAll\<close> of the file\<close>
  fs_read :: "'f \<Rightarrow> nat \<Rightarrow> string \<times> read_error option"

section \<open>The section reader\<close>

definition read_at :: "string \<Rightarrow> nat \<Rightarrow> i64 \<Rightarrow> string \<times> read_error option" where
  "read_at bytes n off =
    (if off <s 0 \<or> word_of_nat (length bytes) \<le>s off then ([], Some ReadEOF)
     else
       let copied = take n (drop (unat off) bytes) in
       (copied, if length copied < n then Some ReadEOF else None))"

record section_reader =
  sr_data :: string
  sr_base :: i64
  sr_off :: i64
  sr_limit :: i64

definition new_section_reader :: "string \<Rightarrow> section_reader" where
  "new_section_reader bytes = \<lparr>sr_data = bytes, sr_base = 0, sr_off = 0, sr_limit = word_of_nat (length bytes)\<rparr>"

definition section_read :: "section_reader \<Rightarrow> nat \<Rightarrow> section_reader \<times> string \<times> read_error option" where
  "section_read s n =
    (if sr_limit s \<le>s sr_off s then (s, [], Some ReadEOF)
     else
       let room = sr_limit s - sr_off s;
           n' = (if sint room < int n then nat (sint room) else n) in
       (case read_at (sr_data s) n' (sr_off s) of
          (bs, err) \<Rightarrow> (s\<lparr>sr_off := sr_off s + word_of_nat (length bs)\<rparr>, bs, err)))"

definition section_seek :: "section_reader \<Rightarrow> i64 \<Rightarrow> nat \<Rightarrow> section_reader \<times> (read_error + i64)" where
  "section_seek s offset whence =
    (if 2 < whence then (s, Inl BadWhence)
     else
       let o' = offset + (if whence = 0 then sr_base s else if whence = 1 then sr_off s else sr_limit s) in
       if o' <s sr_base s then (s, Inl BadOffset)
       else (s\<lparr>sr_off := o'\<rparr>, Inr (o' - sr_base s)))"

section \<open>Files\<close>

datatype 'f asset_file =
    EmbedFile 'f                          \<comment> \<open>a directory\<close>
  | EmbedFileSeeker section_reader

definition assets_open :: "'f embedded \<Rightarrow> string \<Rightarrow> string + 'f asset_file" where
  "assets_open fs name =
    go_bind (fs_open fs (''assets/'' @ name)) (\<lambda>f.
    go_bind (fs_is_dir fs f) (\<lambda>dir.
      if dir then Inr (EmbedFile f)
      else go_bind (fs_data fs f) (\<lambda>bytes. Inr (EmbedFileSeeker (new_section_reader bytes)))))"

fun file_read :: "'f embedded \<Rightarrow> 'f asset_file \<Rightarrow> nat \<Rightarrow> 'f asset_file \<times> string \<times> read_error option" where
  "file_read fs (EmbedFile f) n = (EmbedFile f, fs_read fs f n)"
| "file_read fs (EmbedFileSeeker s) n = (case section_read s n of (s', r) \<Rightarrow> (EmbedFileSeeker s', r))"

fun file_seek :: "'f asset_file \<Rightarrow> i64 \<Rightarrow> nat \<Rightarrow> 'f asset_file \<times> (read_error + i64)" where
  "file_seek (EmbedFile f) offset whence = (EmbedFile f, Inr 0)"
| "file_seek (EmbedFileSeeker s) offset whence = (case section_seek s offset whence of (s', r) \<Rightarrow> (EmbedFileSeeker s', r))"

text \<open>\<open>io.ReadAll\<close> with buffers of the given sizes, one for each read; \<open>None\<close> while it does not
  return.\<close>

partial_function (option) read_all ::
    "'f embedded \<Rightarrow> (nat \<Rightarrow> nat) \<Rightarrow> nat \<Rightarrow> 'f asset_file \<Rightarrow> string \<Rightarrow> ('f asset_file \<times> (read_error + string)) option" where
  "read_all fs sizes k file acc =
    (case file_read fs file (sizes k) of
       (file', bs, None) \<Rightarrow> read_all fs sizes (k + 1) file' (acc @ bs)
     | (file', bs, Some e) \<Rightarrow> Some (file', if e = ReadEOF then Inr (acc @ bs) else Inl e))"

datatype asset_error = CannotOpenAsset string | CannotReadAsset read_error

definition asset :: "'f embedded \<Rightarrow> (nat \<Rightarrow> nat) \<Rightarrow> string \<Rightarrow> (asset_error + string) option" where
  "asset fs sizes path =
    (case assets_open fs path of
       Inl e \<Rightarrow> Some (Inl (CannotOpenAsset e))
     | Inr file \<Rightarrow>
         map_option (\<lambda>(_, r). case r of Inl e \<Rightarrow> Inl (CannotReadAsset e) | Inr bytes \<Rightarrow> Inr bytes)
           (read_all fs sizes 0 file []))"

section \<open>Reading a file in memory\<close>

text \<open>A reader at a position of its bytes.\<close>

definition reader_of :: "string \<Rightarrow> nat \<Rightarrow> section_reader" where
  "reader_of bytes k = (new_section_reader bytes)\<lparr>sr_off := word_of_nat k\<rparr>"

lemma new_section_reader_at: "new_section_reader bytes = reader_of bytes 0"
  by (simp add: reader_of_def new_section_reader_def)

lemma sint_word_of_nat: "k < 2 ^ 63 \<Longrightarrow> sint (word_of_nat k :: i64) = int k"
  by (subst sint_eq_unat_i64) (simp_all add: unat_of_nat)

lemma section_read_position:
  assumes "length bytes < 2 ^ 63" and "k \<le> length bytes"
  shows "section_read (reader_of bytes k) n =
    (reader_of bytes (k + length (take n (drop k bytes))), take n (drop k bytes),
     if k = length bytes then Some ReadEOF else None)"
proof -
  have k: "sint (word_of_nat k :: i64) = int k" and l: "sint (word_of_nat (length bytes) :: i64) = int (length bytes)"
    using assms by (simp_all add: sint_word_of_nat)
  have u: "unat (word_of_nat k :: i64) = k" using assms by (simp add: unat_of_nat)
  have room: "sint (word_of_nat (length bytes) - word_of_nat k :: i64) = int (length bytes - k)"
    using assms k l by (subst sint_diff_i64) simp_all
  show ?thesis
    using assms
    by (auto simp: section_read_def read_at_def reader_of_def new_section_reader_def word_sle_eq word_sless_alt k l u room Let_def)
qed

lemma read_all_reader:
  assumes "length bytes < 2 ^ 63" and "\<And>i. 0 < sizes i" and "k \<le> length bytes"
  shows "read_all fs sizes i (EmbedFileSeeker (reader_of bytes k)) acc =
    Some (EmbedFileSeeker (reader_of bytes (length bytes)), Inr (acc @ drop k bytes))"
  using assms(3)
proof (induction "length bytes - k" arbitrary: i k acc rule: less_induct)
  case less
  show ?case
  proof (cases "k = length bytes")
    case True
    then show ?thesis
      by (subst read_all.simps) (simp add: section_read_position [OF assms(1)])
  next
    case False
    let ?m = "length (take (sizes i) (drop k bytes))"
    have "0 < ?m" "k + ?m \<le> length bytes" using False less.prems assms(2) [of i] by simp_all
    then have "read_all fs sizes (i + 1) (EmbedFileSeeker (reader_of bytes (k + ?m))) (acc @ take (sizes i) (drop k bytes)) =
        Some (EmbedFileSeeker (reader_of bytes (length bytes)), Inr ((acc @ take (sizes i) (drop k bytes)) @ drop (k + ?m) bytes))"
      using less.prems by (intro less.hyps) linarith+
    moreover have "take (sizes i) (drop k bytes) @ drop (k + ?m) bytes = drop k bytes"
      by (metis add.commute append_take_drop_id drop_drop length_take min.commute take_drop drop_all nle_le min_def)
    ultimately show ?thesis
      using False less.prems by (subst read_all.simps) (simp add: section_read_position [OF assms(1)])
  qed
qed

text \<open>\<open>plotTemplate\<close> is built when the program starts and panics without its asset; \<open>parse\<close> is the
  template engine.\<close>

datatype template_panic = AssetPanic asset_error | ParsePanic string

definition plot_template :: "(string \<Rightarrow> string + 't) \<Rightarrow> 'f embedded \<Rightarrow> (nat \<Rightarrow> nat) \<Rightarrow> (template_panic + 't) option" where
  "plot_template parse fs sizes =
    map_option (\<lambda>r. case r of
        Inl e \<Rightarrow> Inl (AssetPanic e)
      | Inr bs \<Rightarrow> (case parse bs of Inl e \<Rightarrow> Inl (ParsePanic e) | Inr t \<Rightarrow> Inr t))
      (asset fs sizes ''plot.html.tpl'')"

lemma assets_open_regular:
  "fs_open fs (''assets/'' @ path) = Inr f \<Longrightarrow> fs_is_dir fs f = Inr False \<Longrightarrow> fs_data fs f = Inr bytes \<Longrightarrow>
    assets_open fs path = Inr (EmbedFileSeeker (reader_of bytes 0))"
  by (simp add: assets_open_def new_section_reader_at)

lemma file_seek_start:
  assumes "length bytes < 2 ^ 63" and "o' \<le> length bytes"
  shows "file_seek (EmbedFileSeeker (reader_of bytes k)) (word_of_nat o') 0 =
    (EmbedFileSeeker (reader_of bytes o'), Inr (word_of_nat o'))"
  using assms by (simp add: section_seek_def reader_of_def new_section_reader_def word_sless_alt sint_word_of_nat Let_def)

section \<open>Properties\<close>

text \<open>
  An embedded regular file is read whole, whatever the sizes of the reads, and again from any
  offset within it after a seek; so the plot's template is parsed from the whole of its asset.
\<close>

theorem assets_read_back:
  assumes "fs_open fs (''assets/'' @ path) = Inr f" and "fs_is_dir fs f = Inr False" and "fs_data fs f = Inr bytes"
    and "length bytes < 2 ^ 63" and "\<And>i. 0 < sizes i" and "k \<le> length bytes"
  shows "asset fs sizes path = Some (Inr bytes)"
    and "\<exists>file file' pos. assets_open fs path = Inr file \<and> read_all fs sizes 0 file [] = Some (file', Inr bytes) \<and>
      snd (file_seek file' (word_of_nat k) 0) = Inr pos \<and> unat pos = k \<and>
      map_option snd (read_all fs sizes 0 (fst (file_seek file' (word_of_nat k) 0)) []) = Some (Inr (drop k bytes))"
proof -
  note opened = assets_open_regular [OF assms(1-3)]
  note read = read_all_reader [OF assms(4,5), where acc = "[]" and fs = fs and i = 0]
  show "asset fs sizes path = Some (Inr bytes)"
    using read [of 0] by (simp add: asset_def opened)
  show "\<exists>file file' pos. assets_open fs path = Inr file \<and> read_all fs sizes 0 file [] = Some (file', Inr bytes) \<and>
      snd (file_seek file' (word_of_nat k) 0) = Inr pos \<and> unat pos = k \<and>
      map_option snd (read_all fs sizes 0 (fst (file_seek file' (word_of_nat k) 0)) []) = Some (Inr (drop k bytes))"
    using read [of 0] read [OF assms(6)] assms(4,6)
    by (simp add: opened file_seek_start [OF assms(4,6)] unat_of_nat del: file_seek.simps)
qed

end
