(* ===== verification/Spec2Isabelle.thy ===== *)
theory Spec2Isabelle
  imports Attack_Command Command_Runs Json_Codecs Rated_Pacers Fuzzing Assets
begin

text \<open>
  Vegeta (\<open>github.com/tsenart/vegeta\<close>) attacks HTTP services at a given rate and reports on the
  results. This development models its library and its commands and proves what makes them correct.

  \<^bold>\<open>How the program works.\<close> \<open>vegeta attack\<close> (\<open>attack.go\<close>) reads options and targets, builds an \<open>Attacker\<close>
  and calls \<open>Attack\<close> (\<open>lib/attack.go\<close>). One goroutine asks a \<open>Pacer\<close> (\<open>lib/pacer.go\<close>) when the next hit
  is due and sends ticks to workers, which it starts when none is free; a worker takes a target from a
  \<open>Targeter\<close> (\<open>lib/targets.go\<close>), sends the request and puts a \<open>Result\<close> on a channel; \<open>processAttack\<close>
  encodes the results into a file. \<open>vegeta encode\<close>, \<open>report\<close> and \<open>plot\<close> decode such files through one
  round-robin decoder (\<open>lib/results.go\<close>) and feed an encoder, a report (\<open>lib/metrics.go\<close>,
  \<open>lib/histogram.go\<close>, printed by \<open>lib/reporters.go\<close>) or a plot (\<open>lib/plot\<close>, \<open>lib/lttb\<close>).

  \<^bold>\<open>Theories and the code they model.\<close>
  \<^item> \<open>Go_Base\<close>, \<open>Go_Strings\<close>, \<open>Go_Duration\<close>, \<open>Go_Encoding\<close>, \<open>Go_Textproto\<close>, \<open>Float64\<close>: what the program uses of Go
    and its standard library: fixed-width integers as words, panics and errors as sums, clock values,
    \<open>strconv\<close>, \<open>strings\<close>, durations, base64, CSV, MIME headers and IEEE doubles.
  \<^item> \<open>Http_Types\<close>: \<open>http.Header\<close>, \<open>Target\<close> and \<open>Result\<close> with their \<open>Equal\<close>.
  \<^item> \<open>Const_Pacer\<close> and \<open>Rated_Pacers\<close>: \<open>lib/pacer.go\<close>. \<open>pacer_contract\<close> is what the attack needs of a pacer.
  \<^item> \<open>Targets\<close>: the HTTP, JSON and static targeters, \<open>ReadAllTargets\<close>, \<open>Target.Request\<close>, the peeking scanner.
    \<open>targeter_contract\<close> is what \<open>ReadAllTargets\<close> needs of a targeter. \<open>Byte_Scanner\<close>: \<open>bufio.Scanner\<close> under the
    peeking scanner, with its limit on the length of a line.
  \<^item> \<open>Attacker\<close> and \<open>Dialing\<close>: \<open>NewAttacker\<close>, every functional option, redirects, \<open>hit\<close>; the dial functions of
    \<open>UnixSocket\<close>, \<open>ConnectTo\<close> and \<open>DNSCaching\<close>.
  \<^item> \<open>Attack_Loop\<close>: \<open>Attack\<close>, \<open>attack\<close> and \<open>Stop\<close> as step relations over all goroutines.
  \<^item> \<open>Results\<close> and \<open>Json_Codecs\<close>: the collection \<open>Results\<close>, the CSV codec, the JSON codecs of results and of targets
    (\<open>lib/results_easyjson.go\<close>, \<open>lib/targets_easyjson.go\<close>), \<open>DecoderFor\<close>, \<open>NewRoundRobinDecoder\<close>.
    \<open>result_source\<close> is what the commands need of a decoder, \<open>finite_decoder\<close> what ends their loops.
  \<^item> \<open>Metrics\<close>, \<open>Histograms\<close>, \<open>Reporters\<close>: the reports. \<open>Plots\<close> and \<open>Downsampling\<close>: the plot, whose series are read
    through \<open>point_source\<close>.
    \<open>Assets\<close>: \<open>lib/plot/embed.go\<close>, the files the page of the plot is made from.
  \<^item> \<open>Flags\<close>: \<open>flags.go\<close>, \<open>internal/resolver\<close>, \<open>lib/prom\<close>. \<open>Commands\<close>: \<open>file.go\<close>, \<open>report.go\<close>, \<open>encode.go\<close>, \<open>plot.go\<close>,
    \<open>dump.go\<close>, step by step; \<open>Command_Runs\<close>: the same commands from their arguments to their output.
    \<open>Attack_Command\<close>: \<open>attack.go\<close> and \<open>main.go\<close>.
  \<^item> \<open>Fuzzing\<close>: the entry points of \<open>lib/*_fuzz.go\<close> and the decoding of fuzz.
  \<^item> This theory: properties of the whole way from the attack to the reports.

  \<^bold>\<open>State and operations.\<close> A struct is a record and a method a function on it; a closure is a function
  on the variables it keeps. A value with a panic is an \<open>'a go\<close>, one with an error a sum with an
  error datatype, and where the code returns both a value and an error, the model returns both. A Go map
  is an association list in the order in which the run at hand iterates it, so a statement about
  every list covers every order.

  \<^bold>\<open>What the lemmas show.\<close>
  \<^item> The attack, in every interleaving: one result for every tick, numbered without gaps; no send on a closed
    channel; never more workers than allowed; never more hits than the rate and the duration allow;
    progress, and a bounded number of steps to the end once it stops. For the command, these hold
    with the values of its flags.
  \<^item> Pacers: the exact wait, every panic and every overflow of the constant pacer; bounds and monotonicity
    of the others in floating point.
  \<^item> Codecs: CSV, JSON and the HTTP target format read back what was written; the round-robin decoder
    merges files without losing or repeating a result.
  \<^item> Reports: \<open>Metrics.Add\<close> implements a summary of the multiset of results, so the order does not
    matter; histograms count each result once; ticks of the report command do not change its end.
  \<^item> Plots: results in any order of arrival become series in sequence order; downsampling keeps the first and
    the last point and panics nowhere.
  \<^item> Commands: \<open>encode\<close> and \<open>report -type 'hist[...]'\<close>, from their arguments, write every result of every input
    once, and count it once. The decoders and the loops around them return on every input, malformed or not.
  \<^item> Fuzzing: what fuzz decodes to, and what the fuzzers therefore never reach.
  \<^item> Together: the results of a finished attack, written, encoded and read again, are plotted in sequence
    order and counted exactly.

  \<^bold>\<open>Bounds and fuel.\<close> No definition has fuel. A loop that need not end is a \<open>partial_function\<close> into \<open>option\<close>, and
  the lemmas prove that it returns; a \<open>select\<close> loop is driven by the list of the cases it takes and
  is \<open>None\<close> when the list ends before the loop does. Sequence numbers are 64-bit words, so statements
  about order assume fewer than \<open>2\<^sup>6\<^sup>4\<close> hits; the rate bound holds up to the hit count at which the constant
  pacer's guard against overflow acts (\<open>constant_limit\<close>), which is where the code stops keeping it;
  downsampling is free of empty buckets up to \<open>2\<^sup>2\<^sup>2\<close> points; CSV is exact for texts without a carriage
  return and times within \<open>2\<^sup>6\<^sup>3\<close> nanoseconds of 1970, JSON for texts in UTF-8 and times that
  \<open>Time.MarshalJSON\<close> accepts. A target line of 64 KiB ends the input with the scanner's error.

  \<^bold>\<open>Parameters.\<close> Code outside the repository is an argument: the HTTP client and server
  (\<open>do_request\<close>), \<open>http.NewRequest\<close>, URL and IP parsing, the network and the DNS cache, files and the
  terminal, TLS key pairs, the Prometheus registry, the gob codec, easyjson's writer and lexer,
  \<open>encoding/json\<close>, the t-digest, the compressed series of the plot, \<open>text/tabwriter\<close>, templates,
  \<open>math.Sin\<close> and \<open>math.Cos\<close>. Where a property needs something of one, it says so in a hypothesis
  that its witness satisfies: a compressed series gives back what was pushed (\<open>lossless\<close>), a writer or
  a lexer of JSON does what it documents (\<open>writes_json\<close>, \<open>reads_json\<close>), a gob file yields what was
  encoded (\<open>result_source\<close>).

  \<^bold>\<open>Not modelled.\<close> The usage texts and the registration of flags, with the files that differ by platform
  (\<open>attack_windows.go\<close> and the like), which only call the \<open>flag\<close> package and the terminal; of the two attack
  fuzzers (\<open>lib/attack_fuzz.go\<close>) more than the attacker they build and the response they decode, since
  their call of \<open>hit\<close> does not compile against its present signature; the assets themselves and
  \<open>assets.go\<close>, which serves them from a directory during development; the programs under \<open>internal/cmd\<close>,
  which are not part of vegeta. The location of a time is left out: two times are the same when they are the same
  instant, as \<open>Result.Equal\<close> has it. The sign of a floating-point zero is not kept.
\<close>

section \<open>From the attack to the reports\<close>

text \<open>The results of a finished attack, in sequence order.\<close>

lemma finished_in_sequence:
  assumes "reachable c s" and "pc s = Finished" and "length (delivered s) < 2 ^ 64"
  shows "\<exists>ss. mset ss = mset (delivered s) \<and> in_sequence ss"
proof -
  define n where "n = length (delivered s)"
  define ss where "ss = sort_key (\<lambda>r. unat (Seq r)) (delivered s)"
  have n: "n < 2 ^ 64" using assms(3) by (simp add: n_def)
  have m: "mset ss = mset (delivered s)" "length ss = n" "set ss = set (delivered s)" by (simp_all add: ss_def n_def)
  have eq: "mset (history s) = result_ids (delivered s)" by (rule finished_complete [OF assms(1,2)])
  then have len: "length (history s) = n" unfolding n_def by (metis result_ids_def size_image_mset size_mset)
  have "map fst (history s) = map of_nat [0..<n]"
    using reachable_seq_inv [OF assms(1)] len by (simp add: seq_inv_def numbered_def)
  then have "image_mset Seq (mset ss) = mset (map of_nat [0..<n])"
    using arg_cong [OF eq, of "image_mset fst"] by (simp add: m(1) result_ids_def image_mset.compositionality o_def flip: mset_map)
  then have "image_mset unat (image_mset Seq (mset ss)) = image_mset unat (mset (map of_nat [0..<n] :: u64 list))" by (rule arg_cong)
  then have "mset (map unat (map Seq ss)) = mset (map unat (map of_nat [0..<n] :: u64 list))" by (simp only: mset_map)
  moreover have "map unat (map of_nat [0..<n] :: u64 list) = [0..<n]"
    using n by (intro nth_equalityI) (simp_all add: unat_of_nat)
  ultimately have "mset (map (\<lambda>r. unat (Seq r)) ss) = mset [0..<n]" by (simp only: map_map o_def)
  moreover have "sorted (map (\<lambda>r. unat (Seq r)) ss)" by (simp add: ss_def)
  ultimately have u: "map (\<lambda>r. unat (Seq r)) ss = [0..<n]" 
    using properties_for_sort [of "map (\<lambda>r. unat (Seq r)) ss" "[0..<n]"] by (simp only: sorted_sort_id sorted_upt)
  then have "map of_nat (map (\<lambda>r. unat (Seq r)) ss) = (map of_nat [0..<n] :: u64 list)" by simp
  then have q: "map Seq ss = map of_nat [0..<length ss]" by (simp add: o_def m(2))
  have "sorted (map Timestamp ss)"
  proof (rule sorted_iff_nth_mono_less [THEN iffD2], intro allI impI)
    fix i j
    assume ij: "i < j" "j < length (map Timestamp ss)"
    then have "unat (Seq (ss ! i)) = i" "unat (Seq (ss ! j)) = j" using arg_cong [OF u, of "\<lambda>l. l ! i"] arg_cong [OF u, of "\<lambda>l. l ! j"] m(2)
      by simp_all
    then have lt: "Seq (ss ! i) < Seq (ss ! j)" using ij(1) by (simp only: word_less_nat_alt)
    have "i < length ss" "j < length ss" using ij by simp_all
    then have mem: "ss ! i \<in> set (delivered s)" "ss ! j \<in> set (delivered s)"
      unfolding m(3) [symmetric] by (simp_all only: nth_mem)
    have "length (history s) \<le> 2 ^ 64" using n unfolding len by (rule less_imp_le)
    then have "Timestamp (ss ! i) \<le> Timestamp (ss ! j)" using lt by (rule sequence_order [OF assms(1) mem])
    then show "map Timestamp ss ! i \<le> map Timestamp ss ! j" using ij by simp
  qed
  then have "in_sequence ss" using q n by (simp only: in_sequence_def m(2))
  then show ?thesis using m(1) by blast
qed

text \<open>From the channel to a CSV file, through the file \<open>vegeta attack\<close> wrote.\<close>

lemma attack_to_csv:
  assumes "list_all goes_on evs" and "\<And>w r. snd (genc w r) = None"
    and "result_source gdec gob_file" and "gob_file (foldl (\<lambda>w r. fst (genc w r)) w (received evs)) (received evs)"
  shows "\<exists>out. process_attack genc (evs @ [ResultsClosed]) None w = Some (None, out, None) \<and>
    encode_loop csv_encoder (round_robin_decoder gdec) (replicate (Suc (length (received evs))) Ready) (0, [out]) [] =
      Some (concat (map csv_encode (received evs)), None)"
proof -
  let ?out = "foldl (\<lambda>w r. fst (genc w r)) w (received evs)"
  have "one_file gob_file (0, [?out]) (received evs)" using assms(4) by (simp add: one_file_def)
  from result_source.encode_loop_yields [OF result_source.single_source [OF assms(3)] this, of csv_encoder "[]"]
  have "encode_loop csv_encoder (round_robin_decoder gdec) (replicate (Suc (length (received evs))) Ready) (0, [?out]) [] =
      Some (concat (map csv_encode (received evs)), None)"
    by (simp add: csv_encoder_all) (simp add: csv_encoder_def)
  then show ?thesis using process_attack_received [OF assms(2,1), where pm = None and w = w] by simp
qed

section \<open>Properties\<close>

text \<open>
  C1. From the attack to the plot. The results of a finished attack pass through \<open>vegeta attack\<close>,
  \<open>vegeta encode -to csv\<close> and \<open>vegeta plot\<close> without an error, whatever the interleaving of its
  workers and a first interrupt in between: the plot then holds, under every label, exactly the
  series of the attack's results in sequence order. The gob codec must give back what was written,
  and so must the compressed series; the texts must be safe in CSV.
\<close>

theorem attack_results_plotted:
  fixes push :: "'d pusher" and genc :: "'w encoder" and gdec :: "'w decoder"
  assumes "reachable c s" and "pc s = Finished" and "length (delivered s) < 2 ^ 64"
    and "list_all goes_on evs" and "received evs = delivered s"
    and "\<And>w r. snd (genc w r) = None" and "result_source gdec gob_file"
    and "gob_file (foldl (\<lambda>w r. fst (genc w r)) w (delivered s)) (delivered s)"
    and "list_all csv_safe (delivered s)" and "lossless push new read"
  defines "run \<equiv> replicate (Suc (length (delivered s))) Ready"
  shows "\<exists>out csv p ss. process_attack genc (evs @ [ResultsClosed]) None w = Some (None, out, None) \<and>
    encode_loop csv_encoder (round_robin_decoder gdec) run (0, [out]) [] = Some (csv, None) \<and>
    plot_loop push new (round_robin_decoder csv_decoder) run (0, [csv]) (new_plot opts) = Some (p, None) \<and>
    mset ss = mset (delivered s) \<and> in_sequence ss \<and>
    (case map_of (p_series p) (c_name c) of
       None \<Rightarrow> ss = []
     | Some srs \<Rightarrow> \<forall>l. map_option (\<lambda>ts. (read (ts_data ts), ts_len ts)) (map_of (ls_series srs) l) =
         series_spec (the (p_label (new_plot opts :: 'd plot))) ss l)"
proof -
  let ?csv = "concat (map csv_encode (delivered s))"
  obtain ss where ss: "mset ss = mset (delivered s)" "in_sequence ss"
    using finished_in_sequence [OF assms(1-3)] by blast
  let ?ss = "\<lambda>a. if a = c_name c then ss else []"
  have "Attack r = c_name c" if "r \<in> set (delivered s)" for r using reachable_names [OF assms(1)] that by blast
  then have "filter (\<lambda>r. Attack r = a) (delivered s) = (if a = c_name c then delivered s else [])" for a
    by (auto simp: filter_empty_conv filter_id_conv)
  then have "\<forall>a. in_sequence (?ss a) \<and> mset (filter (\<lambda>r. Attack r = a) (delivered s)) = mset (?ss a)"
    using ss by (simp add: in_sequence_def)
  from plot_add_all_in_sequence [OF assms(10) this, of opts] obtain p where
    p: "plot_add_all push new (new_plot opts) (delivered s) = (p, None)"
      "\<forall>a. case map_of (p_series p) a of
         None \<Rightarrow> ?ss a = []
       | Some srs \<Rightarrow> ?ss a \<noteq> [] \<and> (\<forall>l. map_option (\<lambda>ts. (read (ts_data ts), ts_len ts)) (map_of (ls_series srs) l) =
           series_spec (the (p_label (new_plot opts :: 'd plot))) (?ss a) l)"
    by blast
  have "one_file csv_yields (0, [?csv]) (delivered s)" using assms(9) by (simp add: csv_yields_def one_file_def)
  from csv_single.plot_loop_yields [OF this p(1)]
  have "plot_loop push new (round_robin_decoder csv_decoder) run (0, [?csv]) (new_plot opts) = Some (p, None)" by (simp only: run_def)
  moreover obtain out where "process_attack genc (evs @ [ResultsClosed]) None w = Some (None, out, None)"
      "encode_loop csv_encoder (round_robin_decoder gdec) run (0, [out]) [] = Some (?csv, None)"
    using attack_to_csv [where genc = genc and w = w, OF assms(4,6,7)] assms(8) unfolding assms(5) run_def by blast
  ultimately show ?thesis using ss p(2) [rule_format, of "c_name c"]
    by (intro exI [of _ out] exI [of _ ?csv] exI [of _ p] exI [of _ ss]) (auto split: option.splits)
qed

theorem attack_results_plotted_witness:
  "\<exists>p. plot_loop (\<lambda>d t v. d @ [(t, v)]) [] (round_robin_decoder csv_decoder) [Ready, Ready]
    (0, [csv_encode demo_result]) (new_plot []) = Some (p, None)"
proof -
  let ?enc = "\<lambda>w r. (w @ [r], None :: string option)"
  have fin: "pc demo_final = Finished" "delivered demo_final = [demo_result]"
    by (simp_all add: demo_final_def demo_state_def)
  have src: "result_source list_decoder (=)" by unfold_locales (auto simp: list_decoder_def)
  have rec: "list_all goes_on [Signal True, Received demo_result]" "received [Signal True, Received demo_result] = [demo_result]"
    by (simp_all add: goes_on_def received_def map_filter_simps)
  have safe: "list_all csv_safe [demo_result]" by (simp add: csv_safe_def demo_result_def zero_result_def)
  have low: "lossless (\<lambda>d t v. d @ [(t, v)]) [] (\<lambda>d. (d, None))" by (simp add: lossless_def)
  have "length (delivered demo_final) < 2 ^ 64" by (simp add: fin)
  from attack_results_plotted [where genc = ?enc and w = "[]" and opts = "[]" and s = demo_final,
      OF demo_final_reachable fin(1) this rec(1) _ _ src _ _ low]
  obtain out csv p where
    "encode_loop csv_encoder (round_robin_decoder list_decoder) [Ready, Ready] (0, [out]) [] = Some (csv, None)"
    "process_attack ?enc [Signal True, Received demo_result, ResultsClosed] None [] = Some (None, out, None)"
    "plot_loop (\<lambda>d t v. d @ [(t, v)]) [] (round_robin_decoder csv_decoder) [Ready, Ready] (0, [csv]) (new_plot []) = Some (p, None)"
    using rec(2) safe by (auto simp: fin)
  moreover from this(1,2) have "csv = csv_encode demo_result"
    by (auto simp: csv_encoder_def list_decoder_def round_robin_one)
  ultimately show ?thesis by blast
qed

text \<open>
  C2. From the attack to the report. The metrics \<open>vegeta report\<close> computes from the CSV file of a
  finished attack count exactly the attack's ticks as requests and its results with a good status
  as successes, and their byte totals are the sums over the results.
\<close>

theorem attack_results_reported:
  assumes "reachable c s" and "pc s = Finished"
    and "list_all goes_on evs" and "received evs = delivered s"
    and "\<And>w r. snd (genc w r) = None" and "result_source gdec gob_file"
    and "gob_file (foldl (\<lambda>w r. fst (genc w r)) w (delivered s)) (delivered s)"
    and "list_all csv_safe (delivered s)"
  defines "run \<equiv> replicate (Suc (length (delivered s))) Ready"
  shows "\<exists>out csv m. process_attack genc (evs @ [ResultsClosed]) None w = Some (None, out, None) \<and>
    encode_loop csv_encoder (round_robin_decoder gdec) run (0, [out]) [] = Some (csv, None) \<and>
    report_loop (Some (metrics_close get)) (\<lambda>m w. (w @ [m], Inr None)) clear (round_robin_decoder csv_decoder)
      (metrics_add add) run (0, [csv]) (new_metrics new None) [] = Some (m, [m], None) \<and>
    m_Requests m = count s \<and>
    m_success m = of_nat (length (filter (\<lambda>r. ok_code (Code r)) (delivered s))) \<and>
    m_BytesIn m = (\<Sum>r \<leftarrow> delivered s. BytesIn r) \<and> m_BytesOut m = (\<Sum>r \<leftarrow> delivered s. BytesOut r)"
proof -
  let ?csv = "concat (map csv_encode (delivered s))" and ?m = "metrics_of add new None (delivered s)"
  have add: "metrics_add_all add (new_metrics new None) (delivered s) = Inr ?m" by (rule metrics_of_add_all)
  have "one_file csv_yields (0, [?csv]) (delivered s)" using assms(8) by (simp add: csv_yields_def one_file_def)
  note yields = this
  have "report_loop (Some (metrics_close get)) (\<lambda>m w. (w @ [m], Inr None)) clear (round_robin_decoder csv_decoder)
      (metrics_add add) run (0, [?csv]) (new_metrics new None) [] = Some (metrics_close get ?m, [metrics_close get ?m], None)"
    unfolding run_def by (subst csv_single.report_loop_yields [OF yields add]) (simp add: write_report_def Let_def)
  moreover obtain out where "process_attack genc (evs @ [ResultsClosed]) None w = Some (None, out, None)"
      "encode_loop csv_encoder (round_robin_decoder gdec) run (0, [out]) [] = Some (?csv, None)"
    using attack_to_csv [where genc = genc and w = w, OF assms(3,5,6)] assms(7) unfolding assms(4) run_def by blast
  moreover have "count s = of_nat (length (delivered s))"
    using finished_complete [OF assms(1,2)] by (metis result_ids_def size_image_mset size_mset)
  ultimately show ?thesis
    by (intro exI [of _ out] exI [of _ ?csv] exI [of _ "metrics_close get ?m"]) (simp add: metrics_of_counters)
qed

theorem attack_results_reported_witness:
  "\<exists>m. report_loop (Some (metrics_close (\<lambda>e q. (q, e)))) (\<lambda>m w. (w @ [m], Inr None)) (\<lambda>w. (w, None)) (round_robin_decoder csv_decoder)
    (metrics_add (\<lambda>e x. x # e)) [Ready, Ready] (0, [csv_encode demo_result]) (new_metrics [] None) [] = Some (m, [m], None) \<and>
    m_Requests m = 1 \<and> m_success m = 0"
proof -
  let ?enc = "\<lambda>w r. (w @ [r], None :: string option)"
  have fin: "pc demo_final = Finished" "delivered demo_final = [demo_result]" "count demo_final = 1"
    by (simp_all add: demo_final_def demo_state_def)
  have src: "result_source list_decoder (=)" by unfold_locales (auto simp: list_decoder_def)
  have rec: "list_all goes_on [Signal True, Received demo_result]" "received [Signal True, Received demo_result] = [demo_result]"
    by (simp_all add: goes_on_def received_def map_filter_simps)
  have safe: "list_all csv_safe [demo_result]" by (simp add: csv_safe_def demo_result_def zero_result_def)
  have "\<not> ok_code (Code demo_result)" by (simp add: ok_code_def demo_result_def zero_result_def)
  with attack_results_reported [where genc = ?enc and w = "[]" and s = demo_final and add = "\<lambda>e x. x # e" and new = "[]"
      and get = "\<lambda>e q. (q, e)" and clear = "\<lambda>w. (w, None)", OF demo_final_reachable fin(1) rec(1) _ _ src]
  obtain out csv m where
    "encode_loop csv_encoder (round_robin_decoder list_decoder) [Ready, Ready] (0, [out]) [] = Some (csv, None)"
    "process_attack ?enc [Signal True, Received demo_result, ResultsClosed] None [] = Some (None, out, None)"
    "report_loop (Some (metrics_close (\<lambda>e q. (q, e)))) (\<lambda>m w. (w @ [m], Inr None)) (\<lambda>w. (w, None)) (round_robin_decoder csv_decoder)
      (metrics_add (\<lambda>e x. x # e)) [Ready, Ready] (0, [csv]) (new_metrics [] None) [] = Some (m, [m], None)"
    "m_Requests m = 1" "m_success m = 0"
    using rec(2) safe by (auto simp: fin)
  moreover from this(1,2) have "csv = csv_encode demo_result"
    by (auto simp: csv_encoder_def list_decoder_def round_robin_one)
  ultimately show ?thesis by blast
qed

text \<open>
  C15. \<open>vegeta encode -to json\<close> loses nothing: the results of any source, in any encoding, whose
  texts are UTF-8 and whose times JSON can write, are copied without an error to a file from which
  the JSON decoder reads the same results, headers and bodies included, and then the end.
\<close>

theorem encode_to_json_round_trip:
  assumes "result_source dec yields" and "yields s rs" and "list_all (json_safe time_text) rs"
    and "writes_json wr q text" and "quotes_json q" and "reads_json lx q before behind" and "json_times q time_text time_of"
    and "writing wr text (False, nil_as_empty) [] w"
    and "\<And>line r r' e. parse_result lx time_of line r = Some (Inr (r', e)) \<Longrightarrow> parse line r = (r', e)"
  shows "\<exists>w' file. encode_loop (json_encoder wr nils time_text) dec (replicate (Suc (length rs)) Ready) s (w, []) =
      Some ((w', file), None) \<and>
    decode_all (json_decoder parse) file = Some (rs, EOF)"
proof -
  obtain w' out where written: "encode_all (json_encoder wr nils time_text) (w, []) rs = ((w', out), None)"
    "out = concat (map (json_encode (result_text q nil_as_empty nils time_text)) rs)"
    using encode_all_results [OF assms(4,8,3), where out = "[]" and nils = nils] by auto
  have "json_yields (result_text q nil_as_empty nils time_text) parse out rs"
    unfolding written(2) by (rule json_encoder_yields [OF assms(6,5,7,3,9)])
  then have "decode_all (json_decoder parse) out = Some (rs, EOF)" by (rule json_file.decode_all_yields)
  then show ?thesis using result_source.encode_loop_yields_all [OF assms(1,2) written(1)] by blast
qed

definition demo_parse :: "string \<Rightarrow> result \<Rightarrow> result \<times> string option" where
  "demo_parse line r =
    (case parse_result text_lexer (\<lambda>_ _. (Timestamp demo_result, None)) line r of Some (Inr p) \<Rightarrow> p | _ \<Rightarrow> (r, None))"

theorem encode_to_json_round_trip_witness:
  "\<exists>w' file. encode_loop (json_encoder (line_writer literal) (\<lambda>_. no_nils) (\<lambda>t. if t = Timestamp demo_result then Inr (literal ''0'') else Inl ''year''))
      csv_decoder [Ready, Ready] (csv_encode demo_result) (([], None), []) = Some ((w', file), None) \<and>
    decode_all (json_decoder demo_parse) file = Some ([demo_result], EOF)"
proof -
  let ?tt = "\<lambda>t. if t = Timestamp demo_result then Inr (literal ''0'') else Inl ''year''"
  let ?of = "\<lambda>_ _. (Timestamp demo_result, None)"
  have src: "result_source csv_decoder csv_yields" by (rule csv_file.result_source_axioms)
  have csv: "csv_yields (csv_encode demo_result) [demo_result]"
    by (simp add: csv_yields_def csv_safe_def demo_result_def zero_result_def)
  have "valid_utf8 ''0''" by code_simp
  then have times: "json_times literal ?tt ?of" by (auto simp: json_times_def)
  have "list_all valid_utf8 [Attack demo_result, Error demo_result, Method demo_result, URL demo_result]" by code_simp
  moreover have "Headers demo_result = None" by (simp add: demo_result_def zero_result_def)
  ultimately have safe: "list_all (json_safe ?tt) [demo_result]" by (simp add: json_safe_def)
  have w: "writing (line_writer literal) fst (False, False) [] ([], None)" by (simp add: writing_def line_writer_def)
  have "parse_result text_lexer ?of line r = Some (Inr (r', e)) \<Longrightarrow> demo_parse line r = (r', e)" for line r r' e
    by (simp add: demo_parse_def)
  from encode_to_json_round_trip [OF src csv safe line_writer_writes literal_quotes text_lexer_reads times w this, where nils = "\<lambda>_. no_nils"]
  show ?thesis by simp
qed

end
